(* ===== verification/Go_Prelude.thy ===== *)
theory Go_Prelude
  imports Main "HOL-Library.Word"
begin

text \<open>
  The parts of the Go language that every component of the program uses: byte slices and
  strings, results that may be an error or a panic, state threaded through calls, and
  slice expressions with their bounds checks.

  A Go \<open>int\<close> that only counts or indexes memory is an \<open>int\<close>; it is turned into a word at
  the conversions of the source (\<open>uint32(len(p))\<close>, \<open>int64(max)\<close>), so truncation and
  wrap-around happen where the code has them.
\<close>

section \<open>Collections of facts\<close>

named_theorems go_simps \<open>equations of the Go primitives\<close>
named_theorems wire_simps \<open>lengths and layouts of encoded bytes\<close>
named_theorems no_panic_rules \<open>a call does not panic\<close>

section \<open>Data\<close>

type_synonym byte = "8 word"
type_synonym bytes = "byte list"
type_synonym gostring = bytes
type_synonym u16 = "16 word"
type_synonym u32 = "32 word"
type_synonym u64 = "64 word"
type_synonym i64 = "64 word"

abbreviation len :: "'a list \<Rightarrow> int" where
  "len xs \<equiv> int (length xs)"

section \<open>Results: a value, an error, or a panic\<close>

datatype ('e, 'a) outcome = Ok 'a | Fail 'e | Panic

primrec obind :: "('e, 'a) outcome \<Rightarrow> ('a \<Rightarrow> ('e, 'b) outcome) \<Rightarrow> ('e, 'b) outcome" where
  "obind (Ok a) f = f a"
| "obind (Fail e) f = Fail e"
| "obind Panic f = Panic"

lemma obind_eq_Ok [simp]: "obind m f = Ok y \<longleftrightarrow> (\<exists>x. m = Ok x \<and> f x = Ok y)"
  by (cases m) auto

lemma obind_eq_Fail: "obind m f = Fail e \<longleftrightarrow> m = Fail e \<or> (\<exists>x. m = Ok x \<and> f x = Fail e)"
  by (cases m) auto

lemma obind_no_panic [no_panic_rules]:
  "m \<noteq> Panic \<Longrightarrow> (\<And>x. m = Ok x \<Longrightarrow> f x \<noteq> Panic) \<Longrightarrow> obind m f \<noteq> Panic"
  by (cases m) auto

lemma obind_assoc: "obind (obind m f) g = obind m (\<lambda>x. obind (f x) g)"
  by (cases m) auto

lemma obind_if: "obind (if c then m else m') f = (if c then obind m f else obind m' f)"
  by simp

section \<open>State and results\<close>

text \<open>
  A method that reads or writes some state \<open>'s\<close> and returns a value or an error; the
  state is returned on every path, errors included.
\<close>

type_synonym ('s, 'e, 'a) go = "'s \<Rightarrow> ('e, 'a) outcome \<times> 's"

definition greturn :: "'a \<Rightarrow> ('s, 'e, 'a) go" where
  "greturn a s = (Ok a, s)"

definition gfail :: "'e \<Rightarrow> ('s, 'e, 'a) go" where
  "gfail e s = (Fail e, s)"

definition glift :: "('e, 'a) outcome \<Rightarrow> ('s, 'e, 'a) go" where
  "glift r s = (r, s)"

definition gbind :: "('s, 'e, 'a) go \<Rightarrow> ('a \<Rightarrow> ('s, 'e, 'b) go) \<Rightarrow> ('s, 'e, 'b) go" where
  "gbind m f s = (case m s of (Ok a, s') \<Rightarrow> f a s' | (Fail e, s') \<Rightarrow> (Fail e, s') | (Panic, s') \<Rightarrow> (Panic, s'))"

definition gtry :: "('s, 'e, 'a) go \<Rightarrow> (('e, 'a) outcome \<Rightarrow> ('s, 'e, 'b) go) \<Rightarrow> ('s, 'e, 'b) go" where
  "gtry m k s = (case m s of (r, s') \<Rightarrow> k r s')"

text \<open>The same call on a component of a larger state.\<close>

definition gzoom :: "('t \<Rightarrow> 's) \<Rightarrow> ('s \<Rightarrow> 't \<Rightarrow> 't) \<Rightarrow> ('s, 'e, 'a) go \<Rightarrow> ('t, 'e, 'a) go" where
  "gzoom get put m t = (case m (get t) of (r, s') \<Rightarrow> (r, put s' t))"

lemma go_monad_simps [simp]:
  "greturn a s = (Ok a, s)"
  "gfail e s = (Fail e, s)"
  "glift r s = (r, s)"
  by (simp_all add: greturn_def gfail_def glift_def)

lemma gbind_apply [simp]:
  "m s = (Ok a, s') \<Longrightarrow> gbind m f s = f a s'"
  "m s = (Fail e, s') \<Longrightarrow> gbind m f s = (Fail e, s')"
  "m s = (Panic, s') \<Longrightarrow> gbind m f s = (Panic, s')"
  by (simp_all add: gbind_def)

lemma gbind_cases:
  obtains (ok) a s' where "m s = (Ok a, s')" "gbind m f s = f a s'"
  | (fail) e s' where "m s = (Fail e, s')" "gbind m f s = (Fail e, s')"
  | (panic) s' where "m s = (Panic, s')" "gbind m f s = (Panic, s')"
proof (cases "m s")
  case (Pair r s')
  then show thesis
    by (cases r) (auto intro: that)
qed

lemma gbind_eq_Ok:
  "gbind m f s = (Ok b, t) \<longleftrightarrow> (\<exists>a s'. m s = (Ok a, s') \<and> f a s' = (Ok b, t))"
  by (auto simp: gbind_def split: prod.splits outcome.splits)

lemma gtry_eq: "gtry m k s = y \<longleftrightarrow> (\<exists>r s'. m s = (r, s') \<and> k r s' = y)"
  by (auto simp: gtry_def split: prod.splits)

lemma gtry_apply [simp]: "m s = (r, s') \<Longrightarrow> gtry m k s = k r s'"
  by (simp add: gtry_def)

lemma gbind_no_panic [no_panic_rules]:
  assumes "fst (m s) \<noteq> Panic"
    and "\<And>a s'. m s = (Ok a, s') \<Longrightarrow> fst (f a s') \<noteq> Panic"
  shows "fst (gbind m f s) \<noteq> Panic"
  using assms by (cases rule: gbind_cases [of m s f]) auto

section \<open>Slices\<close>

text \<open>
  \<open>p[lo:hi]\<close>, \<open>p[i]\<close>, \<open>b[i] = v\<close> and \<open>copy(b[lo:], src)\<close>. Go checks the bounds of a slice expression
  against the capacity; the model checks them against the length, which is at most the
  capacity, so a slice that does not panic here does not panic in Go.
\<close>

definition slice :: "'a list \<Rightarrow> int \<Rightarrow> int \<Rightarrow> ('e, 'a list) outcome" where
  "slice p lo hi =
     (if 0 \<le> lo \<and> lo \<le> hi \<and> hi \<le> len p
      then Ok (take (nat (hi - lo)) (drop (nat lo) p)) else Panic)"

definition index_at :: "'a list \<Rightarrow> int \<Rightarrow> ('e, 'a) outcome" where
  "index_at p i = (if 0 \<le> i \<and> i < len p then Ok (p ! nat i) else Panic)"

definition set_index :: "'a list \<Rightarrow> int \<Rightarrow> 'a \<Rightarrow> ('e, 'a list) outcome" where
  "set_index b i v = (if 0 \<le> i \<and> i < len b then Ok (b[nat i := v]) else Panic)"

text \<open>Overwrite \<open>b[lo:lo+len(src)]\<close> with \<open>src\<close>; it panics when the slice is too short.\<close>

definition put_at :: "'a list \<Rightarrow> int \<Rightarrow> 'a list \<Rightarrow> ('e, 'a list) outcome" where
  "put_at b lo src =
     (if 0 \<le> lo \<and> lo + len src \<le> len b
      then Ok (take (nat lo) b @ src @ drop (nat lo + length src) b) else Panic)"

text \<open>\<open>copy(b[lo:], src)\<close>: as many elements as fit.\<close>

definition copy_at :: "'a list \<Rightarrow> int \<Rightarrow> 'a list \<Rightarrow> ('e, 'a list) outcome" where
  "copy_at b lo src =
     (if 0 \<le> lo \<and> lo \<le> len b
      then put_at b lo (take (length b - nat lo) src) else Panic)"

lemma slice_Ok [simp]:
  "0 \<le> lo \<Longrightarrow> lo \<le> hi \<Longrightarrow> hi \<le> len p \<Longrightarrow> slice p lo hi = Ok (take (nat (hi - lo)) (drop (nat lo) p))"
  by (simp add: slice_def)

lemma slice_eq_Ok:
  "slice p lo hi = Ok q \<longleftrightarrow>
     0 \<le> lo \<and> lo \<le> hi \<and> hi \<le> len p \<and> q = take (nat (hi - lo)) (drop (nat lo) p)"
  by (auto simp: slice_def)

lemma slice_no_panic [no_panic_rules]:
  "0 \<le> lo \<Longrightarrow> lo \<le> hi \<Longrightarrow> hi \<le> len p \<Longrightarrow> slice p lo hi \<noteq> Panic"
  by simp

lemma slice_not_Fail [simp]: "slice p lo hi \<noteq> Fail e"
  by (simp add: slice_def)

lemma length_slice: "slice p lo hi = Ok q \<Longrightarrow> len q = hi - lo"
  by (auto simp: slice_eq_Ok)

lemma slice_append_mid:
  "lo = len a \<Longrightarrow> hi = len a + len b \<Longrightarrow> slice (a @ b @ c) lo hi = Ok b"
  by (simp add: nat_int_add)

lemma index_at_Ok [simp]:
  "0 \<le> i \<Longrightarrow> i < len p \<Longrightarrow> index_at p i = Ok (p ! nat i)"
  by (simp add: index_at_def)

lemma set_index_Ok [simp]:
  "0 \<le> i \<Longrightarrow> i < len b \<Longrightarrow> set_index b i v = Ok (b[nat i := v])"
  by (simp add: set_index_def)

lemma put_at_Ok [simp]:
  "0 \<le> lo \<Longrightarrow> lo + len src \<le> len b \<Longrightarrow>
     put_at b lo src = Ok (take (nat lo) b @ src @ drop (nat lo + length src) b)"
  by (simp add: put_at_def)

lemma copy_all [simp]: "length b = length src \<Longrightarrow> copy_at b 0 src = Ok src"
  by (simp add: copy_at_def)

lemma length_put_at: "put_at b lo src = Ok b' \<Longrightarrow> length b' = length b"
  by (auto simp: put_at_def split: if_splits)

section \<open>Lists\<close>

lemma append_eq_take_drop:
  "xs = ys @ zs \<longleftrightarrow> length ys \<le> length xs \<and> ys = take (length ys) xs \<and> zs = drop (length ys) xs"
  by (metis append_eq_conv_conj append_take_drop_id length_append nat_le_iff_add)

lemma drop_2_4:
  assumes "4 \<le> length h"
  shows "drop 2 h = h ! 2 # h ! 3 # drop 4 h"
proof -
  have "drop 2 h = h ! 2 # drop (Suc 2) h" and "drop 3 h = h ! 3 # drop (Suc 3) h"
    using assms by (intro Cons_nth_drop_Suc [symmetric]; simp)+
  then show ?thesis by simp
qed

lemma take_cong_length:
  assumes "min j (length xs) = min k (length xs)"
  shows "take j xs = take k xs"
proof -
  have "take i xs = take (min i (length xs)) xs" for i by (simp add: min_def)
  with assms show ?thesis by metis
qed

lemma concat_append_single: "concat (xss @ [xs]) = concat xss @ xs"
  by simp

lemma take_Suc_nth: "n < length xs \<Longrightarrow> take (Suc n) xs = take n xs @ [xs ! n]"
  by (rule take_Suc_conv_app_nth)

section \<open>Lengths as 64-bit signed integers\<close>

definition int64 :: "nat \<Rightarrow> i64" where
  "int64 n = word_of_nat n"

definition fits_int64 :: "nat \<Rightarrow> bool" where
  "fits_int64 n \<longleftrightarrow> n < 2 ^ 63"

lemma sint_int64 [simp]: "fits_int64 n \<Longrightarrow> sint (int64 n) = int n"
  unfolding int64_def fits_int64_def
  by (simp add: signed_of_nat signed_take_bit_int_eq_self)

lemma unat_int64 [simp]: "fits_int64 n \<Longrightarrow> unat (int64 n) = n"
  unfolding int64_def fits_int64_def
  by (simp add: unsigned_of_nat take_bit_nat_eq_self)

lemma fits_int64_mono: "m \<le> n \<Longrightarrow> fits_int64 n \<Longrightarrow> fits_int64 m"
  by (simp add: fits_int64_def)

lemma int64_Suc: "int64 (Suc n) = int64 n + 1"
  by (simp add: int64_def)

lemma int64_add: "int64 (m + n) = int64 m + int64 n"
  by (simp add: int64_def)

lemma int64_eq_iff:
  "fits_int64 m \<Longrightarrow> fits_int64 n \<Longrightarrow> int64 m = int64 n \<longleftrightarrow> m = n"
  by (metis unat_int64)

lemma int64_sless: "fits_int64 m \<Longrightarrow> fits_int64 n \<Longrightarrow> int64 m <s int64 n \<longleftrightarrow> m < n"
  by (simp add: word_sless_alt)

lemma int64_sle: "fits_int64 m \<Longrightarrow> fits_int64 n \<Longrightarrow> int64 m \<le>s int64 n \<longleftrightarrow> m \<le> n"
  by (simp add: word_sle_eq)

lemma sint_add_fits:
  "- (2 ^ 63) \<le> sint a + sint b \<Longrightarrow> sint a + sint b < 2 ^ 63 \<Longrightarrow> sint (a + b :: i64) = sint a + sint b"
  by (simp add: sint_word_add signed_take_bit_int_eq_self)

lemma sint_diff_fits:
  "- (2 ^ 63) \<le> sint a - sint b \<Longrightarrow> sint a - sint b < 2 ^ 63 \<Longrightarrow> sint (a - b :: i64) = sint a - sint b"
  by (simp add: sint_word_diff signed_take_bit_int_eq_self)

lemma nat_sint_fits [simp]: "fits_int64 (nat (sint (a :: i64)))"
  using sint_lt [of a] by (simp add: fits_int64_def nat_less_iff)

lemma int64_sint: "0 \<le> sint a \<Longrightarrow> int64 (nat (sint a)) = a"
  by (simp add: int64_def flip: word_of_int_nat)

end
