(* ===== verification/Snail_Errors.thy ===== *)
theory Snail_Errors
  imports Go_Prelude
begin

text \<open>
  The sentinel errors of the packages \<open>broker\<close> (\<open>broker/errors.go\<close>), \<open>protocol\<close>
  (\<open>protocol/frame.go\<close>) and \<open>network\<close> (\<open>network/client.go\<close>), the errors of the standard library's
  readers and writers, wrapping by \<open>fmt.Errorf\<close> with \<open>%w\<close>, and \<open>errors.Is\<close>.

  A wrapped error is kept as its format and the error it wraps; \<open>error_text\<close> renders it. The verb
  \<open>%q\<close> (\<open>strconv.Quote\<close>) is the parameter \<open>quote\<close> of the rendering.
\<close>

section \<open>Sentinels\<close>

datatype sentinel =
    \<comment> \<open>package broker\<close>
    ErrClosed | ErrTopicNameEmpty | ErrTopicNameTooLong | ErrInvalidTopicName
  | ErrTooManyTopics | ErrTopicExists | ErrTopicNotFound
    \<comment> \<open>package protocol\<close>
  | ErrInvalidMagic | ErrBadVersion | ErrTruncated | ErrTooLarge
    \<comment> \<open>package network\<close>
  | ErrStreaming | ErrClientClosed | ErrOverloaded | ErrEmptyBatch
    \<comment> \<open>readers, writers, connections and contexts of the standard library\<close>
  | EOF | ErrUnexpectedEOF | ErrShortWrite | IOError nat | ContextError nat

text \<open>The formats of the program's \<open>fmt.Errorf\<close> calls that wrap an error.\<close>

datatype errctx =
    AtTopic gostring gostring \<comment> \<open>\<open>broker: %s topic %q: %w\<close>\<close>
  | Prefix gostring           \<comment> \<open>\<open>...: %w\<close>\<close>
  | NameLength nat nat        \<comment> \<open>\<open>%w (%d > %d)\<close>\<close>
  | ControlAt nat             \<comment> \<open>\<open>%w: control character at byte %d\<close>\<close>
  | PayloadOver nat nat       \<comment> \<open>\<open>network: payload %d exceeds MaxMessage %d: %w\<close>\<close>
  | PayloadAtOver nat nat nat \<comment> \<open>\<open>network: payload[%d] %d exceeds MaxMessage %d: %w\<close>\<close>

datatype gerror =
    Sentinel sentinel
  | Wrap errctx gerror
  | NewError gostring

type_synonym 'a result = "(gerror, 'a) outcome"

abbreviation fail_with :: "sentinel \<Rightarrow> 'a result" where
  "fail_with s \<equiv> Fail (Sentinel s)"

section \<open>\<open>errors.Is\<close>\<close>

primrec errors_is :: "gerror \<Rightarrow> sentinel \<Rightarrow> bool" where
  "errors_is (Sentinel s) t = (s = t)"
| "errors_is (Wrap c e) t = errors_is e t"
| "errors_is (NewError m) t = False"

text \<open>The sentinel at the end of a chain of wraps, if there is one.\<close>

primrec error_root :: "gerror \<Rightarrow> sentinel option" where
  "error_root (Sentinel s) = Some s"
| "error_root (Wrap c e) = error_root e"
| "error_root (NewError m) = None"

lemma errors_is_root: "errors_is e s \<longleftrightarrow> error_root e = Some s"
  by (induction e) auto

lemma errors_is_unique: "errors_is e s \<Longrightarrow> errors_is e t \<Longrightarrow> s = t"
  by (simp add: errors_is_root)

section \<open>Texts\<close>

definition ascii :: "string \<Rightarrow> gostring" where
  "ascii cs = map of_char cs"

lemma length_ascii [simp]: "length (ascii cs) = length cs"
  by (simp add: ascii_def)

text \<open>The verb \<open>%d\<close> on a natural number.\<close>

fun decimal :: "nat \<Rightarrow> gostring" where
  "decimal n =
     (if n < 10 then [48 + of_nat n] else decimal (n div 10) @ [48 + of_nat (n mod 10)])"

declare decimal.simps [simp del]

lemma length_decimal: "n < 10 ^ Suc k \<Longrightarrow> length (decimal n) \<le> Suc k"
proof (induction k arbitrary: n)
  case (Suc k)
  then have "n div 10 < 10 ^ Suc k" by simp
  from Suc.IH [OF this] show ?case by (simp add: decimal.simps [of n])
qed (simp add: decimal.simps)

fun sentinel_text :: "sentinel \<Rightarrow> gostring" where
  "sentinel_text ErrClosed = ascii ''broker: closed''"
| "sentinel_text ErrTopicNameEmpty = ascii ''broker: empty topic name''"
| "sentinel_text ErrTopicNameTooLong = ascii ''broker: topic name too long''"
| "sentinel_text ErrInvalidTopicName = ascii ''broker: invalid topic name''"
| "sentinel_text ErrTooManyTopics = ascii ''broker: too many topics''"
| "sentinel_text ErrTopicExists = ascii ''broker: topic already exists''"
| "sentinel_text ErrTopicNotFound = ascii ''broker: topic not found''"
| "sentinel_text ErrInvalidMagic = ascii ''protocol: invalid magic''"
| "sentinel_text ErrBadVersion = ascii ''protocol: unsupported version''"
| "sentinel_text ErrTruncated = ascii ''protocol: truncated frame''"
| "sentinel_text ErrTooLarge = ascii ''protocol: payload too large''"
| "sentinel_text ErrStreaming = ascii ''network: client is in streaming mode''"
| "sentinel_text ErrClientClosed = ascii ''network: client closed''"
| "sentinel_text ErrOverloaded = ascii ''network: server overloaded''"
| "sentinel_text ErrEmptyBatch = ascii ''network: empty publish batch''"
| "sentinel_text EOF = ascii ''EOF''"
| "sentinel_text ErrUnexpectedEOF = ascii ''unexpected EOF''"
| "sentinel_text ErrShortWrite = ascii ''short write''"
| "sentinel_text (IOError n) = ascii ''i/o error'' @ decimal n"
| "sentinel_text (ContextError n) = ascii ''context error'' @ decimal n"

fun wrap_text :: "(gostring \<Rightarrow> gostring) \<Rightarrow> errctx \<Rightarrow> gostring \<Rightarrow> gostring" where
  "wrap_text quote (AtTopic what name) t =
     ascii ''broker: '' @ what @ ascii '' topic '' @ quote name @ ascii '': '' @ t"
| "wrap_text quote (Prefix p) t = p @ ascii '': '' @ t"
| "wrap_text quote (NameLength n m) t =
     t @ ascii '' ('' @ decimal n @ ascii '' > '' @ decimal m @ ascii '')''"
| "wrap_text quote (ControlAt i) t = t @ ascii '': control character at byte '' @ decimal i"
| "wrap_text quote (PayloadOver n m) t =
     ascii ''network: payload '' @ decimal n @ ascii '' exceeds MaxMessage '' @ decimal m @
     ascii '': '' @ t"
| "wrap_text quote (PayloadAtOver i n m) t =
     ascii ''network: payload['' @ decimal i @ ascii ''] '' @ decimal n @
     ascii '' exceeds MaxMessage '' @ decimal m @ ascii '': '' @ t"

primrec error_text :: "(gostring \<Rightarrow> gostring) \<Rightarrow> gerror \<Rightarrow> gostring" where
  "error_text quote (Sentinel s) = sentinel_text s"
| "error_text quote (Wrap c e) = wrap_text quote c (error_text quote e)"
| "error_text quote (NewError m) = m"

end
