(* ===== verification/Go_Binary.thy ===== *)
theory Go_Binary
  imports Snail_Errors
begin

unbundle bit_operations_syntax

text \<open>
  Little-endian integers, as \<open>encoding/binary\<close> reads and writes them: byte \<open>i\<close> holds bits
  \<open>8 i\<close> to \<open>8 i + 7\<close>. \<open>le16\<close>, \<open>le32\<close>, \<open>le64\<close> are the bytes the \<open>Put\<close> and \<open>Append\<close>
  functions write; \<open>Uint16\<close>, \<open>Uint32\<close>, \<open>Uint64\<close> read the first bytes of a slice and panic on
  a shorter one, as the library's bounds check does.
\<close>

section \<open>Writing\<close>

definition le16 :: "u16 \<Rightarrow> bytes" where
  "le16 v = [ucast v, ucast (drop_bit 8 v)]"

definition le32 :: "u32 \<Rightarrow> bytes" where
  "le32 v = [ucast v, ucast (drop_bit 8 v), ucast (drop_bit 16 v), ucast (drop_bit 24 v)]"

definition le64 :: "u64 \<Rightarrow> bytes" where
  "le64 v =
     [ucast v, ucast (drop_bit 8 v), ucast (drop_bit 16 v), ucast (drop_bit 24 v),
      ucast (drop_bit 32 v), ucast (drop_bit 40 v), ucast (drop_bit 48 v), ucast (drop_bit 56 v)]"

section \<open>Reading\<close>

fun Uint16 :: "bytes \<Rightarrow> u16 result" where
  "Uint16 (b0 # b1 # _) = Ok (ucast b0 OR push_bit 8 (ucast b1))"
| "Uint16 _ = Panic"

fun Uint32 :: "bytes \<Rightarrow> u32 result" where
  "Uint32 (b0 # b1 # b2 # b3 # _) =
     Ok (ucast b0 OR push_bit 8 (ucast b1) OR push_bit 16 (ucast b2) OR push_bit 24 (ucast b3))"
| "Uint32 _ = Panic"

fun Uint64 :: "bytes \<Rightarrow> u64 result" where
  "Uint64 (b0 # b1 # b2 # b3 # b4 # b5 # b6 # b7 # _) =
     Ok (ucast b0 OR push_bit 8 (ucast b1) OR push_bit 16 (ucast b2) OR push_bit 24 (ucast b3) OR
         push_bit 32 (ucast b4) OR push_bit 40 (ucast b5) OR push_bit 48 (ucast b6) OR
         push_bit 56 (ucast b7))"
| "Uint64 _ = Panic"

section \<open>Conversions of lengths\<close>

definition uint32 :: "int \<Rightarrow> u32" where
  "uint32 n = word_of_int n"

lemma uint_uint32 [simp]: "0 \<le> n \<Longrightarrow> n < 2 ^ 32 \<Longrightarrow> uint (uint32 n) = n"
  by (simp add: uint32_def unsigned_of_int take_bit_int_eq_self)

lemma uint32_uint [simp]: "uint32 (uint v) = v"
  by (simp add: uint32_def)

lemma uint_uint32_mod: "uint (uint32 n) = n mod 2 ^ 32"
  by (simp add: uint32_def unsigned_of_int take_bit_eq_mod)

lemma uint32_bounds [simp]: "0 \<le> uint (v :: u32)" "uint (v :: u32) < 2 ^ 32"
  using uint_bounded [of v] by simp_all

section \<open>Layout\<close>

lemma length_le [simp, wire_simps]:
  "length (le16 a) = 2" "length (le32 b) = 4" "length (le64 c) = 8"
  by (simp_all add: le16_def le32_def le64_def)

lemma le_not_Nil [simp]: "le16 a \<noteq> []" "le32 b \<noteq> []" "le64 c \<noteq> []"
  by (simp_all add: le16_def le32_def le64_def)

lemma le16_expand: fixes v :: u16
  shows "ucast (ucast v :: byte) OR push_bit 8 (ucast (ucast (drop_bit 8 v) :: byte)) = v" (is "?l = v")
proof (rule bit_word_eqI)
  fix n assume "n < LENGTH(16)"
  then consider "n < 8" | "8 \<le> n" "n < 16" by fastforce
  then show "bit ?l n = bit v n"
    by cases (simp_all add: bit_simps less_diff_conv2)
qed

lemma le32_expand: fixes v :: u32
  shows "ucast (ucast v :: byte) OR push_bit 8 (ucast (ucast (drop_bit 8 v) :: byte)) OR
     push_bit 16 (ucast (ucast (drop_bit 16 v) :: byte)) OR
     push_bit 24 (ucast (ucast (drop_bit 24 v) :: byte)) = v" (is "?l = v")
proof (rule bit_word_eqI)
  fix n assume "n < LENGTH(32)"
  then consider "n < 8" | "8 \<le> n" "n < 16" | "16 \<le> n" "n < 24" | "24 \<le> n" "n < 32"
    by fastforce
  then show "bit ?l n = bit v n"
    by cases (simp_all add: bit_simps less_diff_conv2)
qed

lemma le64_expand: fixes v :: u64
  shows "ucast (ucast v :: byte) OR push_bit 8 (ucast (ucast (drop_bit 8 v) :: byte)) OR
     push_bit 16 (ucast (ucast (drop_bit 16 v) :: byte)) OR
     push_bit 24 (ucast (ucast (drop_bit 24 v) :: byte)) OR
     push_bit 32 (ucast (ucast (drop_bit 32 v) :: byte)) OR
     push_bit 40 (ucast (ucast (drop_bit 40 v) :: byte)) OR
     push_bit 48 (ucast (ucast (drop_bit 48 v) :: byte)) OR
     push_bit 56 (ucast (ucast (drop_bit 56 v) :: byte)) = v" (is "?l = v")
proof (rule bit_word_eqI)
  fix n assume "n < LENGTH(64)"
  then consider "n < 8" | "8 \<le> n" "n < 16" | "16 \<le> n" "n < 24" | "24 \<le> n" "n < 32"
    | "32 \<le> n" "n < 40" | "40 \<le> n" "n < 48" | "48 \<le> n" "n < 56" | "56 \<le> n" "n < 64"
    by fastforce
  then show "bit ?l n = bit v n"
    by cases (simp_all add: bit_simps less_diff_conv2)
qed

lemma Uint_le [simp]:
  "Uint16 (le16 v @ bs) = Ok v" "Uint32 (le32 w @ bs) = Ok w" "Uint64 (le64 x @ bs) = Ok x"
  by (simp_all add: le16_def le32_def le64_def le16_expand le32_expand le64_expand)

lemma Uint_le_Nil [simp]:
  "Uint16 (le16 v) = Ok v" "Uint32 (le32 w) = Ok w" "Uint64 (le64 x) = Ok x"
  using Uint_le(1) [of v "[]"] Uint_le(2) [of w "[]"] Uint_le(3) [of x "[]"] by simp_all

lemma byte_bit_high [simp]: "8 \<le> n \<Longrightarrow> \<not> bit (b :: byte) n"
  by (auto dest: bit_imp_le_length)

lemma le16_of_bytes: "le16 (ucast b0 OR push_bit 8 (ucast b1)) = [b0, b1]"
  by (auto simp: le16_def bit_simps intro!: bit_word_eqI)

lemma le32_of_bytes:
  "le32 (ucast b0 OR push_bit 8 (ucast b1) OR push_bit 16 (ucast b2) OR push_bit 24 (ucast b3))
     = [b0, b1, b2, b3]"
  by (auto simp: le32_def bit_simps intro!: bit_word_eqI)

lemma le64_of_bytes:
  "le64 (ucast b0 OR push_bit 8 (ucast b1) OR push_bit 16 (ucast b2) OR push_bit 24 (ucast b3) OR
         push_bit 32 (ucast b4) OR push_bit 40 (ucast b5) OR push_bit 48 (ucast b6) OR
         push_bit 56 (ucast b7)) = [b0, b1, b2, b3, b4, b5, b6, b7]"
  by (auto simp: le64_def bit_simps intro!: bit_word_eqI)

text \<open>A read succeeds exactly on the bytes of the number, followed by anything.\<close>

lemma Uint16_eq_Ok: "Uint16 b = Ok v \<longleftrightarrow> (\<exists>rest. b = le16 v @ rest)"
  by (cases b rule: Uint16.cases) (auto simp: le16_of_bytes, auto simp: le16_def le16_expand)

lemma Uint32_eq_Ok: "Uint32 b = Ok v \<longleftrightarrow> (\<exists>rest. b = le32 v @ rest)"
  by (cases b rule: Uint32.cases) (auto simp: le32_of_bytes, auto simp: le32_def le32_expand)

lemma Uint64_eq_Ok: "Uint64 b = Ok v \<longleftrightarrow> (\<exists>rest. b = le64 v @ rest)"
  by (cases b rule: Uint64.cases) (auto simp: le64_of_bytes, auto simp: le64_def le64_expand)

lemma le_inject [simp]: "le16 a = le16 b \<longleftrightarrow> a = b" "le32 c = le32 d \<longleftrightarrow> c = d" "le64 e = le64 f \<longleftrightarrow> e = f"
  by (metis Uint_le_Nil(1) outcome.inject(1), metis Uint_le_Nil(2) outcome.inject(1),
      metis Uint_le_Nil(3) outcome.inject(1))

lemma Uint_not_Fail [simp]: "Uint16 a \<noteq> Fail e" "Uint32 b \<noteq> Fail e" "Uint64 c \<noteq> Fail e"
proof -
  show "Uint16 a \<noteq> Fail e" by (cases a rule: Uint16.cases) auto
  show "Uint32 b \<noteq> Fail e" by (cases b rule: Uint32.cases) auto
  show "Uint64 c \<noteq> Fail e" by (cases c rule: Uint64.cases) auto
qed

lemma Uint16_total: "2 \<le> length b \<Longrightarrow> \<exists>v. Uint16 b = Ok v"
  by (cases b rule: Uint16.cases) auto

lemma Uint32_total: "4 \<le> length b \<Longrightarrow> \<exists>v. Uint32 b = Ok v"
  by (cases b rule: Uint32.cases) auto

lemma Uint64_total: "8 \<le> length b \<Longrightarrow> \<exists>v. Uint64 b = Ok v"
  by (cases b rule: Uint64.cases) auto

section \<open>Values\<close>

text \<open>A number is the sum of its bytes, each with its place value.\<close>

lemma or_push_bit:
  assumes a: "0 \<le> a" "a < 2 ^ n"
  shows "a OR push_bit n b = a + 2 ^ n * (b :: int)"
proof -
  have "a AND push_bit n b = 0"
  proof (rule bit_eqI)
    fix m
    have "a = take_bit n a" using a by (simp add: take_bit_int_eq_self)
    then have "bit a m \<Longrightarrow> m < n" by (metis bit_take_bit_iff)
    then show "bit (a AND push_bit n b) m = bit (0 :: int) m" by (auto simp: bit_simps)
  qed
  then show ?thesis by (simp add: disjunctive_add_eq_or [symmetric] push_bit_eq_mult mult.commute)
qed
lemma Uint32_value:
  "uint (ucast b0 OR push_bit 8 (ucast b1) OR push_bit 16 (ucast b2) OR push_bit 24 (ucast b3) :: u32) =
     uint (b0 :: byte) + 256 * uint (b1 :: byte) + 65536 * uint (b2 :: byte) + 16777216 * uint (b3 :: byte)"
proof -
  have b: "0 \<le> uint b" "uint b < 256" for b :: "byte" using uint_bounded [of b] by simp_all
  have c: "uint (ucast b :: u32) = uint b" for b :: "byte"
    using b [of b] by (simp add: unsigned_ucast_eq take_bit_int_eq_self)
  have u: "uint (push_bit k (ucast b :: u32)) = push_bit k (uint b)" if "k \<le> 24" for k and b :: "byte"
  proof -
    have "uint b < 2 ^ 8" using uint_lt2p [of b] by simp
    then have "uint b * 2 ^ k < 2 ^ 8 * 2 ^ k" by (intro mult_strict_right_mono) simp_all
    also have "(2::int) ^ 8 * 2 ^ k \<le> 2 ^ 32" using power_increasing [OF that, of "2 :: int"] by simp
    finally have lt: "uint b * 2 ^ k < 2 ^ 32" .
    have "uint (push_bit k (ucast b :: u32)) = take_bit 32 (push_bit k (uint b))"
      by (simp only: unsigned_push_bit_eq c) simp
    then show ?thesis using lt b [of b] by (simp add: push_bit_eq_mult take_bit_int_eq_self)
  qed
  have "uint (ucast b0 OR push_bit 8 (ucast b1) OR push_bit 16 (ucast b2) OR push_bit 24 (ucast b3) :: u32)
    = ((uint b0 OR push_bit 8 (uint b1)) OR push_bit 16 (uint b2)) OR push_bit 24 (uint b3)"
    by (simp add: unsigned_or_eq u c or.assoc)
  then show ?thesis using b [of b0] b [of b1] b [of b2] by (simp add: or_push_bit)
qed

end
