(* ===== verification/Go_IO.thy ===== *)
theory Go_IO
  imports Snail_Errors
begin

text \<open>
  Readers and writers of the standard library, as far as the program relies on them.

  \<^item> A byte stream that a reader delivers is a list of bytes and faults (a deadline that
    expires, a reset connection); its end is EOF. A fault is reported once and the bytes
    after it can still be read, as with a \<open>bufio.Reader\<close> over a connection whose deadline
    was extended.
  \<^item> \<open>io.ReadFull\<close> takes exactly the number of bytes it is asked for, or fails.
  \<^item> \<open>io.Writer\<close> is an interface: the write functions of the program take the method
    as an argument, and the locale \<open>io_writer\<close> states its contract.
\<close>

section \<open>Readers\<close>

datatype rx = Byte byte | Fault sentinel

type_synonym instream = "rx list"

abbreviation stream_of :: "bytes \<Rightarrow> instream" where
  "stream_of \<equiv> map Byte"

lemma stream_of_inject [simp]: "stream_of a = stream_of b \<longleftrightarrow> a = b"
  by (simp add: inj_map_eq_map inj_on_def)

text \<open>
  \<open>io.ReadFull(r, buf)\<close> with \<open>len(buf) = n\<close>: a stream that ends before the first byte is EOF,
  one that ends later is ErrUnexpectedEOF, any other fault is returned as it is. The bytes read
  before a fault are consumed.
\<close>

fun ReadFull :: "nat \<Rightarrow> (instream, gerror, bytes) go" where
  "ReadFull 0 s = (Ok [], s)"
| "ReadFull (Suc n) [] = (fail_with EOF, [])"
| "ReadFull (Suc n) (Fault e # s) = (fail_with e, s)"
| "ReadFull (Suc n) (Byte b # s) =
     (case ReadFull n s of
        (Ok bs, s') \<Rightarrow> (Ok (b # bs), s')
      | (Fail e, s') \<Rightarrow> (Fail (if e = Sentinel EOF then Sentinel ErrUnexpectedEOF else e), s')
      | (Panic, s') \<Rightarrow> (Panic, s'))"

lemma ReadFull_bytes [simp]:
  "ReadFull (length bs) (stream_of bs @ s) = (Ok bs, s)"
  by (induction bs) auto

lemma ReadFull_bytes_n:
  "length bs = n \<Longrightarrow> ReadFull n (stream_of bs @ s) = (Ok bs, s)"
  by auto

lemma ReadFull_eq_Ok:
  "ReadFull n s = (Ok bs, s') \<longleftrightarrow> length bs = n \<and> s = stream_of bs @ s'"
proof
  show "length bs = n \<and> s = stream_of bs @ s' \<Longrightarrow> ReadFull n s = (Ok bs, s')"
    by auto
  show "ReadFull n s = (Ok bs, s') \<Longrightarrow> length bs = n \<and> s = stream_of bs @ s'"
    by (induction n s arbitrary: bs s' rule: ReadFull.induct)
       (auto split: prod.splits outcome.splits)
qed

lemma ReadFull_no_panic [simp, no_panic_rules]: "fst (ReadFull n s) \<noteq> Panic"
  by (induction n s rule: ReadFull.induct) (auto split: prod.splits outcome.splits)

lemma ReadFull_not_Panic [simp]: "ReadFull n s \<noteq> (Panic, s')"
  using ReadFull_no_panic [of n s] by (metis fst_conv)

text \<open>The rest of the stream is a suffix: nothing is put back.\<close>

lemma ReadFull_suffix: "ReadFull n s = (r, s') \<Longrightarrow> \<exists>pre. s = pre @ s'"
proof (induction n s arbitrary: r s' rule: ReadFull.induct)
  case (3 n e s)
  then show ?case by (auto intro: exI [of _ "[Fault e]"])
next
  case (4 n b s)
  obtain q t where qt: "ReadFull n s = (q, t)" by force
  with 4 obtain pre where "s = pre @ t" by blast
  with 4 qt show ?case
    by (auto split: outcome.splits intro!: exI [of _ "Byte b # pre"])
qed auto

lemma ReadFull_length: "ReadFull n s = (r, s') \<Longrightarrow> length s' \<le> length s"
  by (drule ReadFull_suffix) auto

lemma ReadFull_short:
  "length bs < n \<Longrightarrow>
     ReadFull n (stream_of bs) = (fail_with (if bs = [] then EOF else ErrUnexpectedEOF), [])"
proof (induction bs arbitrary: n)
  case Nil
  then show ?case by (cases n) auto
next
  case (Cons b bs)
  then show ?case by (cases n) auto
qed

text \<open>A read that fails reports EOF, ErrUnexpectedEOF or the fault in the stream.\<close>

lemma ReadFull_fault:
  "length bs < n \<Longrightarrow> e \<noteq> EOF \<Longrightarrow>
     ReadFull n (stream_of bs @ Fault e # s) = (fail_with e, s)"
proof (induction bs arbitrary: n)
  case Nil
  then show ?case by (cases n) auto
next
  case (Cons b bs)
  then show ?case by (cases n) auto
qed

section \<open>The contract of \<open>io.Writer\<close>\<close>

text \<open>
  \<open>sent w\<close> is every byte the writer has taken so far, in order. A write that succeeds takes
  all its bytes; one that fails takes a prefix of them.
\<close>

locale io_writer =
  fixes wr :: "bytes \<Rightarrow> ('w, gerror, unit) go"
    and sent :: "'w \<Rightarrow> bytes"
  assumes wr_ok: "wr b w = (Ok u, w') \<Longrightarrow> sent w' = sent w @ b"
    and wr_fail: "wr b w = (Fail e, w') \<Longrightarrow> \<exists>k. sent w' = sent w @ take k b"
    and wr_no_panic: "fst (wr b w) \<noteq> Panic"
begin

text \<open>
  \<open>emits m bs\<close>: the action \<open>m\<close> writes exactly \<open>bs\<close> when it succeeds, a prefix of it when it
  fails, and it does not panic.
\<close>

definition emits :: "('w, gerror, unit) go \<Rightarrow> bytes \<Rightarrow> bool" where
  "emits m bs \<longleftrightarrow>
     (\<forall>w u w'. m w = (Ok u, w') \<longrightarrow> sent w' = sent w @ bs) \<and>
     (\<forall>w e w'. m w = (Fail e, w') \<longrightarrow> (\<exists>k. sent w' = sent w @ take k bs)) \<and>
     (\<forall>w. fst (m w) \<noteq> Panic)"

lemma emits_ok: "emits m bs \<Longrightarrow> m w = (Ok u, w') \<Longrightarrow> sent w' = sent w @ bs"
  by (simp add: emits_def)

lemma emits_fail: "emits m bs \<Longrightarrow> m w = (Fail e, w') \<Longrightarrow> \<exists>k. sent w' = sent w @ take k bs"
  by (simp add: emits_def)

lemma emits_no_panic: "emits m bs \<Longrightarrow> fst (m w) \<noteq> Panic"
  by (simp add: emits_def)

lemma emitsI:
  assumes "\<And>w u w'. m w = (Ok u, w') \<Longrightarrow> sent w' = sent w @ bs"
    and "\<And>w e w'. m w = (Fail e, w') \<Longrightarrow> \<exists>k. sent w' = sent w @ take k bs"
    and "\<And>w. fst (m w) \<noteq> Panic"
  shows "emits m bs"
  using assms by (simp add: emits_def)

lemma emits_wr: "emits (wr b) b"
  by (rule emitsI) (auto intro: wr_ok wr_fail simp: wr_no_panic)

lemma emits_return [simp]: "emits (greturn ()) []" "emits (Pair (Ok ())) []"
  by (rule emitsI; auto)+

lemma emits_bind:
  assumes m: "emits m a" and m': "emits m' b"
  shows "emits (gbind m (\<lambda>_. m')) (a @ b)"
proof (rule emitsI)
  fix w u w'
  assume "gbind m (\<lambda>_. m') w = (Ok u, w')"
  then obtain v where "m w = (Ok (), v)" "m' v = (Ok u, w')"
    by (auto simp: gbind_eq_Ok)
  then show "sent w' = sent w @ a @ b"
    using emits_ok [OF m] emits_ok [OF m'] by fastforce
next
  fix w e w'
  assume f: "gbind m (\<lambda>_. m') w = (Fail e, w')"
  show "\<exists>k. sent w' = sent w @ take k (a @ b)"
  proof (cases rule: gbind_cases [of m w "\<lambda>_. m'"])
    case (ok u v)
    with f obtain k where "sent w' = sent v @ take k b"
      using emits_fail [OF m'] by fastforce
    with ok show ?thesis
      using emits_ok [OF m] by (intro exI [of _ "length a + k"]) auto
  next
    case (fail e' v)
    with f obtain k where "sent w' = sent w @ take k a"
      using emits_fail [OF m, of w e' v] by auto
    then show ?thesis
      by (intro exI [of _ "min k (length a)"]) (auto simp: min_def)
  next
    case (panic v)
    with f show ?thesis by simp
  qed
next
  fix w
  show "fst (gbind m (\<lambda>_. m') w) \<noteq> Panic"
    by (rule gbind_no_panic) (simp_all add: emits_no_panic [OF m] emits_no_panic [OF m'])
qed

end

section \<open>Actions that succeed\<close>

text \<open>\<open>succeeds P m\<close>: from a writer in good condition, \<open>m\<close> succeeds and leaves it in good condition.\<close>

definition succeeds :: "('w \<Rightarrow> bool) \<Rightarrow> ('w, gerror, unit) go \<Rightarrow> bool" where
  "succeeds P m \<longleftrightarrow> (\<forall>w. P w \<longrightarrow> (\<exists>w'. m w = (Ok (), w') \<and> P w'))"

lemma succeedsD: "succeeds P m \<Longrightarrow> P w \<Longrightarrow> \<exists>w'. m w = (Ok (), w') \<and> P w'"
  by (simp add: succeeds_def)

lemma succeeds_return [simp]: "succeeds P (greturn ())" "succeeds P (Pair (Ok ()))"
  by (simp_all add: succeeds_def)

lemma succeeds_bind: "succeeds P m \<Longrightarrow> succeeds P m' \<Longrightarrow> succeeds P (gbind m (\<lambda>_. m'))"
  by (fastforce simp: succeeds_def gbind_def)

end
