(* ===== verification/Protocol_Frame.thy ===== *)
theory Protocol_Frame
  imports Go_Binary Go_IO
begin

text \<open>
  \<open>protocol/frame.go\<close>: the 8-byte frame header (magic, version, opcode, payload length) and
  the functions that read and write frames.

  The write functions take the \<open>Write\<close> method of their \<open>io.Writer\<close> as the argument \<open>wr\<close>.
  \<open>frame_bytes\<close> is the layout the lemmas compare them with.
\<close>

section \<open>Constants\<close>

definition Magic :: u16 where "Magic = 0x4D51"
definition Version :: byte where "Version = 1"
definition HeaderLen :: nat where "HeaderLen = 8"
definition MaxPayload :: int where "MaxPayload = 16 * 2 ^ 20"
definition MaxMessage :: int where "MaxMessage = MaxPayload - 12"

type_synonym opcode = byte

definition OpCreateTopic :: opcode where "OpCreateTopic = 1"
definition OpPublish :: opcode where "OpPublish = 2"
definition OpSubscribe :: opcode where "OpSubscribe = 3"
definition OpMessage :: opcode where "OpMessage = 4"
definition OpError :: opcode where "OpError = 5"
definition OpPublishBatch :: opcode where "OpPublishBatch = 6"
definition OpPublishNoAck :: opcode where "OpPublishNoAck = 7"
definition OpListTopics :: opcode where "OpListTopics = 8"

lemmas opcode_defs =
  OpCreateTopic_def OpPublish_def OpSubscribe_def OpMessage_def OpError_def
  OpPublishBatch_def OpPublishNoAck_def OpListTopics_def

type_synonym code = u16

definition CodeUnknown :: code where "CodeUnknown = 0"
definition CodeClosed :: code where "CodeClosed = 1"
definition CodeTopicExists :: code where "CodeTopicExists = 2"
definition CodeTopicNotFound :: code where "CodeTopicNotFound = 3"
definition CodeEmptyTopicName :: code where "CodeEmptyTopicName = 4"
definition CodeTooLarge :: code where "CodeTooLarge = 5"
definition CodeOverloaded :: code where "CodeOverloaded = 6"
definition CodeTopicNameTooLong :: code where "CodeTopicNameTooLong = 7"
definition CodeInvalidTopicName :: code where "CodeInvalidTopicName = 8"
definition CodeTooManyTopics :: code where "CodeTooManyTopics = 9"

lemmas code_defs =
  CodeUnknown_def CodeClosed_def CodeTopicExists_def CodeTopicNotFound_def
  CodeEmptyTopicName_def CodeTooLarge_def CodeOverloaded_def CodeTopicNameTooLong_def
  CodeInvalidTopicName_def CodeTooManyTopics_def

lemmas size_defs = MaxPayload_def MaxMessage_def HeaderLen_def

section \<open>Frames\<close>

text \<open>The layout of a frame, for the specifications.\<close>

definition header_bytes :: "opcode \<Rightarrow> int \<Rightarrow> bytes" where
  "header_bytes op n = le16 Magic @ [Version, op] @ le32 (uint32 n)"

definition frame_bytes :: "opcode \<Rightarrow> bytes \<Rightarrow> bytes" where
  "frame_bytes op p = header_bytes op (len p) @ p"

definition EncodeFrame :: "opcode \<Rightarrow> bytes \<Rightarrow> bytes result" where
  "EncodeFrame op payload =
     (let buf = replicate (HeaderLen + length payload) 0 in
      obind (put_at buf 0 (le16 Magic)) (\<lambda>buf.
      obind (set_index buf 2 Version) (\<lambda>buf.
      obind (set_index buf 3 op) (\<lambda>buf.
      obind (put_at buf 4 (le32 (uint32 (len payload)))) (\<lambda>buf.
      copy_at buf 8 payload)))))"

definition parse_header :: "bytes \<Rightarrow> (opcode \<times> int) result" where
  "parse_header hdr =
     obind (obind (slice hdr 0 2) Uint16) (\<lambda>magic.
     if magic \<noteq> Magic then fail_with ErrInvalidMagic
     else obind (index_at hdr 2) (\<lambda>v.
     if v \<noteq> Version then fail_with ErrBadVersion
     else obind (index_at hdr 3) (\<lambda>op.
     obind (obind (slice hdr 4 8) Uint32) (\<lambda>payloadLen.
     if uint payloadLen > MaxPayload then fail_with ErrTooLarge
     else Ok (op, uint payloadLen)))))"

definition ReadHeader :: "(instream, gerror, opcode \<times> int) go" where
  "ReadHeader =
     gtry (ReadFull HeaderLen) (\<lambda>r. glift (case r of
       Fail e \<Rightarrow>
         if errors_is e EOF \<or> errors_is e ErrUnexpectedEOF then fail_with ErrTruncated else Fail e
     | Panic \<Rightarrow> Panic
     | Ok hdr \<Rightarrow> parse_header hdr))"

text \<open>
  \<open>io.ReadFull\<close> with every error reported as ErrTruncated, as \<open>ReadFrame\<close> treats the payload and
  the decoders treat their input.
\<close>

definition read_or_truncated :: "nat \<Rightarrow> (instream, gerror, bytes) go" where
  "read_or_truncated n =
     gtry (ReadFull n) (\<lambda>r. glift (case r of
       Fail e \<Rightarrow> fail_with ErrTruncated
     | Panic \<Rightarrow> Panic
     | Ok b \<Rightarrow> Ok b))"

definition ReadFrame :: "(instream, gerror, opcode \<times> bytes) go" where
  "ReadFrame =
     gbind ReadHeader (\<lambda>(op, n).
     gbind (read_or_truncated (nat n)) (\<lambda>payload.
     greturn (op, payload)))"

definition WriteFrame ::
    "(bytes \<Rightarrow> ('w, gerror, unit) go) \<Rightarrow> opcode \<Rightarrow> bytes \<Rightarrow> ('w, gerror, unit) go" where
  "WriteFrame wr op payload =
     (if len payload > MaxPayload then gfail (Sentinel ErrTooLarge)
      else gbind (glift (EncodeFrame op payload)) wr)"

definition WriteFrameHeader ::
    "(bytes \<Rightarrow> ('w, gerror, unit) go) \<Rightarrow> opcode \<Rightarrow> int \<Rightarrow> ('w, gerror, unit) go" where
  "WriteFrameHeader wr op payloadLen =
     (if payloadLen > MaxPayload then gfail (Sentinel ErrTooLarge)
      else gbind (glift
        (let h = replicate HeaderLen 0 in
         obind (put_at h 0 (le16 Magic)) (\<lambda>h.
         obind (set_index h 2 Version) (\<lambda>h.
         obind (set_index h 3 op) (\<lambda>h.
         put_at h 4 (le32 (uint32 payloadLen))))))) wr)"

section \<open>Pushed messages\<close>

text \<open>
  \<open>msgHeaderPool\<close>: the pool of 20-byte headers is a list of recycled buffers with whatever
  their last use left in them; \<open>Get\<close> takes one, or makes a new one.
\<close>

type_synonym header_pool = "bytes list"

fun pool_get :: "(header_pool, gerror, bytes) go" where
  "pool_get [] = (Ok (replicate 20 0), [])"
| "pool_get (h # hs) = (Ok h, hs)"

definition fill_message_header :: "bytes \<Rightarrow> i64 \<Rightarrow> bytes \<Rightarrow> bytes result" where
  "fill_message_header h off p =
     obind (put_at h 0 (le16 Magic)) (\<lambda>h.
     obind (set_index h 2 Version) (\<lambda>h.
     obind (set_index h 3 OpMessage) (\<lambda>h.
     obind (put_at h 4 (le32 (uint32 (12 + len p)))) (\<lambda>h.
     obind (put_at h 8 (le64 off)) (\<lambda>h.
     put_at h 16 (le32 (uint32 (len p))))))))"

text \<open>
  The loop of \<open>WriteMessageBatch\<close> over \<open>offsets\<close> from index \<open>i\<close> on: \<open>bufs\<close> are the buffers to
  write, \<open>hdrs\<close> the headers taken from the pool. A message that is too large puts them back.
\<close>

fun batch_bufs ::
    "i64 list \<Rightarrow> bytes list \<Rightarrow> int \<Rightarrow> bytes list \<Rightarrow> bytes list
      \<Rightarrow> (header_pool, gerror, bytes list \<times> bytes list) go" where
  "batch_bufs [] payloads i bufs hdrs = greturn (bufs, hdrs)"
| "batch_bufs (off # offs) payloads i bufs hdrs =
     gbind (glift (index_at payloads i)) (\<lambda>p.
     if len p > MaxMessage then (\<lambda>pool. (fail_with ErrTooLarge, hdrs @ pool))
     else gbind pool_get (\<lambda>h.
     gbind (glift (fill_message_header h off p)) (\<lambda>h.
     batch_bufs offs payloads (i + 1) (bufs @ [h, p]) (hdrs @ [h]))))"

text \<open>\<open>net.Buffers.WriteTo\<close>: the buffers in order, up to the first error.\<close>

fun write_buffers ::
    "(bytes \<Rightarrow> ('w, gerror, unit) go) \<Rightarrow> bytes list \<Rightarrow> ('w, gerror, unit) go" where
  "write_buffers wr [] = greturn ()"
| "write_buffers wr (b # bs) = gbind (wr b) (\<lambda>_. write_buffers wr bs)"

definition WriteMessageBatch ::
    "(bytes \<Rightarrow> ('w, gerror, unit) go) \<Rightarrow> i64 list \<Rightarrow> bytes list
      \<Rightarrow> ('w \<times> header_pool, gerror, unit) go" where
  "WriteMessageBatch wr offsets payloads = (\<lambda>(w, pool).
     if length offsets \<noteq> length payloads
     then (Fail (NewError (ascii ''protocol: offsets/payloads length mismatch'')), (w, pool))
     else if offsets = [] then (Ok (), (w, pool))
     else (case batch_bufs offsets payloads 0 [] [] pool of
         (Fail e, pool) \<Rightarrow> (Fail e, (w, pool))
       | (Panic, pool) \<Rightarrow> (Panic, (w, pool))
       | (Ok (bufs, hdrs), pool) \<Rightarrow>
           (case write_buffers wr bufs w of (r, w) \<Rightarrow> (r, (w, hdrs @ pool)))))"

definition WriteMessage ::
    "(bytes \<Rightarrow> ('w, gerror, unit) go) \<Rightarrow> i64 \<Rightarrow> bytes \<Rightarrow> ('w, gerror, unit) go" where
  "WriteMessage wr offset payload =
     (if len payload > MaxMessage then gfail (Sentinel ErrTooLarge)
      else gbind (WriteFrameHeader wr OpMessage (12 + len payload)) (\<lambda>_.
      gbind (glift
        (let meta = replicate 12 0 in
         obind (put_at meta 0 (le64 offset)) (\<lambda>meta.
         put_at meta 8 (le32 (uint32 (len payload)))))) (\<lambda>meta.
      gbind (wr meta) (\<lambda>_.
      wr payload))))"

section \<open>Publishing\<close>

definition writePublishOp ::
    "(bytes \<Rightarrow> ('w, gerror, unit) go) \<Rightarrow> opcode \<Rightarrow> gostring \<Rightarrow> bytes \<Rightarrow> ('w, gerror, unit) go" where
  "writePublishOp wr op topic payload =
     (let bodyLen = 4 + len topic + 4 + len payload in
      if bodyLen > MaxPayload then gfail (Sentinel ErrTooLarge)
      else gbind (WriteFrameHeader wr op bodyLen) (\<lambda>_.
      gbind (wr (le32 (uint32 (len topic)))) (\<lambda>_.
      gbind (wr topic) (\<lambda>_.
      gbind (wr (le32 (uint32 (len payload)))) (\<lambda>_.
      wr payload)))))"

definition WritePublish ::
    "(bytes \<Rightarrow> ('w, gerror, unit) go) \<Rightarrow> gostring \<Rightarrow> bytes \<Rightarrow> ('w, gerror, unit) go" where
  "WritePublish wr topic payload = writePublishOp wr OpPublish topic payload"

definition WritePublishNoAck ::
    "(bytes \<Rightarrow> ('w, gerror, unit) go) \<Rightarrow> gostring \<Rightarrow> bytes \<Rightarrow> ('w, gerror, unit) go" where
  "WritePublishNoAck wr topic payload = writePublishOp wr OpPublishNoAck topic payload"

text \<open>The two loops of \<open>WritePublishBatch\<close>: the length of the body, and the messages.\<close>

fun batch_body_len :: "bytes list \<Rightarrow> int \<Rightarrow> int result" where
  "batch_body_len [] bodyLen = Ok bodyLen"
| "batch_body_len (p # ps) bodyLen =
     (if len p > MaxMessage then fail_with ErrTooLarge
      else batch_body_len ps (bodyLen + (4 + len p)))"

fun write_messages ::
    "(bytes \<Rightarrow> ('w, gerror, unit) go) \<Rightarrow> bytes list \<Rightarrow> ('w, gerror, unit) go" where
  "write_messages wr [] = greturn ()"
| "write_messages wr (p # ps) =
     gbind (wr (le32 (uint32 (len p)))) (\<lambda>_.
     gbind (wr p) (\<lambda>_.
     write_messages wr ps))"

definition WritePublishBatch ::
    "(bytes \<Rightarrow> ('w, gerror, unit) go) \<Rightarrow> gostring \<Rightarrow> bytes list \<Rightarrow> ('w, gerror, unit) go" where
  "WritePublishBatch wr topic payloads =
     gbind (glift (batch_body_len payloads (4 + len topic + 4))) (\<lambda>bodyLen.
     if bodyLen > MaxPayload then gfail (Sentinel ErrTooLarge)
     else gbind (WriteFrameHeader wr OpPublishBatch bodyLen) (\<lambda>_.
     gbind (wr (le32 (uint32 (len topic)))) (\<lambda>_.
     gbind (wr topic) (\<lambda>_.
     gbind (wr (le32 (uint32 (len payloads)))) (\<lambda>_.
     write_messages wr payloads)))))"

section \<open>Layout\<close>

lemma MaxPayload_lt [simp]: "n \<le> MaxPayload \<Longrightarrow> n < 2 ^ 32"
  by (simp add: MaxPayload_def)

lemma uint_uint32_payload [simp]: "0 \<le> n \<Longrightarrow> n \<le> MaxPayload \<Longrightarrow> uint (uint32 n) = n"
  by (rule uint_uint32) (simp_all add: MaxPayload_def)

lemma length_header_bytes [simp, wire_simps]: "length (header_bytes op n) = 8"
  by (simp add: header_bytes_def)

lemma length_frame_bytes [simp, wire_simps]: "length (frame_bytes op p) = 8 + length p"
  by (simp add: frame_bytes_def)

lemma replicate_8: "replicate (8 + n) 0 = [0,0,0,0,0,0,0,0] @ replicate n (0 :: byte)"
  by (simp add: replicate_add eval_nat_numeral)

lemma EncodeFrame_eq: "EncodeFrame op p = Ok (frame_bytes op p)"
  by (simp add: EncodeFrame_def HeaderLen_def Let_def replicate_8 put_at_def set_index_def
      copy_at_def frame_bytes_def header_bytes_def le16_def le32_def nat_int_add)

lemma WriteFrameHeader_eq:
  "WriteFrameHeader wr op n =
     (if n > MaxPayload then gfail (Sentinel ErrTooLarge) else wr (header_bytes op n))"
  using replicate_8 [of 0]
  by (auto simp: fun_eq_iff WriteFrameHeader_def HeaderLen_def Let_def put_at_def set_index_def
      header_bytes_def le16_def le32_def gbind_def)

lemma WriteFrame_eq:
  "WriteFrame wr op p =
     (if len p > MaxPayload then gfail (Sentinel ErrTooLarge) else wr (frame_bytes op p))"
  by (auto simp: WriteFrame_def EncodeFrame_eq fun_eq_iff gbind_def)

section \<open>Reading what was written\<close>

lemma parse_header_header [simp]:
  assumes "0 \<le> n" and "n \<le> MaxPayload"
  shows "parse_header (header_bytes op n) = Ok (op, n)"
proof -
  have "take 2 (header_bytes op n) = le16 Magic"
    and "take 4 (drop 4 (header_bytes op n)) = le32 (uint32 n)"
    and "header_bytes op n ! 2 = Version" and "header_bytes op n ! 3 = op"
    by (simp_all add: header_bytes_def le16_def le32_def eval_nat_numeral)
  then show ?thesis
    using assms by (simp add: parse_header_def)
qed

text \<open>Whatever an accepted header was read from is the encoding of what it says.\<close>

lemma header_bytes_parse:
  assumes hdr: "length hdr = 8"
    and m: "take 2 hdr = le16 Magic" and ver: "hdr ! 2 = Version"
    and v: "take 4 (drop 4 hdr) = le32 v"
  shows "hdr = header_bytes (hdr ! 3) (uint v)"
proof -
  have "drop 2 hdr = hdr ! 2 # hdr ! 3 # drop 4 hdr"
    using hdr by (simp add: drop_2_4)
  then have "hdr = take 2 hdr @ hdr ! 2 # hdr ! 3 # take 4 (drop 4 hdr)"
    using hdr append_take_drop_id [of 2 hdr] by simp
  then show ?thesis
    by (simp only: header_bytes_def m v ver uint32_uint append_Cons append_Nil)
qed

lemma parse_header_eq_Ok:
  assumes "length hdr = 8"
  shows "parse_header hdr = Ok (op, n) \<longleftrightarrow> 0 \<le> n \<and> n \<le> MaxPayload \<and> hdr = header_bytes op n"
proof
  assume "parse_header hdr = Ok (op, n)"
  with assms have "\<exists>v. take 2 hdr = le16 Magic \<and> hdr ! 2 = Version \<and> op = hdr ! 3 \<and>
      take 4 (drop 4 hdr) = le32 v \<and> n = uint v \<and> n \<le> MaxPayload"
    by (auto simp: parse_header_def Uint16_eq_Ok Uint32_eq_Ok append_eq_take_drop split: if_splits) metis
  then show "0 \<le> n \<and> n \<le> MaxPayload \<and> hdr = header_bytes op n"
    using header_bytes_parse [OF assms] by auto
qed auto

text \<open>The errors of a header, in the order of the checks.\<close>

lemma parse_header_errors:
  assumes "length hdr = 8"
  obtains op n where "parse_header hdr = Ok (op, n)"
  | "parse_header hdr = fail_with ErrInvalidMagic" "take 2 hdr \<noteq> le16 Magic"
  | "parse_header hdr = fail_with ErrBadVersion" "take 2 hdr = le16 Magic" "hdr ! 2 \<noteq> Version"
  | "parse_header hdr = fail_with ErrTooLarge" "take 2 hdr = le16 Magic" "hdr ! 2 = Version"
proof -
  obtain m v where m: "Uint16 (take 2 hdr) = (Ok m)"
    and v: "Uint32 (take 4 (drop 4 hdr)) = (Ok v)"
    using assms Uint16_total [of "take 2 hdr"] Uint32_total [of "take 4 (drop 4 hdr)"] by auto
  have magic: "m = Magic \<longleftrightarrow> take 2 hdr = le16 Magic"
    using m assms by (auto simp: Uint16_eq_Ok append_eq_take_drop)
  have eq: "parse_header hdr =
      (if m \<noteq> Magic then fail_with ErrInvalidMagic
       else if hdr ! 2 \<noteq> Version then fail_with ErrBadVersion
       else if uint v > MaxPayload then fail_with ErrTooLarge else Ok (hdr ! 3, uint v))"
    using assms m v by (simp add: parse_header_def)
  consider "take 2 hdr \<noteq> le16 Magic" | "take 2 hdr = le16 Magic" "hdr ! 2 \<noteq> Version"
    | "take 2 hdr = le16 Magic" "hdr ! 2 = Version" "uint v > MaxPayload"
    | "take 2 hdr = le16 Magic" "hdr ! 2 = Version" "\<not> uint v > MaxPayload"
    by blast
  then show thesis
    by cases (use that eq magic in \<open>simp_all\<close>)
qed

lemma ReadHeader_cases:
  obtains (ok) op n s' where "ReadHeader s = (Ok (op, n), s')"
  | (fail) e s' where "ReadHeader s = (Fail e, s')"
proof -
  obtain r s' where r: "ReadFull HeaderLen s = (r, s')" by force
  show thesis
  proof (cases r)
    case (Ok hdr)
    with r have "length hdr = 8" by (simp add: ReadFull_eq_Ok HeaderLen_def)
    then show thesis
      by (cases rule: parse_header_errors) (use r Ok that in \<open>auto simp: ReadHeader_def\<close>)
  next
    case (Fail e)
    with r show thesis
      by (cases "errors_is e EOF \<or> errors_is e ErrUnexpectedEOF")
        (auto simp: ReadHeader_def intro: that)
  qed (use r in auto)
qed

lemma ReadHeader_header [simp]:
  "0 \<le> n \<Longrightarrow> n \<le> MaxPayload \<Longrightarrow>
     ReadHeader (stream_of (header_bytes op n) @ s) = (Ok (op, n), s)"
  using ReadFull_bytes_n [of "header_bytes op n" HeaderLen s]
  by (simp add: ReadHeader_def HeaderLen_def)

lemma ReadHeader_eq_Ok:
  "ReadHeader s = (Ok (op, n), s') \<longleftrightarrow>
     0 \<le> n \<and> n \<le> MaxPayload \<and> s = stream_of (header_bytes op n) @ s'"
proof
  assume a: "ReadHeader s = (Ok (op, n), s')"
  then obtain r where r: "ReadFull HeaderLen s = (r, s')"
    by (auto simp: ReadHeader_def gtry_eq)
  with a obtain hdr where "r = Ok hdr" "parse_header hdr = Ok (op, n)"
    by (cases r) (auto simp: ReadHeader_def split: if_splits)
  with r show "0 \<le> n \<and> n \<le> MaxPayload \<and> s = stream_of (header_bytes op n) @ s'"
    using parse_header_eq_Ok [of hdr op n] by (auto simp: ReadFull_eq_Ok HeaderLen_def)
qed auto

lemma read_or_truncated_cases:
  obtains (ok) b s' where "ReadFull n s = (Ok b, s')" "read_or_truncated n s = (Ok b, s')"
  | (fail) e s' where "ReadFull n s = (Fail e, s')" "read_or_truncated n s = (fail_with ErrTruncated, s')"
proof -
  obtain r s' where "ReadFull n s = (r, s')" by force
  then show thesis
    by (cases r) (auto simp: read_or_truncated_def intro: that)
qed

lemma read_or_truncated_eq_Ok:
  "read_or_truncated n s = (Ok b, s') \<longleftrightarrow> length b = n \<and> s = stream_of b @ s'"
proof -
  have "read_or_truncated n s = (Ok b, s') \<longleftrightarrow> ReadFull n s = (Ok b, s')"
    by (cases n s rule: read_or_truncated_cases) auto
  then show ?thesis by (simp only: ReadFull_eq_Ok)
qed

lemma read_or_truncated_bytes [simp]:
  "length b = n \<Longrightarrow> read_or_truncated n (stream_of b @ s) = (Ok b, s)"
  by (simp add: read_or_truncated_eq_Ok)

lemma read_or_truncated_short:
  "length b < n \<Longrightarrow> read_or_truncated n (stream_of b) = (fail_with ErrTruncated, [])"
  by (simp add: read_or_truncated_def ReadFull_short)

lemma ReadFrame_frame:
  assumes "len p \<le> MaxPayload"
  shows "ReadFrame (stream_of (frame_bytes op p) @ s) = (Ok (op, p), s)"
  using assms by (simp add: ReadFrame_def frame_bytes_def)

lemma ReadFrame_eq_Ok:
  "ReadFrame s = (Ok (op, p), s') \<longleftrightarrow>
     len p \<le> MaxPayload \<and> s = stream_of (frame_bytes op p) @ s'"
proof
  assume "ReadFrame s = (Ok (op, p), s')"
  then show "len p \<le> MaxPayload \<and> s = stream_of (frame_bytes op p) @ s'"
    by (auto simp: ReadFrame_def gbind_eq_Ok ReadHeader_eq_Ok read_or_truncated_eq_Ok frame_bytes_def)
qed (auto simp: ReadFrame_frame)

text \<open>Reading a frame does not panic.\<close>

lemma ReadHeader_not_Panic: "ReadHeader i \<noteq> (Panic, i')"
  by (cases i rule: ReadHeader_cases) auto

lemma ReadFrame_not_Panic [simp]: "ReadFrame i \<noteq> (Panic, i')"
proof (cases i rule: ReadHeader_cases)
  case (ok op n s')
  then show ?thesis
    by (cases "nat n" s' rule: read_or_truncated_cases) (auto simp: ReadFrame_def)
qed (simp add: ReadFrame_def)

end
