(* ===== verification/Protocol_Codec.thy ===== *)
theory Protocol_Codec
  imports Protocol_Frame
begin

text \<open>
  \<open>protocol/codec.go\<close>: the payload of each opcode. The decoders index their input by a position
  and take subslices of it; the model keeps the positions and the bounds checks of each slice
  expression, so that a missing check would be a panic.
\<close>

section \<open>Encoding and decoding\<close>

definition putString :: "bytes \<Rightarrow> gostring \<Rightarrow> bytes" where
  "putString b s = (b @ le32 (uint32 (len s))) @ s"

definition getUint32 :: "(instream, gerror, u32) go" where
  "getUint32 = gbind (read_or_truncated 4) (\<lambda>b. glift (Uint32 b))"

definition EncodePublish :: "gostring \<Rightarrow> bytes \<Rightarrow> bytes" where
  "EncodePublish topic payload =
     (let b = putString [] topic;
          b = b @ le32 (uint32 (len payload)) in b @ payload)"

definition DecodePublish :: "bytes \<Rightarrow> (gostring \<times> bytes) result" where
  "DecodePublish p =
     (if len p < 4 then fail_with ErrTruncated
      else obind (obind (slice p 0 4) Uint32) (\<lambda>v.
      let tl = uint v; pos = 4 in
      if tl > len p - pos then fail_with ErrTruncated
      else obind (slice p pos (pos + tl)) (\<lambda>topic.
      let pos = pos + tl in
      if len p - pos < 4 then fail_with ErrTruncated
      else obind (obind (slice p pos (pos + 4)) Uint32) (\<lambda>v.
      let ml = uint v; pos = pos + 4 in
      if ml > len p - pos then fail_with ErrTruncated
      else obind (slice p pos (pos + ml)) (\<lambda>payload.
      Ok (topic, payload))))))"

definition EncodeMessage :: "i64 \<Rightarrow> bytes \<Rightarrow> bytes" where
  "EncodeMessage offset payload =
     (let b = le64 offset;
          b = b @ le32 (uint32 (len payload)) in b @ payload)"

definition DecodeMessage :: "bytes \<Rightarrow> (i64 \<times> bytes) result" where
  "DecodeMessage p =
     (if len p < 12 then fail_with ErrTruncated
      else obind (obind (slice p 0 8) Uint64) (\<lambda>offset.
      obind (obind (slice p 8 12) Uint32) (\<lambda>v.
      let ml = uint v in
      if ml > len p - 12 then fail_with ErrTruncated
      else obind (slice p 12 (12 + ml)) (\<lambda>payload.
      Ok (offset, payload)))))"

definition MarshalOffset :: "i64 \<Rightarrow> bytes" where
  "MarshalOffset off = le64 off"

definition UnmarshalOffset :: "bytes \<Rightarrow> i64 result" where
  "UnmarshalOffset b =
     (if len b < 8 then fail_with ErrTruncated
      else obind (slice b 0 8) Uint64)"

definition EncodePublishAck :: "i64 \<Rightarrow> int \<Rightarrow> bytes" where
  "EncodePublishAck base count = le64 base @ le32 (uint32 count)"

definition DecodePublishAck :: "bytes \<Rightarrow> (i64 \<times> int) result" where
  "DecodePublishAck b =
     (if len b < 12 then fail_with ErrTruncated
      else obind (obind (slice b 0 8) Uint64) (\<lambda>base.
      obind (obind (slice b 8 12) Uint32) (\<lambda>count.
      Ok (base, uint count))))"

text \<open>The loop of \<open>EncodePublishBatch\<close>, and of \<open>EncodeTopics\<close>, which calls \<open>putString\<close>.\<close>

fun append_messages :: "bytes \<Rightarrow> bytes list \<Rightarrow> bytes" where
  "append_messages b [] = b"
| "append_messages b (p # ps) = append_messages ((b @ le32 (uint32 (len p))) @ p) ps"

fun append_names :: "bytes \<Rightarrow> gostring list \<Rightarrow> bytes" where
  "append_names b [] = b"
| "append_names b (n # ns) = append_names (putString b n) ns"

definition EncodePublishBatch :: "gostring \<Rightarrow> bytes list \<Rightarrow> bytes" where
  "EncodePublishBatch topic payloads =
     (let b = putString [] topic;
          b = b @ le32 (uint32 (len payloads)) in append_messages b payloads)"

text \<open>
  The loop of \<open>DecodePublishBatch\<close> and of \<open>DecodeTopics\<close>, with \<open>n\<close> rounds to go: both read a
  length and a subslice of that length (\<open>DecodeTopics\<close> copies it into a string).
\<close>

fun decode_blocks :: "bytes \<Rightarrow> nat \<Rightarrow> int \<Rightarrow> bytes list \<Rightarrow> bytes list result" where
  "decode_blocks p 0 pos acc = Ok acc"
| "decode_blocks p (Suc n) pos acc =
     (if len p - pos < 4 then fail_with ErrTruncated
      else obind (obind (slice p pos (pos + 4)) Uint32) (\<lambda>v.
      let ml = uint v; pos = pos + 4 in
      if ml > len p - pos then fail_with ErrTruncated
      else obind (slice p pos (pos + ml)) (\<lambda>m.
      decode_blocks p n (pos + ml) (acc @ [m]))))"

definition DecodePublishBatch :: "bytes \<Rightarrow> (gostring \<times> bytes list) result" where
  "DecodePublishBatch p =
     (if len p < 4 then fail_with ErrTruncated
      else obind (obind (slice p 0 4) Uint32) (\<lambda>v.
      let tl = uint v; pos = 4 in
      if tl > len p - pos then fail_with ErrTruncated
      else obind (slice p pos (pos + tl)) (\<lambda>topic.
      let pos = pos + tl in
      if len p - pos < 4 then fail_with ErrTruncated
      else obind (obind (slice p pos (pos + 4)) Uint32) (\<lambda>v.
      let count = uint v; pos = pos + 4 in
      if count < 0 \<or> count > (len p - pos) div 4 then fail_with ErrTruncated
      else obind (decode_blocks p (nat count) pos []) (\<lambda>payloads.
      Ok (topic, payloads))))))"

definition EncodeTopics :: "gostring list \<Rightarrow> bytes" where
  "EncodeTopics names = append_names (le32 (uint32 (len names))) names"

definition DecodeTopics :: "bytes \<Rightarrow> gostring list result" where
  "DecodeTopics p =
     (if len p < 4 then fail_with ErrTruncated
      else obind (obind (slice p 0 4) Uint32) (\<lambda>v.
      let count = uint v; pos = 4 in
      if count < 0 \<or> count > (len p - pos) div 4 then fail_with ErrTruncated
      else decode_blocks p (nat count) pos []))"

definition EncodeError :: "code \<Rightarrow> gostring \<Rightarrow> bytes" where
  "EncodeError c msg =
     (let b = le16 c;
          b = b @ le32 (uint32 (len msg)) in b @ msg)"

definition DecodeError :: "bytes \<Rightarrow> (code \<times> gostring) result" where
  "DecodeError p = fst
     (gbind (read_or_truncated 2) (\<lambda>cb.
      gbind getUint32 (\<lambda>mlen r.
      if uint mlen > len r then (fail_with ErrTruncated, r)
      else gbind (read_or_truncated (nat (uint mlen))) (\<lambda>buf.
      glift (obind (Uint16 cb) (\<lambda>c. Ok (c, buf)))) r)) (stream_of p))"

section \<open>Length-prefixed blocks\<close>

text \<open>
  The reference for the layouts: a block is its length and its bytes, and \<open>get_block\<close> parses one
  off the front of the input, with no positions.
\<close>

definition block :: "bytes \<Rightarrow> bytes" where
  "block b = le32 (uint32 (len b)) @ b"

definition blocks :: "bytes list \<Rightarrow> bytes" where
  "blocks bs = concat (map block bs)"

definition get_block :: "bytes \<Rightarrow> (bytes \<times> bytes) option" where
  "get_block r =
     (case Uint32 r of
        Ok v \<Rightarrow> (let n = nat (uint v); r = drop 4 r in
                 if n \<le> length r then Some (take n r, drop n r) else None)
      | _ \<Rightarrow> None)"

fun get_blocks :: "nat \<Rightarrow> bytes \<Rightarrow> (bytes list \<times> bytes) option" where
  "get_blocks 0 r = Some ([], r)"
| "get_blocks (Suc n) r =
     (case get_block r of
        None \<Rightarrow> None
      | Some (b, r) \<Rightarrow> (case get_blocks n r of
            None \<Rightarrow> None
          | Some (bs, r) \<Rightarrow> Some (b # bs, r)))"

definition encodable :: "bytes \<Rightarrow> bool" where
  "encodable b \<longleftrightarrow> len b < 2 ^ 32"

lemma length_block [simp, wire_simps]: "length (block b) = 4 + length b"
  by (simp add: block_def)

lemma blocks_simps [simp]: "blocks [] = []" "blocks (b # bs) = block b @ blocks bs"
  by (simp_all add: blocks_def)

lemma uint_uint32_len [simp]: "encodable b \<Longrightarrow> uint (uint32 (len b)) = len b"
  by (simp add: encodable_def)

lemma get_block_block [simp]: "encodable b \<Longrightarrow> get_block (block b @ r) = Some (b, r)"
  by (simp add: get_block_def block_def Let_def)

lemma get_block_eq_Some:
  "get_block r = Some (b, r') \<longleftrightarrow> encodable b \<and> r = block b @ r'"
proof
  assume "get_block r = Some (b, r')"
  then obtain v where v: "Uint32 r = (Ok v)"
    and n: "nat (uint v) \<le> length (drop 4 r)"
    and b: "b = take (nat (uint v)) (drop 4 r)" "r' = drop (nat (uint v)) (drop 4 r)"
    by (auto simp: get_block_def Let_def split: outcome.splits if_splits)
  from v obtain rest where r: "r = le32 v @ rest" by (auto simp: Uint32_eq_Ok)
  with n b have "len b = uint v" by simp
  then show "encodable b \<and> r = block b @ r'"
    using r b uint32_bounds(2) [of v] by (simp add: encodable_def block_def)
qed simp

lemma get_block_length: "get_block r = Some (b, r') \<Longrightarrow> length r = 4 + length b + length r'"
  by (auto simp: get_block_eq_Some)

lemma block_append_inject:
  "encodable a \<Longrightarrow> encodable b \<Longrightarrow> block a @ r = block b @ r' \<longleftrightarrow> a = b \<and> r = r'"
  by (metis get_block_block option.inject prod.inject)

lemma get_blocks_blocks [simp]:
  "\<forall>b\<in>set bs. encodable b \<Longrightarrow> get_blocks (length bs) (blocks bs @ r) = Some (bs, r)"
  by (induction bs) auto

lemma get_blocks_eq_Some:
  "get_blocks n r = Some (bs, r') \<longleftrightarrow> length bs = n \<and> (\<forall>b\<in>set bs. encodable b) \<and> r = blocks bs @ r'"
proof
  show "get_blocks n r = Some (bs, r') \<Longrightarrow> length bs = n \<and> (\<forall>b\<in>set bs. encodable b) \<and> r = blocks bs @ r'"
    by (induction n arbitrary: r bs) (auto simp: get_block_eq_Some split: option.split_asm prod.split_asm)
qed auto

lemma get_blocks_length: "get_blocks n r = Some (bs, r') \<Longrightarrow> 4 * n \<le> length r"
  by (induction n arbitrary: r bs) (auto split: option.splits dest!: get_block_length, fastforce)

section \<open>The decoders are block parsers\<close>

text \<open>
  The step the decoders share: at position \<open>pos\<close>, a length and that many bytes, with both
  bounds checks.
\<close>

definition read_block :: "bytes \<Rightarrow> int \<Rightarrow> (bytes \<times> int) result" where
  "read_block p pos =
     (if len p - pos < 4 then fail_with ErrTruncated
      else obind (obind (slice p pos (pos + 4)) Uint32) (\<lambda>v.
      if uint v > len p - (pos + 4) then fail_with ErrTruncated
      else obind (slice p (pos + 4) (pos + 4 + uint v)) (\<lambda>m.
      Ok (m, pos + 4 + uint v))))"

lemma get_block_None_short: "length r < 4 \<Longrightarrow> get_block r = None"
  using get_block_length by (cases "get_block r") fastforce+

lemma read_block_eq:
  "read_block (pre @ r) (len pre) =
     (case get_block r of
        None \<Rightarrow> fail_with ErrTruncated
      | Some (m, r') \<Rightarrow> Ok (m, len (pre @ block m)))"
proof (cases "length r < 4")
  case True
  then show ?thesis by (simp add: read_block_def get_block_None_short)
next
  case False
  then obtain v where v: "Uint32 r = (Ok v)"
    using Uint32_total [of r] by auto
  then obtain rest where r: "r = le32 v @ rest" by (auto simp: Uint32_eq_Ok)
  have n: "uint v \<le> len rest \<longleftrightarrow> unat v \<le> length rest"
    by (metis of_nat_le_iff uint_nat)
  have lo: "nat (len pre + 4) = length pre + 4" by simp
  show ?thesis
    using n
    by (cases "uint v \<le> len rest") (simp_all add: r read_block_def get_block_def Let_def lo)
qed

lemma read_block_0: "read_block r 0 =
     (case get_block r of None \<Rightarrow> fail_with ErrTruncated | Some (m, r') \<Rightarrow> Ok (m, len (block m)))"
  using read_block_eq [of "[]" r] by (cases "get_block r") auto

lemma decode_blocks_step:
  "decode_blocks p (Suc n) pos acc =
     obind (read_block p pos) (\<lambda>(m, pos). decode_blocks p n pos (acc @ [m]))"
  by (simp add: read_block_def Let_def obind_assoc obind_if cong: if_cong)

lemma decode_blocks_eq:
  "decode_blocks (pre @ r) n (len pre) acc =
     (case get_blocks n r of None \<Rightarrow> fail_with ErrTruncated | Some (bs, r') \<Rightarrow> Ok (acc @ bs))"
proof (induction n arbitrary: pre r acc)
  case (Suc n)
  show ?case
  proof (cases "get_block r")
    case None
    then show ?thesis
      by (simp add: decode_blocks_step read_block_eq del: decode_blocks.simps)
  next
    case (Some br)
    then obtain b r' where br: "get_block r = Some (b, r')" by (cases br) auto
    then have "pre @ r = (pre @ block b) @ r'" by (simp add: get_block_eq_Some)
    with br Suc [of "pre @ block b" r' "acc @ [b]"] show ?thesis
      by (simp add: decode_blocks_step read_block_eq del: decode_blocks.simps split: option.split)
  qed
qed simp

lemma DecodePublish_eq:
  "DecodePublish p =
     (case get_block p of
        None \<Rightarrow> fail_with ErrTruncated
      | Some (topic, r) \<Rightarrow> (case get_block r of
            None \<Rightarrow> fail_with ErrTruncated
          | Some (payload, r') \<Rightarrow> Ok (topic, payload)))"
proof -
  have "DecodePublish p = obind (read_block p 0) (\<lambda>(topic, pos).
      obind (read_block p pos) (\<lambda>(payload, pos). Ok (topic, payload)))"
    by (simp add: DecodePublish_def read_block_def Let_def obind_assoc obind_if cong: if_cong)
  moreover have "read_block p (len (block topic)) = (case get_block r of
        None \<Rightarrow> fail_with ErrTruncated
      | Some (m, r') \<Rightarrow> Ok (m, len (block topic @ block m)))"
    if "get_block p = Some (topic, r)" for topic r
    using that read_block_eq [of "block topic" r] by (simp add: get_block_eq_Some)
  ultimately show ?thesis
    by (auto simp: read_block_0 split: option.split)
qed

section \<open>Counted lists\<close>

definition counted :: "bytes list \<Rightarrow> bytes" where
  "counted bs = le32 (uint32 (len bs)) @ blocks bs"

definition get_counted :: "bytes \<Rightarrow> (bytes list \<times> bytes) option" where
  "get_counted r =
     (case Uint32 r of
        Ok v \<Rightarrow> get_blocks (nat (uint v)) (drop 4 r)
      | _ \<Rightarrow> None)"

definition encodable_list :: "bytes list \<Rightarrow> bool" where
  "encodable_list bs \<longleftrightarrow> len bs < 2 ^ 32 \<and> (\<forall>b\<in>set bs. encodable b)"

lemma get_counted_eq_Some:
  "get_counted r = Some (bs, r') \<longleftrightarrow> encodable_list bs \<and> r = counted bs @ r'"
proof
  assume "get_counted r = Some (bs, r')"
  then obtain v where v: "Uint32 r = (Ok v)"
    and bs: "get_blocks (nat (uint v)) (drop 4 r) = Some (bs, r')"
    by (auto simp: get_counted_def split: outcome.splits)
  from v obtain rest where "r = le32 v @ rest" by (auto simp: Uint32_eq_Ok)
  moreover from bs have "len bs = uint v" "\<forall>b\<in>set bs. encodable b" "drop 4 r = blocks bs @ r'"
    by (auto simp: get_blocks_eq_Some)
  ultimately show "encodable_list bs \<and> r = counted bs @ r'"
    using uint32_bounds(2) [of v] by (simp add: encodable_list_def counted_def)
next
  assume a: "encodable_list bs \<and> r = counted bs @ r'"
  then have "uint (uint32 (len bs)) = len bs" by (simp add: encodable_list_def)
  then have "nat (uint (uint32 (len bs))) = length bs" by (simp only: nat_int)
  with a show "get_counted r = Some (bs, r')"
    by (simp add: get_counted_def counted_def encodable_list_def)
qed

text \<open>
  The check of the count against the bytes left never refuses what the loop would accept: each
  block takes four bytes at least.
\<close>

lemma count_check:
  "n > (len r) div 4 \<Longrightarrow> get_blocks (nat n) r = None"
  using get_blocks_length [of "nat n" r] by (cases "get_blocks (nat n) r") fastforce+

definition read_counted :: "bytes \<Rightarrow> int \<Rightarrow> bytes list result" where
  "read_counted p pos =
     (if len p - pos < 4 then fail_with ErrTruncated
      else obind (obind (slice p pos (pos + 4)) Uint32) (\<lambda>v.
      if uint v < 0 \<or> uint v > (len p - (pos + 4)) div 4 then fail_with ErrTruncated
      else decode_blocks p (nat (uint v)) (pos + 4) []))"

lemma read_counted_eq:
  assumes p: "p = pre @ r" and pos: "pos = len pre"
  shows "read_counted p pos = (case get_counted r of None \<Rightarrow> fail_with ErrTruncated | Some (bs, r') \<Rightarrow> Ok bs)"
proof (cases "length r < 4")
  case True
  then have "(Uint32 r) = Panic"
    by (cases r rule: Uint32.cases) auto
  with True show ?thesis by (simp add: p pos read_counted_def get_counted_def)
next
  case False
  then obtain v where v: "Uint32 r = (Ok v)"
    using Uint32_total [of r] by auto
  then obtain rest where r: "r = le32 v @ rest" by (auto simp: Uint32_eq_Ok)
  have "decode_blocks p (nat (uint v)) (pos + 4) [] =
      (case get_blocks (nat (uint v)) rest of
         None \<Rightarrow> fail_with ErrTruncated | Some (bs, r') \<Rightarrow> Ok bs)"
    using decode_blocks_eq [of "pre @ le32 v" rest "nat (uint v)" "[]"]
    by (simp add: r p pos add.commute cong: option.case_cong prod.case_cong)
  moreover have "get_counted r = get_blocks (nat (uint v)) rest"
    by (simp add: get_counted_def r)
  ultimately show ?thesis
    using False count_check [of rest "uint v"] uint32_bounds(1) [of v] by (auto simp: r p pos read_counted_def)
qed

section \<open>What the encoders write and the decoders accept\<close>

lemma append_messages_eq: "append_messages b ps = b @ blocks ps"
  by (induction ps arbitrary: b) (auto simp: block_def)

lemma append_names_eq: "append_names b ns = b @ blocks ns"
  by (induction ns arbitrary: b) (auto simp: block_def putString_def)

lemma Encode_eqs [wire_simps]:
  "EncodePublish topic payload = block topic @ block payload"
  "EncodeMessage offset payload = le64 offset @ block payload"
  "EncodePublishBatch topic payloads = block topic @ counted payloads"
  "EncodeTopics names = counted names"
  "EncodeError c msg = le16 c @ block msg"
  by (simp_all add: EncodePublish_def EncodeMessage_def EncodePublishBatch_def EncodeTopics_def
      EncodeError_def putString_def block_def counted_def append_messages_eq append_names_eq)

lemma DecodeTopics_eq:
  "DecodeTopics p =
     (case get_counted p of None \<Rightarrow> fail_with ErrTruncated | Some (bs, r) \<Rightarrow> Ok bs)"
proof -
  have "DecodeTopics p = read_counted p 0"
    by (simp add: DecodeTopics_def read_counted_def Let_def cong: if_cong)
  then show ?thesis by (simp add: read_counted_eq [of p "[]" p])
qed

lemma DecodePublishBatch_eq:
  "DecodePublishBatch p =
     (case get_block p of
        None \<Rightarrow> fail_with ErrTruncated
      | Some (topic, r) \<Rightarrow> (case get_counted r of
            None \<Rightarrow> fail_with ErrTruncated
          | Some (payloads, r') \<Rightarrow> Ok (topic, payloads)))"
proof -
  have eq: "DecodePublishBatch p = obind (read_block p 0) (\<lambda>(topic, pos).
      obind (read_counted p pos) (\<lambda>payloads. Ok (topic, payloads)))"
    by (simp add: DecodePublishBatch_def read_block_def read_counted_def Let_def obind_assoc
        obind_if cong: if_cong)
  show ?thesis
  proof (cases "get_block p")
    case None
    then show ?thesis by (simp add: eq read_block_0)
  next
    case (Some tr)
    then obtain topic r where tr: "tr = (topic, r)" "p = block topic @ r"
      by (cases tr) (auto simp: get_block_eq_Some)
    show ?thesis
      using Some tr(1) read_counted_eq [OF tr(2) refl]
      by (simp add: eq read_block_0 del: length_block split: option.split)
  qed
qed

lemma DecodePublish_eq_Ok:
  "DecodePublish p = Ok (topic, payload) \<longleftrightarrow>
     encodable topic \<and> encodable payload \<and> (\<exists>rest. p = EncodePublish topic payload @ rest)"
  by (auto simp: DecodePublish_eq Encode_eqs get_block_eq_Some block_append_inject
      split: option.splits)

lemma DecodePublishBatch_eq_Ok:
  "DecodePublishBatch p = Ok (topic, payloads) \<longleftrightarrow>
     encodable topic \<and> encodable_list payloads \<and>
     (\<exists>rest. p = EncodePublishBatch topic payloads @ rest)"
proof
  show "DecodePublishBatch p = Ok (topic, payloads) \<Longrightarrow> encodable topic \<and> encodable_list payloads \<and>
     (\<exists>rest. p = EncodePublishBatch topic payloads @ rest)"
    by (auto simp: DecodePublishBatch_eq Encode_eqs get_block_eq_Some get_counted_eq_Some
        split: option.splits)
next
  assume a: "encodable topic \<and> encodable_list payloads \<and>
     (\<exists>rest. p = EncodePublishBatch topic payloads @ rest)"
  then obtain rest where p: "p = block topic @ counted payloads @ rest"
    by (auto simp: Encode_eqs)
  with a have "get_block p = Some (topic, counted payloads @ rest)"
    and "get_counted (counted payloads @ rest) = Some (payloads, rest)"
    by (simp_all add: get_counted_eq_Some)
  then show "DecodePublishBatch p = Ok (topic, payloads)"
    by (simp add: DecodePublishBatch_eq)
qed

lemma DecodeTopics_eq_Ok:
  "DecodeTopics p = Ok names \<longleftrightarrow>
     encodable_list names \<and> (\<exists>rest. p = EncodeTopics names @ rest)"
proof
  show "DecodeTopics p = Ok names \<Longrightarrow> encodable_list names \<and> (\<exists>rest. p = EncodeTopics names @ rest)"
    by (auto simp: DecodeTopics_eq Encode_eqs get_counted_eq_Some split: option.splits)
next
  assume "encodable_list names \<and> (\<exists>rest. p = EncodeTopics names @ rest)"
  then obtain rest where "get_counted p = Some (names, rest)"
    by (auto simp: Encode_eqs get_counted_eq_Some)
  then show "DecodeTopics p = Ok names" by (simp add: DecodeTopics_eq)
qed

text \<open>The fixed-size parts: an offset, and an offset and a count.\<close>

lemma fixed_parts:
  assumes "12 \<le> length p"
  obtains base v rest where "p = le64 base @ le32 v @ rest"
proof -
  obtain base where "Uint64 p = (Ok base)"
    using assms Uint64_total [of p] by auto
  then obtain r where r: "p = le64 base @ r" by (auto simp: Uint64_eq_Ok)
  with assms obtain v where "Uint32 r = (Ok v)"
    using Uint32_total [of r] by auto
  with r that show thesis by (auto simp: Uint32_eq_Ok)
qed

lemma DecodeMessage_eq:
  "DecodeMessage p =
     (if length p < 12 then fail_with ErrTruncated
      else obind (Uint64 p) (\<lambda>offset.
      case get_block (drop 8 p) of
        None \<Rightarrow> fail_with ErrTruncated
      | Some (payload, r) \<Rightarrow> Ok (offset, payload)))"
proof (cases "length p < 12")
  case False
  then obtain base v rest where p: "p = le64 base @ le32 v @ rest"
    using fixed_parts [of p] by auto
  have "DecodeMessage p = obind (read_block p (len (le64 base))) (\<lambda>(m, pos). Ok (base, m))"
    by (simp add: p DecodeMessage_def read_block_def Let_def obind_assoc obind_if add.commute
        cong: if_cong)
  also have "\<dots> = (case get_block (drop 8 p) of
        None \<Rightarrow> fail_with ErrTruncated | Some (payload, r) \<Rightarrow> Ok (base, payload))"
    unfolding p read_block_eq by (simp split: option.split)
  finally show ?thesis using False by (simp add: p)
qed (simp add: DecodeMessage_def)

lemma DecodeMessage_eq_Ok:
  "DecodeMessage p = Ok (offset, payload) \<longleftrightarrow>
     encodable payload \<and> (\<exists>rest. p = EncodeMessage offset payload @ rest)"
proof
  show "DecodeMessage p = Ok (offset, payload) \<Longrightarrow>
      encodable payload \<and> (\<exists>rest. p = EncodeMessage offset payload @ rest)"
    by (auto simp: DecodeMessage_eq Encode_eqs Uint64_eq_Ok get_block_eq_Some split: option.splits if_splits)
qed (auto simp: DecodeMessage_eq Encode_eqs)

lemma UnmarshalOffset_eq_Ok:
  "UnmarshalOffset b = Ok off \<longleftrightarrow> (\<exists>rest. b = MarshalOffset off @ rest)"
  by (auto simp: UnmarshalOffset_def MarshalOffset_def Uint64_eq_Ok append_eq_take_drop min_def)

lemma DecodePublishAck_eq_Ok:
  "DecodePublishAck b = Ok (base, count) \<longleftrightarrow>
     0 \<le> count \<and> count < 2 ^ 32 \<and> (\<exists>rest. b = EncodePublishAck base count @ rest)"
proof
  assume d: "DecodePublishAck b = Ok (base, count)"
  then have "12 \<le> length b" by (auto simp: DecodePublishAck_def split: if_splits)
  then obtain base' v rest where b: "b = le64 base' @ le32 v @ rest" by (rule fixed_parts)
  with d have "base' = base" "count = uint v" by (auto simp: DecodePublishAck_def)
  with b uint32_bounds [of v] show "0 \<le> count \<and> count < 2 ^ 32 \<and> (\<exists>rest. b = EncodePublishAck base count @ rest)"
    by (auto simp: EncodePublishAck_def)
next
  assume "0 \<le> count \<and> count < 2 ^ 32 \<and> (\<exists>rest. b = EncodePublishAck base count @ rest)"
  then show "DecodePublishAck b = Ok (base, count)"
    by (auto simp: DecodePublishAck_def EncodePublishAck_def)
qed

text \<open>\<open>DecodeError\<close> reads through a \<open>bytes.Reader\<close>.\<close>

lemma DecodeError_eq:
  "DecodeError p =
     (if length p < 2 then fail_with ErrTruncated
      else case get_block (drop 2 p) of
        None \<Rightarrow> fail_with ErrTruncated
      | Some (msg, r) \<Rightarrow> obind (Uint16 p) (\<lambda>c. Ok (c, msg)))"
proof (cases "length p < 6")
  case True
  have "p = take 2 p @ drop 2 p" by simp
  with True show ?thesis
    using read_or_truncated_short [of p 2] read_or_truncated_short [of "drop 2 p" 4]
      read_or_truncated_bytes [of "take 2 p" 2 "stream_of (drop 2 p)"]
    by (cases "length p < 2")
      (auto simp: DecodeError_def getUint32_def get_block_None_short simp flip: map_append)
next
  case False
  then obtain c where c: "Uint16 p = (Ok c)"
    using Uint16_total [of p] by auto
  then obtain q where q: "p = le16 c @ q" by (auto simp: Uint16_eq_Ok)
  with False obtain v where "Uint32 q = (Ok v)"
    using Uint32_total [of q] by auto
  then obtain r where r: "q = le32 v @ r" by (auto simp: Uint32_eq_Ok)
  have n: "uint v \<le> len r \<longleftrightarrow> unat v \<le> length r"
    by (metis of_nat_le_iff uint_nat)
  have "read_or_truncated (unat v) (stream_of r) =
      (Ok (take (unat v) r), stream_of (drop (unat v) r))" if "unat v \<le> length r"
    using that read_or_truncated_bytes [of "take (unat v) r" "unat v" "stream_of (drop (unat v) r)"]
    by (simp flip: map_append)
  with n show ?thesis
    by (cases "unat v \<le> length r")
      (auto simp: DecodeError_def getUint32_def get_block_def Let_def q r)
qed

lemma DecodeError_eq_Ok:
  "DecodeError p = Ok (c, msg) \<longleftrightarrow>
     encodable msg \<and> (\<exists>rest. p = EncodeError c msg @ rest)"
proof
  show "DecodeError p = Ok (c, msg) \<Longrightarrow> encodable msg \<and> (\<exists>rest. p = EncodeError c msg @ rest)"
    by (auto simp: DecodeError_eq Encode_eqs Uint16_eq_Ok get_block_eq_Some
        split: option.splits if_splits)
qed (auto simp: DecodeError_eq Encode_eqs)

section \<open>Errors of the decoders\<close>

text \<open>A decoder that returns a value or ErrTruncated on every input; in particular no panic.\<close>

definition truncated_or_ok :: "'a result \<Rightarrow> bool" where
  "truncated_or_ok r \<longleftrightarrow> r \<noteq> Panic \<and> (\<forall>e. r = Fail e \<longrightarrow> e = Sentinel ErrTruncated)"

lemma truncated_or_ok_simps [simp]:
  "truncated_or_ok (Ok a)" "truncated_or_ok (fail_with ErrTruncated)"
  by (simp_all add: truncated_or_ok_def)

lemma decoders_truncated_or_ok:
  "truncated_or_ok (DecodePublish p)"
  "truncated_or_ok (DecodePublishBatch p)"
  "truncated_or_ok (DecodeTopics p)"
  "truncated_or_ok (DecodeMessage p)"
  "truncated_or_ok (DecodeError p)"
  "truncated_or_ok (UnmarshalOffset p)"
  "truncated_or_ok (DecodePublishAck p)"
proof -
  show "truncated_or_ok (DecodePublish p)"
    by (simp add: DecodePublish_eq split: option.split)
  show "truncated_or_ok (DecodePublishBatch p)"
    by (simp add: DecodePublishBatch_eq split: option.split)
  show "truncated_or_ok (DecodeTopics p)"
    by (simp add: DecodeTopics_eq split: option.split)
  show "truncated_or_ok (DecodeMessage p)"
    using Uint64_total [of p]
    by (auto simp: DecodeMessage_eq split: option.split)
  show "truncated_or_ok (DecodeError p)"
    using Uint16_total [of p]
    by (auto simp: DecodeError_eq split: option.split)
  show "truncated_or_ok (UnmarshalOffset p)"
    using Uint64_total [of "take 8 p"]
    by (auto simp: UnmarshalOffset_def)
  show "truncated_or_ok (DecodePublishAck p)"
  proof (cases "length p < 12")
    case False
    then obtain base v rest where "p = le64 base @ le32 v @ rest"
      using fixed_parts [of p] by auto
    then show ?thesis by (simp add: DecodePublishAck_def)
  qed (simp add: DecodePublishAck_def)
qed

end
