(* ===== verification/Go_Conn.thy ===== *)
theory Go_Conn
  imports Go_IO
begin

text \<open>
  The two writers the program uses: the sending side of a \<open>net.Conn\<close>, and a \<open>bufio.Writer\<close> over
  it. Both keep the contract \<open>io_writer\<close>.

  A connection takes every byte until its fault (a write deadline, a reset peer), which lets a
  number of bytes through and then fails every write. A \<open>bufio.Writer\<close> holds up to
  4096 bytes back until they are flushed; its first error sticks.
\<close>

section \<open>Connections\<close>

record conn_out =
  co_sent :: bytes
  co_fault :: "(nat \<times> sentinel) option"

definition new_conn_out :: "(nat \<times> sentinel) option \<Rightarrow> conn_out" where
  "new_conn_out fault = \<lparr>co_sent = [], co_fault = fault\<rparr>"

definition conn_write :: "bytes \<Rightarrow> (conn_out, gerror, unit) go" where
  "conn_write b c =
     (case co_fault c of
        None \<Rightarrow> (Ok (), c\<lparr>co_sent := co_sent c @ b\<rparr>)
      | Some (room, e) \<Rightarrow>
          (if length b \<le> room
           then (Ok (), c\<lparr>co_sent := co_sent c @ b, co_fault := Some (room - length b, e)\<rparr>)
           else (fail_with e, c\<lparr>co_sent := co_sent c @ take room b, co_fault := Some (0, e)\<rparr>)))"

interpretation conn: io_writer conn_write co_sent
  by unfold_locales (auto simp: conn_write_def split: option.splits prod.splits if_splits)

lemma conn_write_not_Panic [simp]: "conn_write b c \<noteq> (Panic, c')"
  using conn.wr_no_panic [of b c] by auto

lemma conn_write_sound: "co_fault c = None \<Longrightarrow> conn_write b c = (Ok (), c\<lparr>co_sent := co_sent c @ b\<rparr>)"
  by (simp add: conn_write_def)

section \<open>\<open>bufio.Writer\<close>\<close>

record bufw =
  bw_conn :: conn_out
  bw_buf :: bytes
  bw_err :: "gerror option"

definition new_bufw :: "conn_out \<Rightarrow> bufw" where
  "new_bufw c = \<lparr>bw_conn = c, bw_buf = [], bw_err = None\<rparr>"

definition bufio_size :: nat where
  "bufio_size = 4096"

definition bufio_flush :: "(bufw, gerror, unit) go" where
  "bufio_flush b =
     (case bw_err b of
        Some e \<Rightarrow> (Fail e, b)
      | None \<Rightarrow>
          (if bw_buf b = [] then (Ok (), b)
           else (case conn_write (bw_buf b) (bw_conn b) of
               (Ok _, c) \<Rightarrow> (Ok (), b\<lparr>bw_conn := c, bw_buf := []\<rparr>)
             | (Fail e, c) \<Rightarrow>
                 (Fail e, b\<lparr>bw_conn := c, bw_err := Some e,
                    bw_buf := drop (length (co_sent c) - length (co_sent (bw_conn b))) (bw_buf b)\<rparr>)
             | (Panic, c) \<Rightarrow> (Panic, b))))"

lemma bufio_flush_cases:
  obtains (ok) b' where "bufio_flush b = (Ok (), b')" "bw_err b = None" "bw_err b' = None"
      "bw_buf b' = []" "co_sent (bw_conn b') = co_sent (bw_conn b) @ bw_buf b"
  | (fail) e b' where "bufio_flush b = (Fail e, b')" "bw_err b' = Some e"
      "co_sent (bw_conn b') @ bw_buf b' = co_sent (bw_conn b) @ bw_buf b"
proof (cases "bw_err b = None \<and> bw_buf b \<noteq> []")
  case True
  obtain r c where w: "conn_write (bw_buf b) (bw_conn b) = (r, c)" by force
  show thesis
  proof (cases r)
    case (Ok u)
    with w True conn.wr_ok show thesis
      by (intro ok [of "b\<lparr>bw_conn := c, bw_buf := []\<rparr>"]) (auto simp: bufio_flush_def)
  next
    case (Fail e)
    with w conn.wr_fail obtain k where "co_sent c = co_sent (bw_conn b) @ take k (bw_buf b)"
      by blast
    with w Fail True show thesis
      by (auto simp: bufio_flush_def min_def intro!: fail)
  qed (use w in simp)
next
  case False
  then show thesis
    by (cases "bw_err b") (auto simp: bufio_flush_def intro: ok fail)
qed

lemma bufio_flush_progress:
  "bw_err (snd (bufio_flush b)) = None \<Longrightarrow> bw_buf (snd (bufio_flush b)) = []"
  by (cases b rule: bufio_flush_cases) auto

function bufio_write :: "bytes \<Rightarrow> (bufw, gerror, unit) go" where
  "bufio_write p b =
     (if length p > bufio_size - length (bw_buf b) \<and> bw_err b = None
      then if bw_buf b = []
        then (case conn_write p (bw_conn b) of
            (Ok _, c) \<Rightarrow> bufio_write [] (b\<lparr>bw_conn := c\<rparr>)
          | (Fail e, c) \<Rightarrow> (Fail e, b\<lparr>bw_conn := c, bw_err := Some e\<rparr>)
          | (Panic, c) \<Rightarrow> (Panic, b))
        else let n = bufio_size - length (bw_buf b) in
          bufio_write (drop n p) (snd (bufio_flush (b\<lparr>bw_buf := bw_buf b @ take n p\<rparr>)))
      else (case bw_err b of
          Some e \<Rightarrow> (Fail e, b)
        | None \<Rightarrow> (Ok (), b\<lparr>bw_buf := bw_buf b @ p\<rparr>)))"
  by pat_completeness auto

termination
proof (relation "measures [\<lambda>(p, b). if bw_err b = None then 1 else (0 :: nat), \<lambda>(p, b). length p,
      \<lambda>(p, b). length (bw_buf b)]", goal_cases)
  case (3 p b n)
  let ?b = "b\<lparr>bw_buf := bw_buf b @ take n p\<rparr>"
  show ?case
    using 3 bufio_flush_progress [of ?b]
    by (cases "bw_err (snd (bufio_flush ?b))") (auto simp: Let_def)
qed (auto simp: bufio_size_def)

declare bufio_write.simps [simp del]

text \<open>Everything written so far: what the connection has taken and what is held back.\<close>

definition bufw_sent :: "bufw \<Rightarrow> bytes" where
  "bufw_sent b = co_sent (bw_conn b) @ bw_buf b"

lemma bufio_write_spec:
  "case bufio_write p b of
     (Ok u, b') \<Rightarrow> bufw_sent b' = bufw_sent b @ p \<and> bw_err b' = None
   | (Fail e, b') \<Rightarrow> (\<exists>k. bufw_sent b' = bufw_sent b @ take k p) \<and> bw_err b' = Some e
   | (Panic, b') \<Rightarrow> False"
proof (induction p b rule: bufio_write.induct)
  case (1 p b)
  show ?case
  proof (cases "length p > bufio_size - length (bw_buf b) \<and> bw_err b = None")
    case False
    then show ?thesis
      by (cases "bw_err b")
        (auto simp: bufio_write.simps [of p b] bufw_sent_def intro: exI [of _ 0])
  next
    case True
    show ?thesis
    proof (cases "bw_buf b = []")
      case True
      note nil = True
      obtain r c where w: "conn_write p (bw_conn b) = (r, c)" by force
      show ?thesis
      proof (cases r)
        case (Ok u)
        then have "co_sent c = co_sent (bw_conn b) @ p" using w conn.wr_ok by blast
        then show ?thesis
          using \<open>length p > _ \<and> _\<close> nil w Ok
          by (simp add: bufio_write.simps [of p b] bufio_write.simps [of "[]"] bufw_sent_def)
      next
        case (Fail e)
        then obtain k where "co_sent c = co_sent (bw_conn b) @ take k p"
          using w conn.wr_fail by blast
        then show ?thesis
          using \<open>length p > _ \<and> _\<close> nil w Fail
          by (auto simp: bufio_write.simps [of p b] bufw_sent_def)
      qed (use w in simp)
    next
      case False
      define n where "n = bufio_size - length (bw_buf b)"
      define b1 where "b1 = b\<lparr>bw_buf := bw_buf b @ take n p\<rparr>"
      let ?b2 = "snd (bufio_flush b1)"
      have step: "bufio_write p b = bufio_write (drop n p) ?b2"
        using True False by (simp add: bufio_write.simps [of p b] n_def b1_def Let_def)
      have sent: "bufw_sent ?b2 = bufw_sent b @ take n p"
        by (cases b1 rule: bufio_flush_cases) (simp_all add: bufw_sent_def b1_def)
      show ?thesis
        using "1.IH"(2) [OF True False, of n] sent
        by (auto simp: step n_def [symmetric] b1_def [symmetric] split: prod.splits outcome.splits)
           (metis append.assoc append_take_drop_id take_add)
    qed
  qed
qed

interpretation bufio: io_writer bufio_write bufw_sent
proof
  fix p b u b' e
  show "bufio_write p b = (Ok u, b') \<Longrightarrow> bufw_sent b' = bufw_sent b @ p"
    using bufio_write_spec [where p = p and b = b] by simp
  show "bufio_write p b = (Fail e, b') \<Longrightarrow> \<exists>k. bufw_sent b' = bufw_sent b @ take k p"
    using bufio_write_spec [where p = p and b = b] by simp
  show "fst (bufio_write p b) \<noteq> Panic"
    using bufio_write_spec [where p = p and b = b] by (auto split: prod.splits)
qed

text \<open>After a flush that succeeds, all that was written is on the connection.\<close>

lemma bufio_flush_Ok:
  "bufio_flush b = (Ok u, b') \<Longrightarrow> co_sent (bw_conn b') = bufw_sent b \<and> bw_buf b' = []"
  by (cases b rule: bufio_flush_cases) (auto simp: bufw_sent_def)

lemma bufio_flush_sent: "bufw_sent (snd (bufio_flush b)) = bufw_sent b"
  by (cases b rule: bufio_flush_cases) (auto simp: bufw_sent_def)

lemma bufio_flush_not_Panic [simp]: "bufio_flush b \<noteq> (Panic, b')"
  by (cases b rule: bufio_flush_cases) auto

text \<open>A writer over a connection without faults takes and delivers everything.\<close>

definition healthy :: "bufw \<Rightarrow> bool" where
  "healthy b \<longleftrightarrow> bw_err b = None \<and> co_fault (bw_conn b) = None"

lemma bufio_flush_healthy:
  assumes "healthy b"
  shows "\<exists>b'. bufio_flush b = (Ok (), b') \<and> healthy b'"
  using assms by (auto simp: healthy_def bufio_flush_def conn_write_def)

lemma bufio_write_healthy: "healthy b \<Longrightarrow> \<exists>b'. bufio_write p b = (Ok (), b') \<and> healthy b'"
proof (induction p b rule: bufio_write.induct)
  case (1 p b)
  have h: "bw_err b = None" "co_fault (bw_conn b) = None" using "1.prems" by (auto simp: healthy_def)
  show ?case
  proof (cases "length p > bufio_size - length (bw_buf b)")
    case False
    with h show ?thesis by (simp add: bufio_write.simps [of p b] healthy_def)
  next
    case True
    show ?thesis
    proof (cases "bw_buf b = []")
      case nil: True
      with h True show ?thesis
        by (simp add: bufio_write.simps [of p b] bufio_write.simps [of "[]"] conn_write_def healthy_def)
    next
      case False
      let ?n = "bufio_size - length (bw_buf b)"
      let ?b1 = "b\<lparr>bw_buf := bw_buf b @ take ?n p\<rparr>"
      have "healthy ?b1" using h by (simp add: healthy_def)
      then have "healthy (snd (bufio_flush ?b1))" using bufio_flush_healthy by fastforce
      with "1.IH"(2) [of ?n] True False h show ?thesis
        by (simp add: bufio_write.simps [of p b] Let_def)
    qed
  qed
qed

lemma succeeds_bufio: "succeeds healthy (bufio_write p)" "succeeds healthy bufio_flush"
  using bufio_write_healthy bufio_flush_healthy by (simp_all add: succeeds_def)

lemma succeeds_conn: "succeeds (\<lambda>c. co_fault c = None) (conn_write b)"
  by (simp add: succeeds_def conn_write_def)

end
