(* ===== verification/Protocol_Write.thy ===== *)
theory Protocol_Write
  imports Protocol_Codec Go_Conn
begin

text \<open>
  The write functions of \<open>protocol/frame.go\<close> against the encoders of \<open>protocol/codec.go\<close>: each
  writes, in pieces and without building the frame, the bytes of one frame whose payload is what
  the encoder returns. The lemmas hold for every \<open>io.Writer\<close> that keeps the contract
  \<open>io_writer\<close>; the batch of pushed messages does not depend on what the recycled
  headers hold.
\<close>

section \<open>What is refused before anything is written\<close>

lemma glift_bind [simp]: "gbind (glift (Ok a)) f = f a" "gbind (glift (Fail e)) f = gfail e"
  by (auto simp: gbind_def fun_eq_iff)

lemma batch_body_len_eq:
  "batch_body_len ps n =
     (if \<exists>p\<in>set ps. len p > MaxMessage then fail_with ErrTooLarge else Ok (n + len (blocks ps)))"
  by (induction ps arbitrary: n) auto

lemma message_in_blocks: "p \<in> set ps \<Longrightarrow> len p + 4 \<le> len (blocks ps)"
  by (induction ps) auto

lemma WritePublishBatch_refused:
  assumes "len (EncodePublishBatch topic payloads) > MaxPayload"
  shows "WritePublishBatch wr topic payloads w = (fail_with ErrTooLarge, w)"
  using assms by (simp add: WritePublishBatch_def batch_body_len_eq Encode_eqs counted_def)

lemma WritePublishBatch_sizes:
  assumes "len (EncodePublishBatch topic payloads) \<le> MaxPayload"
  shows "batch_body_len payloads (4 + len topic + 4) = Ok (len (EncodePublishBatch topic payloads))"
proof -
  have "len p \<le> MaxMessage" if "p \<in> set payloads" for p
    using assms message_in_blocks [OF that] by (simp add: Encode_eqs counted_def MaxMessage_def)
  then show ?thesis
    by (auto simp: batch_body_len_eq Encode_eqs counted_def not_less [symmetric])
qed

section \<open>What is written\<close>

lemma EncodePublish_pieces:
  "EncodePublish topic payload =
     le32 (uint32 (len topic)) @ topic @ le32 (uint32 (len payload)) @ payload"
  by (simp add: Encode_eqs block_def)

lemma EncodeMessage_pieces:
  "EncodeMessage offset payload = (le64 offset @ le32 (uint32 (len payload))) @ payload"
  by (simp add: Encode_eqs block_def)

lemma EncodePublishBatch_pieces:
  "EncodePublishBatch topic payloads =
     le32 (uint32 (len topic)) @ topic @ le32 (uint32 (len payloads)) @ blocks payloads"
  by (simp add: Encode_eqs block_def counted_def)

text \<open>A recycled header is overwritten completely.\<close>

lemma fill_message_header_eq:
  assumes "length h = 20"
  shows "fill_message_header h off p =
     Ok (header_bytes OpMessage (len (EncodeMessage off p)) @ le64 off @ le32 (uint32 (len p)))"
proof -
  obtain h0 h1 h2 h3 r where h: "h = h0 # h1 # h2 # h3 # r" and r: "length r = 16"
    using assms by (auto simp: length_Suc_conv numeral_eq_Suc)
  then show ?thesis
    by (simp add: fill_message_header_def put_at_def set_index_def header_bytes_def
        Encode_eqs le16_def)
qed

section \<open>Batches of pushed messages\<close>

text \<open>
  The buffers \<open>WriteMessageBatch\<close> hands to \<open>net.Buffers\<close>, as a function of the offsets and
  payloads alone, and the frames they make up. A pool is well formed when its headers have the
  20 bytes they were made with.
\<close>

definition message_frame :: "i64 \<Rightarrow> bytes \<Rightarrow> bytes" where
  "message_frame off p = frame_bytes OpMessage (EncodeMessage off p)"

definition message_header :: "i64 \<Rightarrow> bytes \<Rightarrow> bytes" where
  "message_header off p =
     header_bytes OpMessage (len (EncodeMessage off p)) @ le64 off @ le32 (uint32 (len p))"

definition message_bufs :: "i64 list \<Rightarrow> bytes list \<Rightarrow> bytes list" where
  "message_bufs offs ps = concat (map2 (\<lambda>off p. [message_header off p, p]) offs ps)"

definition pool_ok :: "header_pool \<Rightarrow> bool" where
  "pool_ok pool \<longleftrightarrow> (\<forall>h\<in>set pool. length h = 20)"

lemma pool_ok_simps [simp]:
  "pool_ok []"
  "pool_ok (h # hs) \<longleftrightarrow> length h = 20 \<and> pool_ok hs"
  "pool_ok (hs @ hs') \<longleftrightarrow> pool_ok hs \<and> pool_ok hs'"
  by (auto simp: pool_ok_def)

lemma length_message_header [simp]: "length (message_header off p) = 20"
  by (simp add: message_header_def)

lemma message_frame_eq: "message_frame off p = message_header off p @ p"
  by (simp add: message_frame_def message_header_def frame_bytes_def Encode_eqs block_def)

lemma concat_message_bufs:
  "concat (message_bufs offs ps) = concat (map2 message_frame offs ps)"
  by (induction offs ps rule: list_induct2') (auto simp: message_bufs_def message_frame_eq)

lemma pool_get_ok: "pool_ok pool \<Longrightarrow> \<exists>h pool'. pool_get pool = (Ok h, pool') \<and> length h = 20 \<and> pool_ok pool'"
  by (cases pool) auto

lemma index_at_append: "i = len pre \<Longrightarrow> index_at (pre @ p # ps) i = Ok p"
  by (simp add: index_at_def)

lemma batch_bufs_eq:
  assumes "length offs = length ps" and "pool_ok pool" and "pool_ok hdrs"
  shows "if \<exists>p\<in>set ps. len p > MaxMessage
    then \<exists>pool'. batch_bufs offs (pre @ ps) (len pre) bufs hdrs pool = (fail_with ErrTooLarge, pool')
           \<and> pool_ok pool'
    else \<exists>hdrs' pool'. batch_bufs offs (pre @ ps) (len pre) bufs hdrs pool =
           (Ok (bufs @ message_bufs offs ps, hdrs'), pool') \<and> pool_ok hdrs' \<and> pool_ok pool'"
  using assms
proof (induction offs ps arbitrary: pre bufs hdrs pool rule: list_induct2)
  case Nil
  then show ?case by (simp add: message_bufs_def)
next
  case (Cons off offs p ps)
  obtain h pool1 where get: "pool_get pool = (Ok h, pool1)" "length h = 20" "pool_ok pool1"
    using pool_get_ok [OF Cons.prems(1)] by blast
  let ?h = "message_header off p"
  have step: "batch_bufs (off # offs) (pre @ p # ps) (len pre) bufs hdrs pool =
      (if len p > MaxMessage then (fail_with ErrTooLarge, hdrs @ pool)
       else batch_bufs offs ((pre @ [p]) @ ps) (len (pre @ [p])) (bufs @ [?h, p]) (hdrs @ [?h]) pool1)"
    using get by (simp add: index_at_append fill_message_header_eq message_header_def gbind_def add.commute)
  show ?case
  proof (cases "len p > MaxMessage")
    case True
    then show ?thesis using step Cons.prems by auto
  next
    case False
    have "message_bufs (off # offs) (p # ps) = [?h, p] @ message_bufs offs ps"
      by (simp add: message_bufs_def)
    then show ?thesis
      using False Cons.IH [of pool1 "hdrs @ [?h]" "pre @ [p]" "bufs @ [?h, p]"] get Cons.prems
      unfolding step by (cases "\<exists>p\<in>set ps. len p > MaxMessage") auto
  qed
qed

text \<open>
  So the call is a function of its offsets and payloads: nothing a recycled header held
  reaches the connection, and the pool stays well formed.
\<close>

lemma WriteMessageBatch_eq:
  assumes "length offs = length ps" and "pool_ok pool"
  shows "\<exists>pool'. pool_ok pool' \<and> WriteMessageBatch wr offs ps (w, pool) =
    (if \<exists>p\<in>set ps. len p > MaxMessage then (fail_with ErrTooLarge, (w, pool'))
     else case write_buffers wr (message_bufs offs ps) w of (r, w') \<Rightarrow> (r, (w', pool')))"
proof (cases "offs = []")
  case True
  with assms show ?thesis by (auto simp: WriteMessageBatch_def message_bufs_def)
next
  case False
  with assms batch_bufs_eq [of offs ps pool "[]" "[]" "[]"] show ?thesis
    by (auto simp: WriteMessageBatch_def split: if_splits prod.split)
qed

context io_writer
begin

lemma emits_glift: "emits (gbind (glift (Ok a)) f) bs \<longleftrightarrow> emits (f a) bs"
  by simp

lemma emits_header:
  "n \<le> MaxPayload \<Longrightarrow> emits (WriteFrameHeader wr op n) (header_bytes op n)"
  by (simp add: WriteFrameHeader_eq emits_wr)

lemma emits_WriteFrame:
  "len p \<le> MaxPayload \<Longrightarrow> emits (WriteFrame wr op p) (frame_bytes op p)"
  by (simp add: WriteFrame_eq emits_wr)

lemma emits_writePublishOp:
  assumes "len (EncodePublish topic payload) \<le> MaxPayload"
  shows "emits (writePublishOp wr op topic payload) (frame_bytes op (EncodePublish topic payload))"
proof -
  have "4 + len topic + 4 + len payload = len (EncodePublish topic payload)"
    by (simp add: EncodePublish_pieces)
  with assms show ?thesis
    unfolding writePublishOp_def frame_bytes_def
    by (simp only: Let_def not_less if_False not_le [symmetric] EncodePublish_pieces)
      (simp add: emits_bind emits_wr emits_header)
qed

lemma emits_write_messages: "emits (write_messages wr ps) (blocks ps)"
proof (induction ps)
  case (Cons p ps)
  have "emits (write_messages wr (p # ps)) (le32 (uint32 (len p)) @ p @ blocks ps)"
    using Cons by (simp add: emits_bind emits_wr)
  then show ?case by (simp add: block_def)
qed (simp add: emits_return)

lemma emits_WritePublishBatch:
  assumes "len (EncodePublishBatch topic payloads) \<le> MaxPayload"
  shows "emits (WritePublishBatch wr topic payloads)
    (frame_bytes OpPublishBatch (EncodePublishBatch topic payloads))"
proof -
  let ?n = "len (EncodePublishBatch topic payloads)"
  have "WritePublishBatch wr topic payloads =
      gbind (WriteFrameHeader wr OpPublishBatch ?n) (\<lambda>_.
      gbind (wr (le32 (uint32 (len topic)))) (\<lambda>_.
      gbind (wr topic) (\<lambda>_.
      gbind (wr (le32 (uint32 (len payloads)))) (\<lambda>_.
      write_messages wr payloads))))"
    using assms unfolding WritePublishBatch_def WritePublishBatch_sizes [OF assms] by simp
  moreover have "frame_bytes OpPublishBatch (EncodePublishBatch topic payloads) =
      header_bytes OpPublishBatch ?n @ le32 (uint32 (len topic)) @ topic @
      le32 (uint32 (len payloads)) @ blocks payloads"
    by (simp only: frame_bytes_def EncodePublishBatch_pieces)
  ultimately show ?thesis
    using assms by (simp only:) (simp add: emits_bind emits_wr emits_header emits_write_messages)
qed

lemma emits_WriteMessage:
  assumes "len payload \<le> MaxMessage"
  shows "emits (WriteMessage wr offset payload) (frame_bytes OpMessage (EncodeMessage offset payload))"
proof -
  have n: "12 + len payload = len (EncodeMessage offset payload)"
    by (simp add: EncodeMessage_pieces)
  have meta: "obind (put_at (replicate 12 (0 :: byte)) 0 (le64 offset)) (\<lambda>meta.
      put_at meta 8 (le32 (uint32 (len payload)))) = Ok (le64 offset @ le32 (uint32 (len payload)))"
    by (simp add: put_at_def)
  have "WriteMessage wr offset payload =
      gbind (WriteFrameHeader wr OpMessage (len (EncodeMessage offset payload))) (\<lambda>_.
      gbind (wr (le64 offset @ le32 (uint32 (len payload)))) (\<lambda>_. wr payload))"
    using assms unfolding WriteMessage_def Let_def meta n by simp
  moreover have "frame_bytes OpMessage (EncodeMessage offset payload) =
      header_bytes OpMessage (len (EncodeMessage offset payload)) @
      (le64 offset @ le32 (uint32 (len payload))) @ payload"
    by (simp only: frame_bytes_def EncodeMessage_pieces append_assoc)
  moreover have "len (EncodeMessage offset payload) \<le> MaxPayload"
    using assms by (simp add: n [symmetric] MaxMessage_def)
  ultimately show ?thesis
    by (simp only:) (intro emits_bind emits_header emits_wr)
qed

lemma emits_write_buffers: "emits (write_buffers wr bs) (concat bs)"
  by (induction bs) (simp_all add: emits_return emits_bind emits_wr)

end

section \<open>Writes that succeed\<close>

text \<open>On a writer whose writes succeed, so do the frames that are not too large.\<close>

lemma succeeds_WriteFrame:
  assumes "\<And>b. succeeds P (wr b)" and "len p \<le> MaxPayload"
  shows "succeeds P (WriteFrame wr op p)"
  using assms by (simp add: WriteFrame_eq)

lemma succeeds_writePublishOp:
  assumes "\<And>b. succeeds P (wr b)" and "len (EncodePublish topic payload) \<le> MaxPayload"
  shows "succeeds P (writePublishOp wr op topic payload)"
  using assms by (simp add: writePublishOp_def Let_def EncodePublish_pieces WriteFrameHeader_eq succeeds_bind)

lemma succeeds_write_messages:
  assumes "\<And>b. succeeds P (wr b)"
  shows "succeeds P (write_messages wr ps)"
  by (induction ps) (simp_all add: assms succeeds_bind)

lemma succeeds_WritePublishBatch:
  assumes "\<And>b. succeeds P (wr b)" and "len (EncodePublishBatch topic payloads) \<le> MaxPayload"
  shows "succeeds P (WritePublishBatch wr topic payloads)"
  using assms unfolding WritePublishBatch_def WritePublishBatch_sizes [OF assms(2)]
  by (simp add: WriteFrameHeader_eq succeeds_bind succeeds_write_messages)

lemma succeeds_write_buffers:
  assumes "\<And>b. succeeds P (wr b)"
  shows "succeeds P (write_buffers wr bs)"
  by (induction bs) (simp_all add: assms succeeds_bind)

end
