(* ===== verification/Props_Protocol.thy ===== *)
theory Props_Protocol
  imports Protocol_Write
begin

unbundle bit_operations_syntax

text \<open>
  The properties of \<open>protocol/frame.go\<close> and \<open>protocol/codec.go\<close>: the reader accepts exactly what the
  encoder makes, no input makes a decoder panic, and the write functions put on their writer the
  frames of the encoders or nothing at all.
\<close>

section \<open>Frames\<close>

text \<open>
  C11: \<open>ReadFrame\<close> accepts a stream exactly when it starts with the encoding of a frame whose payload is
  within \<open>MaxPayload\<close>, returns that frame, and leaves the rest of the stream unread.
\<close>

theorem read_frame_accepts_encodings:
  "ReadFrame s = (Ok (op, p), s') \<longleftrightarrow>
     (\<exists>f. EncodeFrame op p = Ok f \<and> len p \<le> MaxPayload \<and> s = stream_of f @ s')"
  by (auto simp: EncodeFrame_eq ReadFrame_eq_Ok)

text \<open>
  The checks of a header, in the order the code makes them: magic, version, length; a header that
  passes them gives its opcode and the length in its last four bytes, little-endian.
\<close>

lemma header_checks_in_order:
  "parse_header [m0, m1, v, op, l0, l1, l2, l3] =
     (if [m0, m1] \<noteq> le16 Magic then fail_with ErrInvalidMagic
      else if v \<noteq> Version then fail_with ErrBadVersion
      else if uint l0 + 256 * uint l1 + 65536 * uint l2 + 16777216 * uint l3 > MaxPayload
      then fail_with ErrTooLarge
      else Ok (op, uint l0 + 256 * uint l1 + 65536 * uint l2 + 16777216 * uint l3))"
proof -
  have "[m0, m1] = le16 Magic \<longleftrightarrow> ucast m0 OR push_bit 8 (ucast m1) = Magic"
    using le_inject(1) [of "ucast m0 OR push_bit 8 (ucast m1)" Magic] by (simp add: le16_of_bytes)
  then show ?thesis by (simp add: parse_header_def Uint32_value)
qed

section \<open>Decoders\<close>

text \<open>
  C40: Each decoder succeeds exactly on the encodings of its results, with whatever follows them: a batch of
  messages, a published message, a pushed one, a list of topic names, an error, and the two
  acknowledgements; sizes and counts are those a \<open>uint32\<close> can hold.
\<close>

theorem decoders_iff:
  "(DecodePublishBatch p = Ok (topic, payloads) \<longleftrightarrow>
      encodable topic \<and> encodable_list payloads \<and> (\<exists>rest. p = EncodePublishBatch topic payloads @ rest)) \<and>
   (DecodePublish p = Ok (topic, payload) \<longleftrightarrow>
      encodable topic \<and> encodable payload \<and> (\<exists>rest. p = EncodePublish topic payload @ rest)) \<and>
   (DecodeMessage p = Ok (off, payload) \<longleftrightarrow>
      encodable payload \<and> (\<exists>rest. p = EncodeMessage off payload @ rest)) \<and>
   (DecodeTopics p = Ok names \<longleftrightarrow>
      encodable_list names \<and> (\<exists>rest. p = EncodeTopics names @ rest)) \<and>
   (DecodeError p = Ok (code, msg) \<longleftrightarrow>
      encodable msg \<and> (\<exists>rest. p = EncodeError code msg @ rest)) \<and>
   (UnmarshalOffset p = Ok off \<longleftrightarrow> (\<exists>rest. p = MarshalOffset off @ rest)) \<and>
   (DecodePublishAck p = Ok (off, n) \<longleftrightarrow>
      0 \<le> n \<and> n < 2 ^ 32 \<and> (\<exists>rest. p = EncodePublishAck off n @ rest))"
  by (simp only: DecodePublishBatch_eq_Ok DecodePublish_eq_Ok DecodeMessage_eq_Ok DecodeTopics_eq_Ok DecodeError_eq_Ok
      UnmarshalOffset_eq_Ok DecodePublishAck_eq_Ok simp_thms)

text \<open>
  C12: On every input, however malformed, each decoder returns a value or exactly ErrTruncated: no index
  is out of range, whatever lengths and counts the bytes claim.
\<close>

theorem decoders_never_panic:
  "truncated_or_ok (DecodePublish p) \<and> truncated_or_ok (DecodePublishBatch p) \<and>
   truncated_or_ok (DecodeTopics p) \<and> truncated_or_ok (DecodeMessage p) \<and>
   truncated_or_ok (DecodeError p) \<and> truncated_or_ok (UnmarshalOffset p) \<and>
   truncated_or_ok (DecodePublishAck p)"
  by (intro conjI decoders_truncated_or_ok)

section \<open>Writers\<close>

text \<open>
  C17: \<open>WritePublishBatch\<close> writes in pieces exactly the frame of \<open>EncodePublishBatch\<close>; a batch that does not
  fit in a frame is refused with ErrTooLarge before a byte is written, and a failing connection
  gets a prefix of the frame.
\<close>

theorem write_publish_batch_is_frame:
  "case WritePublishBatch bufio_write topic payloads b of
     (Ok _, b') \<Rightarrow> len (EncodePublishBatch topic payloads) \<le> MaxPayload \<and>
        bufw_sent b' = bufw_sent b @ frame_bytes OpPublishBatch (EncodePublishBatch topic payloads)
   | (Fail e, b') \<Rightarrow>
        (if len (EncodePublishBatch topic payloads) > MaxPayload then e = Sentinel ErrTooLarge \<and> b' = b
         else \<exists>k. bufw_sent b' =
           bufw_sent b @ take k (frame_bytes OpPublishBatch (EncodePublishBatch topic payloads)))
   | (Panic, b') \<Rightarrow> False"
proof (cases "len (EncodePublishBatch topic payloads) \<le> MaxPayload")
  case True
  note e = bufio.emits_WritePublishBatch [OF True]
  obtain r b' where r: "WritePublishBatch bufio_write topic payloads b = (r, b')" by force
  show ?thesis
    using True r bufio.emits_ok [OF e, of b] bufio.emits_fail [OF e, of b] bufio.emits_no_panic [OF e, of b]
    by (cases r) (auto simp: not_le)
next
  case False
  with WritePublishBatch_refused [of topic payloads bufio_write b] show ?thesis by simp
qed

text \<open>\<open>WritePublish\<close> and \<open>WritePublishNoAck\<close> likewise write the frame of \<open>EncodePublish\<close>.\<close>

lemma write_publish_is_frame:
  "case writePublishOp bufio_write op topic payload b of
     (Ok _, b') \<Rightarrow> len (EncodePublish topic payload) \<le> MaxPayload \<and>
        bufw_sent b' = bufw_sent b @ frame_bytes op (EncodePublish topic payload)
   | (Fail e, b') \<Rightarrow>
        (if len (EncodePublish topic payload) > MaxPayload then e = Sentinel ErrTooLarge \<and> b' = b
         else \<exists>k. bufw_sent b' = bufw_sent b @ take k (frame_bytes op (EncodePublish topic payload)))
   | (Panic, b') \<Rightarrow> False"
proof (cases "len (EncodePublish topic payload) \<le> MaxPayload")
  case True
  note e = bufio.emits_writePublishOp [OF True, of op]
  obtain r b' where r: "writePublishOp bufio_write op topic payload b = (r, b')" by force
  show ?thesis
    using True r bufio.emits_ok [OF e, of b] bufio.emits_fail [OF e, of b] bufio.emits_no_panic [OF e, of b]
    by (cases r) (auto simp: not_le)
next
  case False
  then show ?thesis by (simp add: writePublishOp_def Let_def EncodePublish_pieces)
qed

text \<open>
  C16: \<open>WriteMessageBatch\<close> writes the frames of its messages, one after the other, whatever the recycled
  headers of the pool hold, and returns headers of the right size to it; a message over
  \<open>MaxMessage\<close> is found before anything is written.
\<close>

theorem write_message_batch_is_frames:
  assumes "length offs = length ps" and "pool_ok pool"
  shows "case WriteMessageBatch conn_write offs ps (w, pool) of
      (Ok _, (w', pool')) \<Rightarrow> pool_ok pool' \<and>
        co_sent w' = co_sent w @ concat (map2 (\<lambda>off p. frame_bytes OpMessage (EncodeMessage off p)) offs ps)
    | (Fail e, (w', pool')) \<Rightarrow> pool_ok pool' \<and>
        (if list_ex (\<lambda>p. len p > MaxMessage) ps then e = Sentinel ErrTooLarge \<and> w' = w
         else \<exists>k. co_sent w' = co_sent w @
           take k (concat (map2 (\<lambda>off p. frame_bytes OpMessage (EncodeMessage off p)) offs ps)))
    | (Panic, _) \<Rightarrow> False"
proof -
  obtain pool' where p: "pool_ok pool'" "WriteMessageBatch conn_write offs ps (w, pool) =
      (if \<exists>p\<in>set ps. len p > MaxMessage then (fail_with ErrTooLarge, (w, pool'))
       else case write_buffers conn_write (message_bufs offs ps) w of (r, w') \<Rightarrow> (r, (w', pool')))"
    using WriteMessageBatch_eq [OF assms, of conn_write w] by blast
  note e = conn.emits_write_buffers [of "message_bufs offs ps", unfolded concat_message_bufs message_frame_def [abs_def]]
  obtain r w' where r: "write_buffers conn_write (message_bufs offs ps) w = (r, w')" by force
  show ?thesis
    using p r conn.emits_ok [OF e, of w] conn.emits_fail [OF e, of w] conn.emits_no_panic [OF e, of w]
    by (cases r) (auto simp: list_ex_iff)
qed

theorem write_message_batch_is_frames_witness:
  "case WriteMessageBatch conn_write [5, 6] [[1], [2, 3]] (new_conn_out None, [replicate 20 9]) of
      (Ok _, (w', pool')) \<Rightarrow> pool_ok pool' \<and>
        co_sent w' = co_sent (new_conn_out None) @
          concat (map2 (\<lambda>off p. frame_bytes OpMessage (EncodeMessage off p)) [5, 6] [[1], [2, 3]])
    | (Fail e, (w', pool')) \<Rightarrow> pool_ok pool' \<and>
        (if list_ex (\<lambda>p. len p > MaxMessage) [[1], [2, 3 :: byte]] then e = Sentinel ErrTooLarge \<and> w' = new_conn_out None
         else \<exists>k. co_sent w' = co_sent (new_conn_out None) @
           take k (concat (map2 (\<lambda>off p. frame_bytes OpMessage (EncodeMessage off p)) [5, 6] [[1], [2, 3]])))
    | (Panic, _) \<Rightarrow> False"
  by (rule write_message_batch_is_frames) simp_all

end
