(* ===== verification/Broker_Store.thy ===== *)
theory Broker_Store
  imports Snail_Errors
begin

text \<open>
  \<open>broker/message.go\<close> and \<open>broker/store.go\<close>: messages, the \<open>Store\<close> interface of a partition's
  log, and \<open>memoryLog\<close>, its in-memory implementation.

  A Go interface value is a table of methods with a receiver: \<open>store_ops\<close> is the table, and the
  receiver is the state it acts on. What the interface's comments promise is the locale
  \<open>log_store\<close>, over the sequence of payloads a store holds; \<open>memoryLog\<close> is shown to keep it.
\<close>

section \<open>Messages and stores\<close>

record message =
  Offset :: i64
  Payload :: bytes

record 's store_ops =
  sAppend :: "bytes \<Rightarrow> ('s, gerror, i64) go"
  sRead :: "'s \<Rightarrow> i64 \<Rightarrow> i64 \<Rightarrow> message list result"
  sLen :: "'s \<Rightarrow> i64"

record memoryLog =
  msgs :: "message list"

definition newMemoryLog :: memoryLog where
  "newMemoryLog = \<lparr>msgs = []\<rparr>"

definition memoryLog_Append :: "bytes \<Rightarrow> (memoryLog, gerror, i64) go" where
  "memoryLog_Append payload m =
     (let offset = int64 (length (msgs m));
          msg = \<lparr>Offset = offset, Payload = payload\<rparr> in
      (Ok offset, m\<lparr>msgs := msgs m @ [msg]\<rparr>))"

text \<open>The built-in \<open>min\<close> on signed integers, and \<open>make([]Message, n)\<close>, which panics when \<open>n < 0\<close>.\<close>

definition smin :: "i64 \<Rightarrow> i64 \<Rightarrow> i64" where
  "smin a b = (if b <s a then b else a)"

definition make_messages :: "i64 \<Rightarrow> message list result" where
  "make_messages n =
     (if n <s 0 then Panic else Ok (replicate (nat (sint n)) \<lparr>Offset = 0, Payload = []\<rparr>))"

definition memoryLog_Read :: "memoryLog \<Rightarrow> i64 \<Rightarrow> i64 \<Rightarrow> message list result" where
  "memoryLog_Read m from mx =
     (let n = int64 (length (msgs m)) in
      if from <s 0 \<or> n \<le>s from \<or> mx \<le>s 0 then Ok []
      else let end = smin n (from + smin mx (n - from)) in
        obind (make_messages (end - from)) (\<lambda>result.
        obind (slice (msgs m) (sint from) (sint end)) (\<lambda>src.
        copy_at result 0 src)))"

definition memoryLog_Len :: "memoryLog \<Rightarrow> i64" where
  "memoryLog_Len m = int64 (length (msgs m))"

definition memoryLog_ops :: "memoryLog store_ops" where
  "memoryLog_ops = \<lparr>sAppend = memoryLog_Append, sRead = memoryLog_Read, sLen = memoryLog_Len\<rparr>"

section \<open>The contract of a store\<close>

text \<open>
  A log is the list of payloads appended so far. Its messages carry their index as offset, and
  \<open>window\<close> is what \<open>Read(from, max)\<close> is documented to return.
\<close>

definition messages :: "bytes list \<Rightarrow> message list" where
  "messages ps = map (\<lambda>i. \<lparr>Offset = int64 i, Payload = ps ! i\<rparr>) [0..<length ps]"

definition window :: "bytes list \<Rightarrow> i64 \<Rightarrow> i64 \<Rightarrow> message list" where
  "window ps from mx =
     (if sint from < 0 \<or> sint mx \<le> 0 then []
      else take (nat (sint mx)) (drop (nat (sint from)) (messages ps)))"

lemma length_messages [simp]: "length (messages ps) = length ps"
  by (simp add: messages_def)

lemma messages_nth [simp]:
  "i < length ps \<Longrightarrow> messages ps ! i = \<lparr>Offset = int64 i, Payload = ps ! i\<rparr>"
  by (simp add: messages_def)

lemma messages_snoc:
  "messages (ps @ [p]) = messages ps @ [\<lparr>Offset = int64 (length ps), Payload = p\<rparr>]"
  by (rule nth_equalityI) (auto simp: nth_append less_Suc_eq)

lemma map_Payload_messages [simp]: "map Payload (messages ps) = ps"
  by (rule nth_equalityI) auto

lemma messages_Nil [simp]: "messages [] = []"
  by (simp add: messages_def)

lemma take_messages [simp]: "take n (messages ps) = messages (take n ps)"
  by (rule nth_equalityI) auto

lemma messages_append:
  "messages (ps @ qs) = messages ps @ drop (length ps) (messages (ps @ qs))"
  by (metis append_take_drop_id take_messages append_eq_conv_conj)

locale log_store =
  fixes ops :: "'s store_ops"
    and log :: "'s \<Rightarrow> bytes list"
    and inv :: "'s \<Rightarrow> bool"
  assumes append_ok:
      "inv s \<Longrightarrow> fits_int64 (Suc (length (log s))) \<Longrightarrow> sAppend ops p s = (Ok off, s') \<Longrightarrow>
         off = int64 (length (log s)) \<and> log s' = log s @ [p] \<and> inv s'"
    and append_fail: "inv s \<Longrightarrow> sAppend ops p s = (Fail e, s') \<Longrightarrow> log s' = log s \<and> inv s'"
    and append_no_panic: "inv s \<Longrightarrow> fst (sAppend ops p s) \<noteq> Panic"
    and read_window: "inv s \<Longrightarrow> sRead ops s from mx = Ok (window (log s) from mx)"
    and len_log: "inv s \<Longrightarrow> sLen ops s = int64 (length (log s))"
    and inv_fits: "inv s \<Longrightarrow> fits_int64 (length (log s))"
begin

lemma append_cases:
  assumes "inv s" and "fits_int64 (Suc (length (log s)))"
  obtains (ok) s' where "sAppend ops p s = (Ok (int64 (length (log s))), s')"
      "log s' = log s @ [p]" "inv s'"
  | (fail) e s' where "sAppend ops p s = (Fail e, s')" "log s' = log s" "inv s'"
proof -
  obtain r s' where r: "sAppend ops p s = (r, s')" by force
  show thesis
  proof (cases r)
    case (Ok off)
    with r append_ok [OF assms, of p off s'] show thesis by (intro ok) auto
  next
    case (Fail e)
    with r append_fail [OF assms(1), of p e s'] show thesis by (auto intro: fail)
  next
    case Panic
    with r append_no_panic [OF assms(1), of p] show thesis by simp
  qed
qed

text \<open>A message that was appended is what a read at its offset returns.\<close>

lemma read_appended:
  assumes "inv s" and "fits_int64 (Suc (length (log s)))" and "sAppend ops p s = (Ok off, s')"
  shows "sRead ops s' off 1 = Ok [\<lparr>Offset = off, Payload = p\<rparr>]"
proof -
  have a: "off = int64 (length (log s))" "log s' = log s @ [p]" "inv s'"
    using append_ok [OF assms] by auto
  have "sint off = int (length (log s))"
    using a inv_fits [OF assms(1)] by simp
  moreover have "sint (1 :: i64) = 1" by simp
  ultimately show ?thesis
    using a by (simp add: read_window window_def messages_snoc)
qed

end

text \<open>A store that has room and never refuses an append.\<close>

locale reliable_store = log_store +
  assumes append_total: "inv s \<Longrightarrow> \<exists>off s'. sAppend ops p s = (Ok off, s')"
begin

lemma append_reliable:
  assumes "inv s" and "fits_int64 (Suc (length (log s)))"
  obtains s' where "sAppend ops p s = (Ok (int64 (length (log s))), s')"
    "log s' = log s @ [p]" "inv s'"
  using append_cases [OF assms, of p] append_total [OF assms(1), of p] by fastforce

end

section \<open>\<open>memoryLog\<close> keeps the contract\<close>

definition memoryLog_log :: "memoryLog \<Rightarrow> bytes list" where
  "memoryLog_log m = map Payload (msgs m)"

text \<open>The invariant in the source's comment: \<open>msgs[i].Offset == i\<close>; and the length is an int64.\<close>

definition memoryLog_inv :: "memoryLog \<Rightarrow> bool" where
  "memoryLog_inv m \<longleftrightarrow>
     (\<forall>i<length (msgs m). Offset (msgs m ! i) = int64 i) \<and> fits_int64 (length (msgs m))"

lemma memoryLog_messages:
  "memoryLog_inv m \<Longrightarrow> messages (memoryLog_log m) = msgs m"
  by (rule nth_equalityI) (auto simp: memoryLog_inv_def memoryLog_log_def)

text \<open>
  The arithmetic of \<open>Read\<close>: for \<open>from\<close> inside the log and any positive \<open>max\<close>, up to the largest
  int64, \<open>from + min(max, n - from)\<close> does not overflow and is at most \<open>n\<close>.
\<close>

lemma read_end:
  assumes fits: "fits_int64 n" and lo: "0 \<le> sint from" and hi: "sint from < int n"
    and mx: "0 < sint mx"
  shows "sint (smin (int64 n) (from + smin mx (int64 n - from)))
    = min (int n) (sint from + sint mx)"
proof -
  have n: "sint (int64 n) = int n" "int n < 2 ^ 63"
    using fits by (simp_all add: fits_int64_def)
  have d: "sint (int64 n - from) = int n - sint from"
    using n lo hi by (simp add: sint_diff_fits)
  have m: "sint (smin mx (int64 n - from)) = min (sint mx) (int n - sint from)"
    by (auto simp: smin_def word_sless_alt d)
  then have "sint (from + smin mx (int64 n - from)) = sint from + min (sint mx) (int n - sint from)"
    using n lo hi mx by (simp add: sint_add_fits min_def)
  then show ?thesis
    using n lo by (auto simp: smin_def word_sless_alt min_def)
qed

lemma memoryLog_Read_eq:
  assumes inv: "memoryLog_inv m"
  shows "memoryLog_Read m from mx = Ok (window (memoryLog_log m) from mx)"
proof -
  let ?n = "length (msgs m)"
  have fits: "fits_int64 ?n" using inv by (simp add: memoryLog_inv_def)
  show ?thesis
  proof (cases "0 \<le> sint from \<and> sint from < int ?n \<and> 0 < sint mx")
    case False
    then show ?thesis
      using fits
      by (auto simp: memoryLog_Read_def Let_def window_def word_sless_alt word_sle_eq
          memoryLog_messages [OF inv])
  next
    case True
    then have g: "0 \<le> sint from" "sint from < int ?n" "0 < sint mx" by auto
    define e where "e = smin (int64 ?n) (from + smin mx (int64 ?n - from))"
    have e: "sint e = min (int ?n) (sint from + sint mx)"
      unfolding e_def by (rule read_end [OF fits g])
    have d: "sint (e - from) = sint e - sint from"
      using e g fits by (simp add: sint_diff_fits fits_int64_def)
    have src: "slice (msgs m) (sint from) (sint e) =
        (Ok (take (nat (sint e - sint from)) (drop (nat (sint from)) (msgs m))) :: message list result)"
      and "sint from \<le> sint e" "sint e \<le> len (msgs m)"
      using e g by (auto simp: slice_def)
    have k: "nat (sint e - sint from) \<le> length (msgs m) - nat (sint from)"
      using g \<open>sint e \<le> len (msgs m)\<close> by linarith
    have "memoryLog_Read m from mx =
        obind (make_messages (e - from)) (\<lambda>result.
        obind (slice (msgs m) (sint from) (sint e)) (\<lambda>src. copy_at result 0 src))"
      using g fits by (simp add: memoryLog_Read_def Let_def word_sless_alt word_sle_eq e_def)
    also have "\<dots> = Ok (take (nat (sint e - sint from)) (drop (nat (sint from)) (msgs m)))"
      using src d \<open>sint from \<le> sint e\<close> k by (simp add: make_messages_def word_sless_alt)
    also have "take (nat (sint e - sint from)) (drop (nat (sint from)) (msgs m)) =
        take (nat (sint mx)) (drop (nat (sint from)) (msgs m))"
      by (rule take_cong_length) (use g e in \<open>auto simp: min_def\<close>)
    also have "\<dots> = window (memoryLog_log m) from mx"
      using g by (simp add: window_def memoryLog_messages [OF inv] del: take_messages)
    finally show ?thesis .
  qed
qed

interpretation mem: reliable_store memoryLog_ops memoryLog_log memoryLog_inv
proof
  fix s s' :: memoryLog and p off e "from" mx
  show "memoryLog_inv s \<Longrightarrow> fits_int64 (Suc (length (memoryLog_log s))) \<Longrightarrow>
      sAppend memoryLog_ops p s = (Ok off, s') \<Longrightarrow>
      off = int64 (length (memoryLog_log s)) \<and> memoryLog_log s' = memoryLog_log s @ [p] \<and> memoryLog_inv s'"
    by (auto simp: memoryLog_ops_def memoryLog_Append_def memoryLog_log_def memoryLog_inv_def
        Let_def nth_append less_Suc_eq)
  show "memoryLog_inv s \<Longrightarrow> sRead memoryLog_ops s from mx = Ok (window (memoryLog_log s) from mx)"
    by (simp add: memoryLog_ops_def memoryLog_Read_eq)
qed (auto simp: memoryLog_ops_def memoryLog_Append_def memoryLog_Len_def memoryLog_log_def
    memoryLog_inv_def Let_def)

lemma memoryLog_inv_new [simp]: "memoryLog_inv newMemoryLog" "memoryLog_log newMemoryLog = []"
  by (simp_all add: memoryLog_inv_def newMemoryLog_def memoryLog_log_def fits_int64_def)

end
