(* ===== verification/Broker_Partition.thy ===== *)
theory Broker_Partition
  imports Broker_Store
begin

text \<open>
  \<open>broker/partition.go\<close> and the critical sections of \<open>broker/subscription.go\<close>: a partition is a
  log and the set of its live subscribers.

  Subscriptions are objects that outlive their membership of \<open>p_subs\<close>, so the partition carries
  the heap of those it has handed out; a pointer is an index into it. The \<open>ready\<close> channel has
  capacity 1, so its state is whether it holds a token; \<open>done\<close> is only ever closed. Every method
  runs under \<open>partition.mu\<close>, so it is one step of the state. \<open>p_subs\<close> lists the keys of the map
  in the order an iteration meets them.
\<close>

section \<open>State\<close>

record subscription =
  s_offset :: i64
  s_ready :: bool
  s_done :: bool

record 's partition =
  p_store :: 's
  p_subs :: "nat list"
  p_closed :: bool
  p_heap :: "subscription list"

definition newPartition :: "'s \<Rightarrow> 's partition" where
  "newPartition store = \<lparr>p_store = store, p_subs = [], p_closed = False, p_heap = []\<rparr>"

definition update_sub :: "nat \<Rightarrow> (subscription \<Rightarrow> subscription) \<Rightarrow> 's partition \<Rightarrow> 's partition" where
  "update_sub sid f p = p\<lparr>p_heap := (p_heap p)[sid := f (p_heap p ! sid)]\<rparr>"

text \<open>Following a pointer that no \<open>Subscribe\<close> returned is a panic.\<close>

definition sub_at :: "nat \<Rightarrow> 's partition \<Rightarrow> subscription result" where
  "sub_at sid p = (if sid < length (p_heap p) then Ok (p_heap p ! sid) else Panic)"

section \<open>Publishing\<close>

text \<open>
  The wake-up loop: a send on \<open>ready\<close> that would block is dropped, so afterwards each subscriber's
  channel holds a token either way.
\<close>

definition try_send :: "subscription \<Rightarrow> subscription" where
  "try_send s = (if s_ready s then s else s\<lparr>s_ready := True\<rparr>)"

fun signal_subs :: "nat list \<Rightarrow> 's partition \<Rightarrow> 's partition" where
  "signal_subs [] p = p"
| "signal_subs (sid # sids) p = signal_subs sids (update_sub sid try_send p)"

definition Partition_Publish :: "'s store_ops \<Rightarrow> bytes \<Rightarrow> ('s partition, gerror, i64) go" where
  "Partition_Publish ops payload p =
     (if p_closed p then (fail_with ErrClosed, p)
      else (case sAppend ops payload (p_store p) of
          (Fail e, st) \<Rightarrow> (Fail e, p\<lparr>p_store := st\<rparr>)
        | (Panic, st) \<Rightarrow> (Panic, p\<lparr>p_store := st\<rparr>)
        | (Ok off, st) \<Rightarrow>
            let p = p\<lparr>p_store := st\<rparr> in (Ok off, signal_subs (p_subs p) p)))"

text \<open>The loop of \<open>PublishBatch\<close>: \<open>i\<close> is the index, \<open>base\<close> the offset of the first payload.\<close>

fun append_loop :: "'s store_ops \<Rightarrow> bytes list \<Rightarrow> nat \<Rightarrow> i64 \<Rightarrow> ('s, gerror, i64) go" where
  "append_loop ops [] i base = greturn base"
| "append_loop ops (payload # payloads) i base =
     gbind (sAppend ops payload) (\<lambda>off.
     append_loop ops payloads (Suc i) (if i = 0 then off else base))"

definition Partition_PublishBatch ::
    "'s store_ops \<Rightarrow> bytes list \<Rightarrow> ('s partition, gerror, i64) go" where
  "Partition_PublishBatch ops payloads p =
     (if p_closed p then (fail_with ErrClosed, p)
      else if payloads = [] then (Ok 0, p)
      else (case append_loop ops payloads 0 0 (p_store p) of
          (Fail e, st) \<Rightarrow> (Fail e, p\<lparr>p_store := st\<rparr>)
        | (Panic, st) \<Rightarrow> (Panic, p\<lparr>p_store := st\<rparr>)
        | (Ok base, st) \<Rightarrow>
            let p = p\<lparr>p_store := st\<rparr> in (Ok base, signal_subs (p_subs p) p)))"

section \<open>Subscribing and closing\<close>

definition Partition_Subscribe :: "('s partition, gerror, nat) go" where
  "Partition_Subscribe p =
     (if p_closed p then (fail_with ErrClosed, p)
      else let sid = length (p_heap p);
               s = \<lparr>s_offset = 0, s_ready = False, s_done = False\<rparr> in
        (Ok sid, p\<lparr>p_heap := p_heap p @ [s], p_subs := p_subs p @ [sid]\<rparr>))"

definition subscriberCount :: "'s partition \<Rightarrow> nat" where
  "subscriberCount p = length (p_subs p)"

text \<open>\<open>close(s.done)\<close>: closing a closed channel panics.\<close>

definition close_done :: "nat \<Rightarrow> ('s partition, gerror, unit) go" where
  "close_done sid p =
     (case sub_at sid p of
        Ok s \<Rightarrow> if s_done s then (Panic, p) else (Ok (), update_sub sid (s_done_update (\<lambda>_. True)) p)
      | Fail e \<Rightarrow> (Fail e, p)
      | Panic \<Rightarrow> (Panic, p))"

definition delete_sub :: "nat \<Rightarrow> ('s partition, gerror, unit) go" where
  "delete_sub sid p = (Ok (), p\<lparr>p_subs := removeAll sid (p_subs p)\<rparr>)"

definition unsubscribe :: "nat \<Rightarrow> ('s partition, gerror, unit) go" where
  "unsubscribe sid p =
     (if sid \<in> set (p_subs p)
      then gbind (delete_sub sid) (\<lambda>_. close_done sid) p
      else (Ok (), p))"

fun close_loop :: "nat list \<Rightarrow> ('s partition, gerror, unit) go" where
  "close_loop [] = greturn ()"
| "close_loop (sid # sids) =
     gbind (close_done sid) (\<lambda>_. gbind (delete_sub sid) (\<lambda>_. close_loop sids))"

definition Partition_close :: "('s partition, gerror, unit) go" where
  "Partition_close p =
     (if p_closed p then (Ok (), p)
      else let p = p\<lparr>p_closed := True\<rparr> in close_loop (p_subs p) p)"

section \<open>\<open>Subscription.Read\<close> and \<open>Subscription.Close\<close>\<close>

text \<open>\<open>max <= 0\<close> counts as 1.\<close>

definition read_max :: "i64 \<Rightarrow> i64" where
  "read_max mx = (if mx \<le>s 0 then 1 else mx)"

text \<open>
  The critical section of one round of the loop: \<open>Some ms\<close> when there are messages to return,
  \<open>None\<close> when the reader has to wait.
\<close>

definition Read_locked ::
    "'s store_ops \<Rightarrow> nat \<Rightarrow> i64 \<Rightarrow> ('s partition, gerror, message list option) go" where
  "Read_locked ops sid mx p =
     (case sub_at sid p of
        Fail e \<Rightarrow> (Fail e, p)
      | Panic \<Rightarrow> (Panic, p)
      | Ok s \<Rightarrow>
          (if s_done s then (fail_with ErrClosed, p)
           else if p_closed p then (fail_with ErrClosed, p)
           else (case sRead ops (p_store p) (s_offset s) mx of
               Fail e \<Rightarrow> (Fail e, p)
             | Panic \<Rightarrow> (Panic, p)
             | Ok ms \<Rightarrow>
                 (if ms \<noteq> []
                  then (Ok (Some ms), update_sub sid (s_offset_update (\<lambda>_. Offset (last ms) + 1)) p)
                  else (Ok None, p)))))"

text \<open>Receiving from \<open>ready\<close> takes the token.\<close>

definition take_ready :: "nat \<Rightarrow> 's partition \<Rightarrow> 's partition" where
  "take_ready sid p = update_sub sid (s_ready_update (\<lambda>_. False)) p"

definition Subscription_Close :: "nat \<Rightarrow> ('s partition, gerror, unit) go" where
  "Subscription_Close sid = gbind (unsubscribe sid) (\<lambda>_. greturn ())"

section \<open>Frame facts\<close>

lemma update_sub_simps [simp]:
  "p_store (update_sub sid f p) = p_store p"
  "p_subs (update_sub sid f p) = p_subs p"
  "p_closed (update_sub sid f p) = p_closed p"
  "length (p_heap (update_sub sid f p)) = length (p_heap p)"
  by (simp_all add: update_sub_def)

lemma p_heap_update_sub:
  "i < length (p_heap p) \<Longrightarrow>
     p_heap (update_sub sid f p) ! i = (if i = sid then f (p_heap p ! i) else p_heap p ! i)"
  by (simp add: update_sub_def nth_list_update)

lemma signal_subs_simps [simp]:
  "p_store (signal_subs sids p) = p_store p"
  "p_subs (signal_subs sids p) = p_subs p"
  "p_closed (signal_subs sids p) = p_closed p"
  "length (p_heap (signal_subs sids p)) = length (p_heap p)"
  by (induction sids arbitrary: p) auto

lemma try_send_eq: "try_send s = s\<lparr>s_ready := True\<rparr>"
  by (simp add: try_send_def)

text \<open>Signalling sets the token of exactly the subscribers it goes through.\<close>

lemma p_heap_signal_subs:
  "i < length (p_heap p) \<Longrightarrow>
     p_heap (signal_subs sids p) ! i =
       (if i \<in> set sids then (p_heap p ! i)\<lparr>s_ready := True\<rparr> else p_heap p ! i)"
  by (induction sids arbitrary: p) (auto simp: p_heap_update_sub try_send_eq)

section \<open>Well-formed partitions\<close>

text \<open>
  A subscription's \<open>done\<close> is closed exactly when it is no longer registered, a closed partition has
  no subscriber, and no cursor is past the end of the log.
\<close>

definition partition_ok :: "('s \<Rightarrow> bool) \<Rightarrow> ('s \<Rightarrow> bytes list) \<Rightarrow> 's partition \<Rightarrow> bool" where
  "partition_ok sinv slog p \<longleftrightarrow>
     sinv (p_store p) \<and> distinct (p_subs p) \<and> (\<forall>i\<in>set (p_subs p). i < length (p_heap p)) \<and>
     (\<forall>i<length (p_heap p). s_done (p_heap p ! i) \<longleftrightarrow> i \<notin> set (p_subs p)) \<and>
     (p_closed p \<longrightarrow> p_subs p = []) \<and>
     (\<forall>i<length (p_heap p). unat (s_offset (p_heap p ! i)) \<le> length (slog (p_store p)))"

lemma partition_okD:
  assumes "partition_ok sinv slog p"
  shows "sinv (p_store p)" and "distinct (p_subs p)"
    and "i \<in> set (p_subs p) \<Longrightarrow> i < length (p_heap p)"
    and "i < length (p_heap p) \<Longrightarrow> s_done (p_heap p ! i) \<longleftrightarrow> i \<notin> set (p_subs p)"
    and "p_closed p \<Longrightarrow> p_subs p = []"
    and "i < length (p_heap p) \<Longrightarrow> unat (s_offset (p_heap p ! i)) \<le> length (slog (p_store p))"
  using assms by (auto simp: partition_ok_def)

lemma partition_ok_new: "sinv st \<Longrightarrow> partition_ok sinv slog (newPartition st)"
  by (simp add: partition_ok_def newPartition_def)

text \<open>Publishing changes the store and the tokens only.\<close>

lemma partition_ok_store:
  assumes "partition_ok sinv slog p" and "sinv st" and "length (slog (p_store p)) \<le> length (slog st)"
  shows "partition_ok sinv slog (p\<lparr>p_store := st\<rparr>)"
  using assms by (fastforce simp: partition_ok_def)

lemma partition_ok_signal:
  "partition_ok sinv slog p \<Longrightarrow> partition_ok sinv slog (signal_subs sids p)"
  by (auto simp: partition_ok_def p_heap_signal_subs)

lemma partition_ok_take_ready:
  "partition_ok sinv slog p \<Longrightarrow> partition_ok sinv slog (take_ready sid p)"
  by (auto simp: partition_ok_def take_ready_def p_heap_update_sub)

lemma partition_ok_subscribe:
  assumes ok: "partition_ok sinv slog p" and "Partition_Subscribe p = (r, p')"
  shows "partition_ok sinv slog p'"
proof (cases "p_closed p")
  case True
  with assms show ?thesis by (simp add: Partition_Subscribe_def)
next
  case False
  let ?n = "length (p_heap p)"
  have "i < ?n" if "i \<in> set (p_subs p)" for i using partition_okD(3) [OF ok that] .
  then have "?n \<notin> set (p_subs p)" by blast
  with False assms show ?thesis
    by (auto simp: Partition_Subscribe_def Let_def partition_ok_def nth_append less_Suc_eq)
qed

lemma unsubscribe_eq:
  assumes "partition_ok sinv slog p"
  shows "unsubscribe sid p =
    (Ok (), if sid \<in> set (p_subs p)
       then update_sub sid (s_done_update (\<lambda>_. True)) (p\<lparr>p_subs := removeAll sid (p_subs p)\<rparr>) else p)"
  using partition_okD(3,4) [OF assms, of sid]
  by (auto simp: unsubscribe_def gbind_def delete_sub_def close_done_def sub_at_def)

lemma partition_ok_unsubscribe:
  assumes ok: "partition_ok sinv slog p" and "unsubscribe sid p = (r, p')"
  shows "partition_ok sinv slog p'"
proof (cases "sid \<in> set (p_subs p)")
  case True
  then have p': "p' = update_sub sid (s_done_update (\<lambda>_. True)) (p\<lparr>p_subs := removeAll sid (p_subs p)\<rparr>)"
    using assms(2) unsubscribe_eq [OF ok, of sid] by simp
  then have h: "length (p_heap p') = length (p_heap p)" "p_subs p' = removeAll sid (p_subs p)"
    "p_store p' = p_store p" "p_closed p' = p_closed p"
    "\<And>i. i < length (p_heap p) \<Longrightarrow>
       p_heap p' ! i = (if i = sid then (p_heap p ! i)\<lparr>s_done := True\<rparr> else p_heap p ! i)"
    by (simp_all add: p_heap_update_sub)
  show ?thesis
    using partition_okD [OF ok] True
    unfolding partition_ok_def h(1-4) by (auto simp: h(5) distinct_removeAll)
next
  case False
  with assms unsubscribe_eq [OF ok, of sid] show ?thesis by simp
qed

text \<open>The closing loop closes each channel once.\<close>

lemma close_loop_eq:
  assumes "distinct sids" and "\<forall>i\<in>set sids. i < length (p_heap p) \<and> \<not> s_done (p_heap p ! i)"
  shows "\<exists>p'. close_loop sids p = (Ok (), p') \<and> p_store p' = p_store p \<and> p_closed p' = p_closed p \<and>
    p_subs p' = filter (\<lambda>i. i \<notin> set sids) (p_subs p) \<and> length (p_heap p') = length (p_heap p) \<and>
    (\<forall>i<length (p_heap p). p_heap p' ! i =
       (if i \<in> set sids then (p_heap p ! i)\<lparr>s_done := True\<rparr> else p_heap p ! i))"
  using assms
proof (induction sids arbitrary: p)
  case Nil
  then show ?case by simp
next
  case (Cons sid sids)
  define q where "q = (update_sub sid (s_done_update (\<lambda>_. True)) p)\<lparr>p_subs := removeAll sid (p_subs p)\<rparr>"
  have step: "close_loop (sid # sids) p = close_loop sids q"
    using Cons.prems by (simp add: gbind_def delete_sub_def close_done_def sub_at_def q_def)
  have q: "p_store q = p_store p" "p_closed q = p_closed p" "p_subs q = removeAll sid (p_subs p)"
    "length (p_heap q) = length (p_heap p)"
    by (simp_all add: q_def)
  have h: "p_heap q ! i = (if i = sid then (p_heap p ! i)\<lparr>s_done := True\<rparr> else p_heap p ! i)"
    if "i < length (p_heap p)" for i
    using that by (simp add: q_def p_heap_update_sub)
  have "distinct sids" "\<forall>i\<in>set sids. i < length (p_heap q) \<and> \<not> s_done (p_heap q ! i)"
    using Cons.prems by (auto simp: q h)
  from Cons.IH [OF this] obtain p' where p': "close_loop sids q = (Ok (), p')"
    "p_store p' = p_store p" "p_closed p' = p_closed p"
    "p_subs p' = filter (\<lambda>i. i \<notin> set sids) (removeAll sid (p_subs p))"
    "length (p_heap p') = length (p_heap p)"
    and heap: "\<And>i. i < length (p_heap p) \<Longrightarrow> p_heap p' ! i =
       (if i \<in> set sids then (p_heap q ! i)\<lparr>s_done := True\<rparr> else p_heap q ! i)"
    by (auto simp: q)
  have "p_subs p' = filter (\<lambda>i. i \<notin> set (sid # sids)) (p_subs p)"
    by (auto simp: p' removeAll_filter_not_eq intro: filter_cong)
  moreover have "p_heap p' ! i = (if i \<in> set (sid # sids) then (p_heap p ! i)\<lparr>s_done := True\<rparr> else p_heap p ! i)"
    if "i < length (p_heap p)" for i
    using heap [OF that] h [OF that] by (cases "i = sid") simp_all
  ultimately show ?case
    unfolding step using p' by (intro exI [of _ p']) simp
qed

lemma Partition_close_eq:
  assumes ok: "partition_ok sinv slog p"
  shows "\<exists>p'. Partition_close p = (Ok (), p') \<and> p_store p' = p_store p \<and> p_closed p' \<and> p_subs p' = [] \<and>
    length (p_heap p') = length (p_heap p) \<and>
    (\<forall>i<length (p_heap p). p_heap p' ! i = (p_heap p ! i)\<lparr>s_done := True\<rparr>)"
proof (cases "p_closed p")
  case True
  then have "s_done (p_heap p ! i)" if "i < length (p_heap p)" for i
    using partition_okD(4,5) [OF ok] that by auto
  with True show ?thesis
    using partition_okD(5) [OF ok] by (auto simp: Partition_close_def)
next
  case False
  let ?p = "p\<lparr>p_closed := True\<rparr>"
  have closed: "p_heap p ! i = (p_heap p ! i)\<lparr>s_done := True\<rparr>"
    if "i < length (p_heap p)" "i \<notin> set (p_subs p)" for i
    using partition_okD(4) [OF ok that(1)] that by simp
  have "distinct (p_subs p)"
    "\<forall>i\<in>set (p_subs p). i < length (p_heap ?p) \<and> \<not> s_done (p_heap ?p ! i)"
    using partition_okD(2-4) [OF ok] by auto
  from close_loop_eq [OF this] obtain p' where p': "close_loop (p_subs p) ?p = (Ok (), p')"
    "p_store p' = p_store p" "p_closed p'" "p_subs p' = []" "length (p_heap p') = length (p_heap p)"
    and heap: "\<And>i. i < length (p_heap p) \<Longrightarrow> p_heap p' ! i =
       (if i \<in> set (p_subs p) then (p_heap p ! i)\<lparr>s_done := True\<rparr> else p_heap p ! i)"
    by auto
  have "p_heap p' ! i = (p_heap p ! i)\<lparr>s_done := True\<rparr>" if "i < length (p_heap p)" for i
    using heap [OF that] closed [OF that] by simp
  with p' False show ?thesis
    by (intro exI [of _ p']) (simp add: Partition_close_def Let_def)
qed

lemma partition_ok_close:
  assumes ok: "partition_ok sinv slog p" and "Partition_close p = (r, p')"
  shows "partition_ok sinv slog p'"
  using assms(2) Partition_close_eq [OF ok] partition_okD [OF ok]
  by (auto simp: partition_ok_def)

section \<open>Publishing and reading over a store that keeps its contract\<close>

context log_store
begin

lemma append_loop_spec:
  assumes "inv s" and "fits_int64 (length (log s) + length ps)"
  shows "case append_loop ops ps i base s of
      (Ok b, s') \<Rightarrow> b = (if i = 0 \<and> ps \<noteq> [] then int64 (length (log s)) else base) \<and>
         log s' = log s @ ps \<and> inv s'
    | (Fail e, s') \<Rightarrow> (\<exists>k<length ps. log s' = log s @ take k ps) \<and> inv s'
    | (Panic, s') \<Rightarrow> False"
  using assms
proof (induction ps arbitrary: i base s)
  case Nil
  then show ?case by simp
next
  case (Cons p ps)
  have fits: "fits_int64 (Suc (length (log s)))"
    using Cons.prems(2) by (rule fits_int64_mono [rotated]) simp
  from Cons.prems(1) fits show ?case
  proof (cases rule: append_cases [where p = p])
    case (ok s')
    then have "fits_int64 (length (log s') + length ps)"
      using Cons.prems(2) by simp
    define b where "b = (if i = 0 then int64 (length (log s)) else base)"
    have step: "append_loop ops (p # ps) i base s = append_loop ops ps (Suc i) b s'"
      using ok by (simp add: b_def)
    obtain r t where rt: "append_loop ops ps (Suc i) b s' = (r, t)" by force
    show ?thesis
      using Cons.IH [OF ok(3) \<open>fits_int64 (length (log s') + length ps)\<close>, of "Suc i" b] ok(2)
      unfolding step rt
      by (cases r) (auto simp: b_def intro: exI [where x = "Suc k" for k])
  next
    case (fail e s')
    then show ?thesis by (auto simp: gbind_def intro: exI [of _ 0])
  qed
qed

lemma Partition_Publish_cases:
  assumes "partition_ok inv log p" and "fits_int64 (Suc (length (log (p_store p))))"
  obtains (closed) "p_closed p" "Partition_Publish ops payload p = (fail_with ErrClosed, p)"
  | (ok) st where "\<not> p_closed p"
      "Partition_Publish ops payload p =
         (Ok (int64 (length (log (p_store p)))), signal_subs (p_subs p) (p\<lparr>p_store := st\<rparr>))"
      "log st = log (p_store p) @ [payload]" "inv st"
  | (fail) e st where "\<not> p_closed p"
      "Partition_Publish ops payload p = (Fail e, p\<lparr>p_store := st\<rparr>)"
      "log st = log (p_store p)" "inv st"
proof (cases "p_closed p")
  case True
  then show thesis by (intro closed) (simp_all add: Partition_Publish_def)
next
  case False
  from partition_okD(1) [OF assms(1)] assms(2) show thesis
  proof (cases rule: append_cases [where p = payload])
    case (ok st)
    with False show thesis by (intro that(2)) (simp_all add: Partition_Publish_def Let_def)
  next
    case (fail e st)
    with False show thesis by (intro that(3)) (simp_all add: Partition_Publish_def Let_def)
  qed
qed

lemma Partition_Publish_ok:
  assumes "partition_ok inv log p" and "fits_int64 (Suc (length (log (p_store p))))"
    and "Partition_Publish ops payload p = (r, p')"
  shows "partition_ok inv log p' \<and> r \<noteq> Panic"
  using assms(1,2)
proof (cases rule: Partition_Publish_cases [where payload = payload])
  case (ok st)
  with assms show ?thesis
    by (auto intro!: partition_ok_signal partition_ok_store)
next
  case (fail e st)
  with assms show ?thesis by (auto intro!: partition_ok_store)
qed (use assms in auto)

lemma Partition_PublishBatch_cases:
  assumes "partition_ok inv log p" and "fits_int64 (length (log (p_store p)) + length payloads)"
  obtains (closed) "p_closed p" "Partition_PublishBatch ops payloads p = (fail_with ErrClosed, p)"
  | (empty) "\<not> p_closed p" "payloads = []" "Partition_PublishBatch ops payloads p = (Ok 0, p)"
  | (ok) st where "\<not> p_closed p" "payloads \<noteq> []"
      "Partition_PublishBatch ops payloads p =
         (Ok (int64 (length (log (p_store p)))), signal_subs (p_subs p) (p\<lparr>p_store := st\<rparr>))"
      "log st = log (p_store p) @ payloads" "inv st"
  | (fail) e st k where "\<not> p_closed p" "k < length payloads"
      "Partition_PublishBatch ops payloads p = (Fail e, p\<lparr>p_store := st\<rparr>)"
      "log st = log (p_store p) @ take k payloads" "inv st"
proof (cases "p_closed p \<or> payloads = []")
  case True
  then show thesis
    by (cases "p_closed p") (auto intro: closed empty simp: Partition_PublishBatch_def)
next
  case False
  obtain r st where r: "append_loop ops payloads 0 0 (p_store p) = (r, st)" by force
  have "case append_loop ops payloads 0 0 (p_store p) of
      (Ok b, s') \<Rightarrow> b = (if (0::nat) = 0 \<and> payloads \<noteq> [] then int64 (length (log (p_store p))) else 0) \<and>
         log s' = log (p_store p) @ payloads \<and> inv s'
    | (Fail e, s') \<Rightarrow> (\<exists>k<length payloads. log s' = log (p_store p) @ take k payloads) \<and> inv s'
    | (Panic, s') \<Rightarrow> False"
    by (rule append_loop_spec [OF partition_okD(1) [OF assms(1)] assms(2)])
  with r False show thesis
    by (cases r) (auto simp: Partition_PublishBatch_def Let_def intro: that(3,4))
qed

lemma Partition_PublishBatch_ok:
  assumes "partition_ok inv log p" and "fits_int64 (length (log (p_store p)) + length payloads)"
    and "Partition_PublishBatch ops payloads p = (r, p')"
  shows "partition_ok inv log p' \<and> r \<noteq> Panic"
  using assms(1,2)
proof (cases rule: Partition_PublishBatch_cases)
  case (ok st)
  with assms show ?thesis
    by (auto intro!: partition_ok_signal partition_ok_store)
next
  case (fail e st k)
  with assms show ?thesis by (auto intro!: partition_ok_store)
qed (use assms in auto)

text \<open>
  One round of \<open>Read\<close> from the cursor at index \<open>k\<close>: the messages from there on, at most \<open>max\<close> of
  them, with the cursor moved behind the last.
\<close>

lemma window_cursor:
  assumes "k \<le> length ps" and "fits_int64 (length ps)" and "0 < sint mx"
  shows "window ps (int64 k) mx = take (nat (sint mx)) (drop k (messages ps))"
  using assms fits_int64_mono [OF assms(1,2)] by (simp add: window_def)

lemma last_window:
  assumes "k < length ps" and "0 < n"
  shows "take n (drop k (messages ps)) \<noteq> []"
    and "Offset (last (take n (drop k (messages ps)))) + 1 = int64 (k + length (take n (drop k (messages ps))))"
proof -
  let ?ms = "take n (drop k (messages ps))"
  show ne: "?ms \<noteq> []" using assms by simp
  define j where "j = k + (length ?ms - 1)"
  have "last ?ms = messages ps ! j"
    using ne assms by (subst last_conv_nth) (auto simp: j_def)
  moreover have "j < length ps"
    using assms by (auto simp: j_def min_def)
  ultimately have "Offset (last ?ms) + 1 = int64 (Suc j)"
    by (simp add: int64_Suc)
  moreover have "Suc j = k + length ?ms"
    using assms by (auto simp: j_def min_def)
  ultimately show "Offset (last ?ms) + 1 = int64 (k + length ?ms)" by (simp only:)
qed

lemma Read_locked_cases:
  assumes ok: "partition_ok inv log p" and sid: "sid < length (p_heap p)" and mx: "0 < sint mx"
  obtains (closed) "s_done (p_heap p ! sid) \<or> p_closed p"
      "Read_locked ops sid mx p = (fail_with ErrClosed, p)"
  | (wait) "\<not> s_done (p_heap p ! sid)" "\<not> p_closed p"
      "unat (s_offset (p_heap p ! sid)) = length (log (p_store p))"
      "Read_locked ops sid mx p = (Ok None, p)"
  | (deliver) k ms where "\<not> s_done (p_heap p ! sid)" "\<not> p_closed p"
      "k = unat (s_offset (p_heap p ! sid))" "k < length (log (p_store p))"
      "ms = take (nat (sint mx)) (drop k (messages (log (p_store p))))" "ms \<noteq> []"
      "Read_locked ops sid mx p =
         (Ok (Some ms), update_sub sid (s_offset_update (\<lambda>_. int64 (k + length ms))) p)"
proof (cases "s_done (p_heap p ! sid) \<or> p_closed p")
  case True
  with sid show thesis by (intro closed) (auto simp: Read_locked_def sub_at_def)
next
  case False
  let ?off = "s_offset (p_heap p ! sid)" and ?log = "log (p_store p)"
  have inv: "inv (p_store p)" using partition_okD(1) [OF ok] .
  have fits: "fits_int64 (length ?log)" using inv_fits [OF inv] .
  have k: "unat ?off \<le> length ?log" using partition_okD(6) [OF ok sid] .
  have "?off = int64 (unat ?off)" by (simp add: int64_def)
  then have rd: "sRead ops (p_store p) ?off mx = Ok (take (nat (sint mx)) (drop (unat ?off) (messages ?log)))"
    using read_window [OF inv] window_cursor [OF k fits mx] by metis
  show thesis
  proof (cases "unat ?off = length ?log")
    case True
    with False rd sid show thesis by (intro wait) (auto simp: Read_locked_def sub_at_def)
  next
    case lt: False
    with k have "unat ?off < length ?log" by simp
    from last_window [OF this, of "nat (sint mx)"] mx False rd sid lt k show thesis
      by (intro deliver [OF _ _ refl _ refl]) (auto simp: Read_locked_def sub_at_def)
  qed
qed

lemma Read_locked_ok:
  assumes ok: "partition_ok inv log p" and sid: "sid < length (p_heap p)" and mx: "0 < sint mx"
    and r: "Read_locked ops sid mx p = (r, p')"
  shows "partition_ok inv log p' \<and> r \<noteq> Panic"
  using ok sid mx
proof (cases rule: Read_locked_cases)
  case (deliver k ms)
  let ?log = "log (p_store p)"
  have "k + length ms \<le> length ?log" using deliver by auto
  moreover from this have "unat (int64 (k + length ms)) = k + length ms"
    using fits_int64_mono inv_fits [OF partition_okD(1) [OF ok]] by simp
  ultimately show ?thesis
    using deliver r ok by (auto simp: partition_ok_def p_heap_update_sub)
qed (use r ok in auto)

end

section \<open>A batch and its messages one by one\<close>

text \<open>Publishing payloads in separate calls, with the offsets they return.\<close>

fun publish_each :: "'s store_ops \<Rightarrow> bytes list \<Rightarrow> ('s partition, gerror, i64 list) go" where
  "publish_each ops [] = greturn []"
| "publish_each ops (p # ps) =
     gbind (Partition_Publish ops p) (\<lambda>off. gbind (publish_each ops ps) (\<lambda>offs. greturn (off # offs)))"

lemma update_sub_store: "update_sub sid f (p\<lparr>p_store := st\<rparr>) = (update_sub sid f p)\<lparr>p_store := st\<rparr>"
  by (simp add: update_sub_def)

lemma signal_subs_store: "signal_subs sids (p\<lparr>p_store := st\<rparr>) = (signal_subs sids p)\<lparr>p_store := st\<rparr>"
  by (induction sids arbitrary: p) (simp_all add: update_sub_store)

text \<open>Signalling twice is signalling once: the channel has room for one token.\<close>

lemma signal_subs_idem: "signal_subs sids (signal_subs sids p) = signal_subs sids p"
proof (rule partition.equality)
  show "p_heap (signal_subs sids (signal_subs sids p)) = p_heap (signal_subs sids p)"
    by (rule nth_equalityI) (auto simp: p_heap_signal_subs)
qed simp_all

lemma publish_each_signalled:
  assumes "append_loop ops ps i base st = (Ok b, st')" and "\<not> p_closed p"
  shows "\<exists>offs. publish_each ops ps (signal_subs (p_subs p) (p\<lparr>p_store := st\<rparr>)) =
    (Ok offs, signal_subs (p_subs p) (p\<lparr>p_store := st'\<rparr>))"
  using assms
proof (induction ps arbitrary: i base st)
  case (Cons q ps)
  obtain off st1 where a: "sAppend ops q st = (Ok off, st1)"
    "append_loop ops ps (Suc i) (if i = 0 then off else base) st1 = (Ok b, st')"
    using Cons.prems(1) by (auto simp: gbind_eq_Ok)
  have "Partition_Publish ops q (signal_subs (p_subs p) (p\<lparr>p_store := st\<rparr>)) =
      (Ok off, signal_subs (p_subs p) (p\<lparr>p_store := st1\<rparr>))"
    using a(1) Cons.prems(2)
    by (simp add: Partition_Publish_def signal_subs_store signal_subs_idem)
  with Cons.IH [OF a(2) Cons.prems(2)] show ?case by (auto simp: gbind_def)
qed simp

text \<open>A batch that succeeds leaves the partition as the single calls would.\<close>

lemma publish_each_batch:
  assumes "Partition_PublishBatch ops (q # qs) p = (Ok base, p')"
  shows "\<exists>offs. publish_each ops (q # qs) p = (Ok (base # offs), p')"
proof -
  have opn: "\<not> p_closed p" using assms by (auto simp: Partition_PublishBatch_def)
  obtain st' where l: "append_loop ops (q # qs) 0 0 (p_store p) = (Ok base, st')"
    "p' = signal_subs (p_subs p) (p\<lparr>p_store := st'\<rparr>)"
    using assms opn
    by (auto simp: Partition_PublishBatch_def Let_def simp del: append_loop.simps
        split: prod.splits outcome.splits)
  then obtain off st1 where a: "sAppend ops q (p_store p) = (Ok off, st1)"
    "append_loop ops qs 1 off st1 = (Ok base, st')"
    by (auto simp: gbind_eq_Ok)
  have "append_loop ops qs (Suc i) off st1 = (Ok base, st') \<Longrightarrow> base = off" for i
    by (induction qs arbitrary: i st1) (auto simp: gbind_eq_Ok)
  then have "base = off" using a(2) by (metis One_nat_def)
  obtain offs where "publish_each ops qs (signal_subs (p_subs p) (p\<lparr>p_store := st1\<rparr>)) =
      (Ok offs, signal_subs (p_subs p) (p\<lparr>p_store := st'\<rparr>))"
    using publish_each_signalled [OF a(2) opn] by blast
  moreover have "Partition_Publish ops q p = (Ok off, signal_subs (p_subs p) (p\<lparr>p_store := st1\<rparr>))"
    using a(1) opn by (simp add: Partition_Publish_def Let_def)
  ultimately show ?thesis using l(2) \<open>base = off\<close> by (auto simp: gbind_def)
qed

end
