(* ===== verification/Broker_Subscription.thy ===== *)
theory Broker_Subscription
  imports Broker_Partition
begin

text \<open>
  \<open>broker/subscription.go\<close> under concurrency: any number of readers, one for each subscription,
  interleaved with publishers, new subscribers and closers of one partition.

  A step is one critical section under \<open>partition.mu\<close>, or one receive of the \<open>select\<close> a reader
  blocks in. \<open>w_got\<close> records what the calls of \<open>Read\<close> on a subscription have returned so far.
\<close>

section \<open>Readers and the partition they share\<close>

text \<open>
  Where the one reader of a subscription is: between calls of \<open>Read\<close>, about to take the lock, or
  blocked in the \<open>select\<close>; the value is the call's \<open>max\<close>.
\<close>

datatype reader = Idle | Checking i64 | Waiting i64

record 's world =
  w_part :: "'s partition"
  w_pc :: "nat \<Rightarrow> reader"
  w_got :: "nat \<Rightarrow> message list"

definition start_world :: "'s \<Rightarrow> 's world" where
  "start_world st = \<lparr>w_part = newPartition st, w_pc = (\<lambda>_. Idle), w_got = (\<lambda>_. [])\<rparr>"

definition set_pc :: "nat \<Rightarrow> reader \<Rightarrow> 's world \<Rightarrow> 's world" where
  "set_pc sid pc w = w\<lparr>w_pc := (w_pc w)(sid := pc)\<rparr>"

definition add_got :: "nat \<Rightarrow> message list \<Rightarrow> 's world \<Rightarrow> 's world" where
  "add_got sid ms w = w\<lparr>w_got := (w_got w)(sid := w_got w sid @ ms)\<rparr>"

text \<open>The steps of the loop in \<open>Subscription.Read\<close>, for the reader of \<open>sid\<close>.\<close>

inductive read_step :: "'s store_ops \<Rightarrow> nat \<Rightarrow> 's world \<Rightarrow> 's world \<Rightarrow> bool"
  for ops :: "'s store_ops" and sid :: nat where
  call: "w_pc w sid = Idle \<Longrightarrow> sid < length (p_heap (w_part w)) \<Longrightarrow>
     read_step ops sid w (set_pc sid (Checking (read_max mx)) w)"
| deliver: "w_pc w sid = Checking mx \<Longrightarrow> Read_locked ops sid mx (w_part w) = (Ok (Some ms), p) \<Longrightarrow>
     read_step ops sid w (set_pc sid Idle (add_got sid ms (w\<lparr>w_part := p\<rparr>)))"
| refuse: "w_pc w sid = Checking mx \<Longrightarrow> Read_locked ops sid mx (w_part w) = (Fail e, p) \<Longrightarrow>
     read_step ops sid w (set_pc sid Idle (w\<lparr>w_part := p\<rparr>))"
| park: "w_pc w sid = Checking mx \<Longrightarrow> Read_locked ops sid mx (w_part w) = (Ok None, p) \<Longrightarrow>
     read_step ops sid w (set_pc sid (Waiting mx) (w\<lparr>w_part := p\<rparr>))"
| wake_ready: "w_pc w sid = Waiting mx \<Longrightarrow> s_ready (p_heap (w_part w) ! sid) \<Longrightarrow>
     read_step ops sid w (set_pc sid (Checking mx) (w\<lparr>w_part := take_ready sid (w_part w)\<rparr>))"
| wake_done: "w_pc w sid = Waiting mx \<Longrightarrow> s_done (p_heap (w_part w) ! sid) \<Longrightarrow>
     read_step ops sid w (set_pc sid Idle w)"
| wake_ctx: "w_pc w sid = Waiting mx \<Longrightarrow> read_step ops sid w (set_pc sid Idle w)"

text \<open>
  The steps of everyone else. A publisher has memory for what it appends: the log's length stays an
  int64.
\<close>

definition has_room :: "'s store_ops \<Rightarrow> nat \<Rightarrow> 's partition \<Rightarrow> bool" where
  "has_room ops n p \<longleftrightarrow> fits_int64 (unat (sLen ops (p_store p)) + n)"

inductive other_step :: "'s store_ops \<Rightarrow> 's world \<Rightarrow> 's world \<Rightarrow> bool"
  for ops :: "'s store_ops" where
  publish: "has_room ops 1 (w_part w) \<Longrightarrow> Partition_Publish ops payload (w_part w) = (r, p) \<Longrightarrow>
     other_step ops w (w\<lparr>w_part := p\<rparr>)"
| publish_batch: "has_room ops (length payloads) (w_part w) \<Longrightarrow>
     Partition_PublishBatch ops payloads (w_part w) = (r, p) \<Longrightarrow>
     other_step ops w (w\<lparr>w_part := p\<rparr>)"
| subscribe: "Partition_Subscribe (w_part w) = (r, p) \<Longrightarrow> other_step ops w (w\<lparr>w_part := p\<rparr>)"
| close_sub: "Subscription_Close sid (w_part w) = (r, p) \<Longrightarrow> other_step ops w (w\<lparr>w_part := p\<rparr>)"
| close_part: "Partition_close (w_part w) = (r, p) \<Longrightarrow> other_step ops w (w\<lparr>w_part := p\<rparr>)"

inductive reachable :: "'s store_ops \<Rightarrow> 's \<Rightarrow> 's world \<Rightarrow> bool"
  for ops :: "'s store_ops" and st :: 's where
  start: "reachable ops st (start_world st)"
| reader: "reachable ops st w \<Longrightarrow> read_step ops sid w w' \<Longrightarrow> reachable ops st w'"
| other: "reachable ops st w \<Longrightarrow> other_step ops w w' \<Longrightarrow> reachable ops st w'"

inductive_cases read_stepE: "read_step ops sid w w'"
inductive_cases other_stepE: "other_step ops w w'"

lemma set_pc_simps [simp]:
  "w_part (set_pc sid pc w) = w_part w" "w_got (set_pc sid pc w) = w_got w"
  "w_pc (set_pc sid pc w) = (w_pc w)(sid := pc)"
  by (simp_all add: set_pc_def)

lemma add_got_simps [simp]:
  "w_part (add_got sid ms w) = w_part w" "w_pc (add_got sid ms w) = w_pc w"
  "w_got (add_got sid ms w) = (w_got w)(sid := w_got w sid @ ms)"
  by (simp_all add: add_got_def)

lemma read_max_pos [simp]: "0 < sint (read_max mx)"
  by (auto simp: read_max_def word_sle_eq)

section \<open>What every reachable world satisfies\<close>

text \<open>
  The calls of \<open>Read\<close> on a subscription have returned the log up to its cursor: every message once,
  in order, with the log's offsets, whatever the other readers do.
\<close>

definition world_ok :: "('s \<Rightarrow> bool) \<Rightarrow> ('s \<Rightarrow> bytes list) \<Rightarrow> 's world \<Rightarrow> bool" where
  "world_ok sinv slog w \<longleftrightarrow>
     (let p = w_part w in
      partition_ok sinv slog p \<and>
      (\<forall>sid<length (p_heap p).
         w_got w sid = take (unat (s_offset (p_heap p ! sid))) (messages (slog (p_store p)))) \<and>
      (\<forall>sid\<ge>length (p_heap p). w_pc w sid = Idle \<and> w_got w sid = []) \<and>
      (\<forall>sid mx. w_pc w sid = Checking mx \<or> w_pc w sid = Waiting mx \<longrightarrow> 0 < sint mx))"

text \<open>
  No wake-up is lost: a reader that waits while its subscription is open and the log is longer than
  its cursor has a token to receive.
\<close>

definition wake_ok :: "('s \<Rightarrow> bytes list) \<Rightarrow> 's world \<Rightarrow> bool" where
  "wake_ok slog w \<longleftrightarrow>
     (let p = w_part w in
      \<forall>sid mx. w_pc w sid = Waiting mx \<longrightarrow>
        s_done (p_heap p ! sid) \<or> s_ready (p_heap p ! sid) \<or>
        unat (s_offset (p_heap p ! sid)) = length (slog (p_store p)))"


lemma world_okD:
  assumes "world_ok sinv slog w"
  shows "partition_ok sinv slog (w_part w)"
    and "sid < length (p_heap (w_part w)) \<Longrightarrow>
      w_got w sid = take (unat (s_offset (p_heap (w_part w) ! sid))) (messages (slog (p_store (w_part w))))"
    and "length (p_heap (w_part w)) \<le> sid \<Longrightarrow> w_pc w sid = Idle \<and> w_got w sid = []"
    and "w_pc w sid \<noteq> Idle \<Longrightarrow> sid < length (p_heap (w_part w))"
    and "w_pc w sid = Checking mx \<Longrightarrow> 0 < sint mx"
    and "w_pc w sid = Waiting mx \<Longrightarrow> 0 < sint mx"
  using assms unfolding world_ok_def Let_def by (auto simp: not_le [symmetric] simp del: take_messages)

lemma world_okI:
  assumes "partition_ok sinv slog (w_part w)"
    and "\<And>sid. sid < length (p_heap (w_part w)) \<Longrightarrow>
      w_got w sid = take (unat (s_offset (p_heap (w_part w) ! sid))) (messages (slog (p_store (w_part w))))"
    and "\<And>sid. length (p_heap (w_part w)) \<le> sid \<Longrightarrow> w_pc w sid = Idle \<and> w_got w sid = []"
    and "\<And>sid mx. w_pc w sid = Checking mx \<Longrightarrow> 0 < sint mx"
    and "\<And>sid mx. w_pc w sid = Waiting mx \<Longrightarrow> 0 < sint mx"
  shows "world_ok sinv slog w"
  using assms unfolding world_ok_def Let_def by (auto simp del: take_messages)

section \<open>What a step of the others does to the partition\<close>

text \<open>
  The log is extended, cursors stay, \<open>done\<close> stays closed; and every open subscription is signalled
  when the log gets longer.
\<close>

definition grows :: "('s \<Rightarrow> bytes list) \<Rightarrow> 's partition \<Rightarrow> 's partition \<Rightarrow> bool" where
  "grows slog p p' \<longleftrightarrow>
     take (length (slog (p_store p))) (slog (p_store p')) = slog (p_store p) \<and>
     length (p_heap p) \<le> length (p_heap p') \<and>
     (\<forall>i<length (p_heap p). s_offset (p_heap p' ! i) = s_offset (p_heap p ! i)) \<and>
     (\<forall>i<length (p_heap p'). length (p_heap p) \<le> i \<longrightarrow> s_offset (p_heap p' ! i) = 0) \<and>
     (p_closed p \<longrightarrow> p_closed p') \<and>
     (\<forall>i<length (p_heap p). s_done (p_heap p ! i) \<longrightarrow> s_done (p_heap p' ! i))"

definition signals :: "('s \<Rightarrow> bytes list) \<Rightarrow> 's partition \<Rightarrow> 's partition \<Rightarrow> bool" where
  "signals slog p p' \<longleftrightarrow>
     (\<forall>i<length (p_heap p). s_ready (p_heap p ! i) \<longrightarrow> s_ready (p_heap p' ! i)) \<and>
     (length (slog (p_store p)) < length (slog (p_store p')) \<longrightarrow>
        (\<forall>i<length (p_heap p). s_done (p_heap p' ! i) \<or> s_ready (p_heap p' ! i)))"

lemma growsD:
  assumes "grows slog p p'"
  shows "take (length (slog (p_store p))) (slog (p_store p')) = slog (p_store p)"
    and "length (slog (p_store p)) \<le> length (slog (p_store p'))"
    and "length (p_heap p) \<le> length (p_heap p')"
    and "i < length (p_heap p) \<Longrightarrow> s_offset (p_heap p' ! i) = s_offset (p_heap p ! i)"
    and "i < length (p_heap p') \<Longrightarrow> length (p_heap p) \<le> i \<Longrightarrow> s_offset (p_heap p' ! i) = 0"
    and "p_closed p \<Longrightarrow> p_closed p'"
    and "i < length (p_heap p) \<Longrightarrow> s_done (p_heap p ! i) \<Longrightarrow> s_done (p_heap p' ! i)"
proof -
  show t: "take (length (slog (p_store p))) (slog (p_store p')) = slog (p_store p)"
    using assms by (simp add: grows_def)
  show "length (slog (p_store p)) \<le> length (slog (p_store p'))"
    using arg_cong [OF t, of length] by simp
qed (use assms in \<open>auto simp: grows_def\<close>)

lemma grows_refl: "grows slog p p"
  by (simp add: grows_def)

lemma grows_signal:
  assumes "take (length (slog (p_store p))) (slog st) = slog (p_store p)"
  shows "grows slog p (signal_subs sids (p\<lparr>p_store := st\<rparr>))"
  using assms by (simp add: grows_def p_heap_signal_subs)

lemma signals_signal:
  assumes "partition_ok sinv slog p"
  shows "signals slog p (signal_subs (p_subs p) (p\<lparr>p_store := st\<rparr>))"
  using partition_okD(4) [OF assms] by (simp add: signals_def p_heap_signal_subs)

lemma signals_same_log:
  "length (slog (p_store p')) \<le> length (slog (p_store p)) \<Longrightarrow>
   (\<And>i. i < length (p_heap p) \<Longrightarrow> s_ready (p_heap p ! i) \<Longrightarrow> s_ready (p_heap p' ! i)) \<Longrightarrow>
   signals slog p p'"
  by (simp add: signals_def)

lemma Partition_Subscribe_grows:
  assumes "Partition_Subscribe p = (r, p')"
  shows "grows slog p p'" and "signals slog p p'"
  using assms
  by (auto simp: Partition_Subscribe_def Let_def grows_def signals_def nth_append
      split: if_splits)

lemma Subscription_Close_eq:
  assumes "partition_ok sinv slog p"
  shows "Subscription_Close sid p =
    (Ok (), if sid \<in> set (p_subs p)
       then update_sub sid (s_done_update (\<lambda>_. True)) (p\<lparr>p_subs := removeAll sid (p_subs p)\<rparr>) else p)"
  by (simp add: Subscription_Close_def gbind_def unsubscribe_eq [OF assms])

lemma Subscription_Close_grows:
  assumes "partition_ok sinv slog p" and "Subscription_Close sid p = (r, p')"
  shows "grows slog p p'" and "signals slog p p'"
  using assms(2) unfolding Subscription_Close_eq [OF assms(1)]
  by (auto simp: grows_def signals_def p_heap_update_sub split: if_splits)

lemma Partition_close_grows:
  assumes "partition_ok sinv slog p" and "Partition_close p = (r, p')"
  shows "grows slog p p'" and "signals slog p p'"
  using assms(2) Partition_close_eq [OF assms(1)] by (auto simp: grows_def signals_def)

lemma world_ok_grows:
  assumes ok: "world_ok sinv slog w" and p: "partition_ok sinv slog p" and g: "grows slog (w_part w) p"
  shows "world_ok sinv slog (w\<lparr>w_part := p\<rparr>)"
proof -
  have "w_got w sid = take (unat (s_offset (p_heap p ! sid))) (messages (slog (p_store p)))"
    if sid: "sid < length (p_heap p)" for sid
  proof (cases "sid < length (p_heap (w_part w))")
    case True
    let ?l = "slog (p_store (w_part w))" and ?k = "unat (s_offset (p_heap (w_part w) ! sid))"
    have "?k \<le> length ?l" using partition_okD(6) [OF world_okD(1) [OF ok] True] .
    then have "take ?k ?l = take ?k (slog (p_store p))"
      using growsD(1) [OF g] by (metis min.absorb1 take_take)
    then show ?thesis
      using world_okD(2) [OF ok True] growsD(4) [OF g True] by simp
  next
    case False
    then show ?thesis
      using world_okD(3) [OF ok] growsD(5) [OF g sid] by simp
  qed
  then show ?thesis
    using p growsD(3) [OF g] world_okD(3,5,6) [OF ok]
    by (intro world_okI) (auto simp del: take_messages)
qed

lemma wake_ok_grows:
  assumes ok: "world_ok sinv slog w" and wake: "wake_ok slog w"
    and g: "grows slog (w_part w) p" and s: "signals slog (w_part w) p"
  shows "wake_ok slog (w\<lparr>w_part := p\<rparr>)"
  unfolding wake_ok_def Let_def
proof (intro allI impI)
  fix sid mx
  assume "w_pc (w\<lparr>w_part := p\<rparr>) sid = Waiting mx"
  then have pc: "w_pc w sid = Waiting mx" and sid: "sid < length (p_heap (w_part w))"
    using world_okD(4) [OF ok, of sid] by auto
  show "s_done (p_heap (w_part (w\<lparr>w_part := p\<rparr>)) ! sid) \<or> s_ready (p_heap (w_part (w\<lparr>w_part := p\<rparr>)) ! sid) \<or>
      unat (s_offset (p_heap (w_part (w\<lparr>w_part := p\<rparr>)) ! sid)) =
        length (slog (p_store (w_part (w\<lparr>w_part := p\<rparr>))))"
    using wake pc sid s growsD(2) [OF g] growsD(4,7) [OF g sid]
    by (auto simp: wake_ok_def signals_def Let_def order_le_less)
qed


section \<open>The invariants hold in every reachable world\<close>

lemma world_ok_start: "sinv st \<Longrightarrow> world_ok sinv slog (start_world st)"
  by (simp add: world_ok_def start_world_def partition_ok_new) (simp add: newPartition_def)

lemma wake_ok_start: "wake_ok slog (start_world st)"
  by (simp add: wake_ok_def start_world_def)

text \<open>Moving the program counter of a reader whose subscription exists.\<close>

primrec reader_ok :: "reader \<Rightarrow> bool" where
  "reader_ok Idle = True"
| "reader_ok (Checking mx) = (0 < sint mx)"
| "reader_ok (Waiting mx) = (0 < sint mx)"

lemma world_ok_set_pc:
  assumes ok: "world_ok sinv slog w" and "sid < length (p_heap (w_part w))" and "reader_ok pc"
  shows "world_ok sinv slog (set_pc sid pc w)"
proof (rule world_okI)
  fix i
  show "i < length (p_heap (w_part (set_pc sid pc w))) \<Longrightarrow> w_got (set_pc sid pc w) i =
      take (unat (s_offset (p_heap (w_part (set_pc sid pc w)) ! i)))
        (messages (slog (p_store (w_part (set_pc sid pc w)))))"
    using world_okD(2) [OF ok, of i] by simp
  show "length (p_heap (w_part (set_pc sid pc w))) \<le> i \<Longrightarrow>
      w_pc (set_pc sid pc w) i = Idle \<and> w_got (set_pc sid pc w) i = []"
    using world_okD(3) [OF ok, of i] assms(2) by simp
next
  fix i mx
  show "w_pc (set_pc sid pc w) i = Checking mx \<Longrightarrow> 0 < sint mx"
    using world_okD(5) [OF ok, of i] assms(3) by (auto split: if_splits)
  show "w_pc (set_pc sid pc w) i = Waiting mx \<Longrightarrow> 0 < sint mx"
    using world_okD(6) [OF ok, of i] assms(3) by (auto split: if_splits)
qed (simp add: world_okD(1) [OF ok])

text \<open>Delivering the messages at the cursor and moving it behind them.\<close>

lemma world_ok_deliver:
  assumes ok: "world_ok sinv slog w" and sid: "sid < length (p_heap (w_part w))"
    and p: "partition_ok sinv slog p" "p = update_sub sid (s_offset_update (\<lambda>_. off)) (w_part w)"
    and off: "unat off = unat (s_offset (p_heap (w_part w) ! sid)) + length ms"
    and ms: "w_got w sid @ ms = take (unat off) (messages (slog (p_store (w_part w))))"
  shows "world_ok sinv slog (add_got sid ms (w\<lparr>w_part := p\<rparr>))"
proof (rule world_okI)
  fix i
  show "i < length (p_heap (w_part (add_got sid ms (w\<lparr>w_part := p\<rparr>)))) \<Longrightarrow>
      w_got (add_got sid ms (w\<lparr>w_part := p\<rparr>)) i =
      take (unat (s_offset (p_heap (w_part (add_got sid ms (w\<lparr>w_part := p\<rparr>))) ! i)))
        (messages (slog (p_store (w_part (add_got sid ms (w\<lparr>w_part := p\<rparr>))))))"
    using world_okD(2) [OF ok, of i] ms p(2) by (cases "i = sid") (simp_all add: p_heap_update_sub)
  show "length (p_heap (w_part (add_got sid ms (w\<lparr>w_part := p\<rparr>)))) \<le> i \<Longrightarrow>
      w_pc (add_got sid ms (w\<lparr>w_part := p\<rparr>)) i = Idle \<and> w_got (add_got sid ms (w\<lparr>w_part := p\<rparr>)) i = []"
    using world_okD(3) [OF ok, of i] sid p(2) by auto
next
  fix i mx
  show "w_pc (add_got sid ms (w\<lparr>w_part := p\<rparr>)) i = Checking mx \<Longrightarrow> 0 < sint mx"
    using world_okD(5) [OF ok, of i] by simp
  show "w_pc (add_got sid ms (w\<lparr>w_part := p\<rparr>)) i = Waiting mx \<Longrightarrow> 0 < sint mx"
    using world_okD(6) [OF ok, of i] by simp
qed (use p in simp)

lemma world_ok_same_part: "w_part w = p \<Longrightarrow> w\<lparr>w_part := p\<rparr> = w"
  by auto

context log_store
begin

lemma has_room_fits:
  "partition_ok inv log p \<Longrightarrow> has_room ops n p \<longleftrightarrow> fits_int64 (length (log (p_store p)) + n)"
  using len_log inv_fits partition_okD(1) by (fastforce simp: has_room_def)

lemma Partition_Publish_grows:
  assumes ok: "partition_ok inv log p" and room: "has_room ops 1 p"
    and "Partition_Publish ops payload p = (r, p')"
  shows "partition_ok inv log p'" and "grows log p p'" and "signals log p p'"
proof -
  have fits: "fits_int64 (Suc (length (log (p_store p))))"
    using room by (simp add: has_room_fits [OF ok])
  show "partition_ok inv log p'"
    using Partition_Publish_ok [OF ok fits assms(3)] by simp
  from ok fits show "grows log p p'"
  proof (cases rule: Partition_Publish_cases [where payload = payload])
    case (ok st)
    with assms(3) show ?thesis by (auto intro: grows_signal)
  qed (use assms(3) in \<open>auto simp: grows_def\<close>)
  from ok fits show "signals log p p'"
  proof (cases rule: Partition_Publish_cases [where payload = payload])
    case (ok st)
    with assms(3) show ?thesis using signals_signal [OF assms(1)] by auto
  qed (use assms(3) in \<open>auto simp: signals_def\<close>)
qed

lemma Partition_PublishBatch_grows:
  assumes ok: "partition_ok inv log p" and room: "has_room ops (length payloads) p"
    and "Partition_PublishBatch ops payloads p = (r, p')"
  shows "partition_ok inv log p'" and "grows log p p'"
    and "\<not> (\<exists>e. r = Fail e) \<Longrightarrow> signals log p p'"
proof -
  have fits: "fits_int64 (length (log (p_store p)) + length payloads)"
    using room by (simp add: has_room_fits [OF ok])
  show "partition_ok inv log p'"
    using Partition_PublishBatch_ok [OF ok fits assms(3)] by simp
  from ok fits show "grows log p p'"
  proof (cases rule: Partition_PublishBatch_cases)
    case (ok st)
    with assms(3) show ?thesis by (auto intro: grows_signal)
  qed (use assms(3) in \<open>auto simp: grows_def\<close>)
  assume n: "\<not> (\<exists>e. r = Fail e)"
  from ok fits show "signals log p p'"
  proof (cases rule: Partition_PublishBatch_cases)
    case (ok st)
    with assms(3) show ?thesis using signals_signal [OF assms(1)] by auto
  qed (use assms(3) n in \<open>auto simp: signals_def\<close>)
qed

lemma PublishBatch_contiguous:
  assumes ok: "partition_ok inv log p" and room: "has_room ops (length payloads) p"
    and ne: "payloads \<noteq> []" and r: "Partition_PublishBatch ops payloads p = (Ok base, p')"
  shows "base = int64 (length (log (p_store p))) \<and> log (p_store p') = log (p_store p) @ payloads \<and>
    set (p_subs p) \<subseteq> {i. s_ready (p_heap p' ! i)}"
proof -
  have "fits_int64 (length (log (p_store p)) + length payloads)"
    using room by (simp add: has_room_fits [OF ok])
  from ok this show ?thesis
  proof (cases rule: Partition_PublishBatch_cases)
    case (ok st)
    have "s_ready (p_heap (signal_subs (p_subs p) (p\<lparr>p_store := st\<rparr>)) ! i)" if "i \<in> set (p_subs p)" for i
      using partition_okD(3) [OF assms(1) that] that by (simp add: p_heap_signal_subs)
    with ok r show ?thesis by auto
  qed (use ne r in auto)
qed

lemma PublishBatch_failure:
  assumes ok: "partition_ok inv log p" and room: "has_room ops (length payloads) p"
    and opn: "\<not> p_closed p" and r: "Partition_PublishBatch ops payloads p = (Fail e, p')"
  shows "p_heap p' = p_heap p \<and>
    log (p_store p') \<in> (\<lambda>k. log (p_store p) @ take k payloads) ` {..<length payloads}"
proof -
  have "fits_int64 (length (log (p_store p)) + length payloads)"
    using room by (simp add: has_room_fits [OF ok])
  from ok this show ?thesis
    by (cases rule: Partition_PublishBatch_cases) (use opn r in auto)
qed

lemma other_step_ok:
  assumes "other_step ops w w'" and ok: "world_ok inv log w"
  shows "world_ok inv log w' \<and> grows log (w_part w) (w_part w')"
proof -
  note p = world_okD(1) [OF ok]
  have "\<exists>p. w' = w\<lparr>w_part := p\<rparr> \<and> partition_ok inv log p \<and> grows log (w_part w) p"
    using assms(1)
  proof cases
    case (publish payload r q)
    then show ?thesis using Partition_Publish_grows [OF p] by blast
  next
    case (publish_batch payloads r q)
    then show ?thesis using Partition_PublishBatch_grows [OF p] by blast
  next
    case (subscribe r q)
    then show ?thesis
      using partition_ok_subscribe [OF p] Partition_Subscribe_grows by blast
  next
    case (close_sub sid r q)
    then have "unsubscribe sid (w_part w) = (Ok (), q)"
      using unsubscribe_eq [OF p, of sid] by (simp add: Subscription_Close_eq [OF p])
    with close_sub show ?thesis
      using partition_ok_unsubscribe [OF p] Subscription_Close_grows [OF p] by blast
  next
    case (close_part r q)
    then show ?thesis
      using partition_ok_close [OF p] Partition_close_grows [OF p] by blast
  qed
  then show ?thesis using world_ok_grows [OF ok] by auto
qed

lemma Read_locked_same:
  assumes "partition_ok inv log p" and "sid < length (p_heap p)" and "0 < sint mx"
    and "Read_locked ops sid mx p = (r, q)" and "\<not> (\<exists>ms. r = Ok (Some ms))"
  shows "q = p"
  using assms(1-3) by (cases rule: Read_locked_cases) (use assms(4,5) in auto)

text \<open>What \<open>Read\<close> returns continues what the subscription got before.\<close>

lemma read_deliver_ok:
  assumes ok: "world_ok inv log w" and pc: "w_pc w sid = Checking mx"
    and r: "Read_locked ops sid mx (w_part w) = (Ok (Some ms), q)"
  shows "world_ok inv log (add_got sid ms (w\<lparr>w_part := q\<rparr>))"
proof -
  note p = world_okD(1) [OF ok]
  have s: "sid < length (p_heap (w_part w))" and mx: "0 < sint mx"
    using world_okD(4,5) [OF ok, of sid] pc by auto
  have qok: "partition_ok inv log q" using Read_locked_ok [OF p s mx r] by simp
  from p s mx show ?thesis
  proof (cases rule: Read_locked_cases)
    case (deliver k ns)
    let ?l = "log (p_store (w_part w))"
    have q: "q = update_sub sid (s_offset_update (\<lambda>_. int64 (k + length ms))) (w_part w)" "ns = ms"
      using r deliver by auto
    have le: "k + length ms \<le> length ?l" using deliver q by auto
    then have u: "unat (int64 (k + length ms)) = k + length ms"
      using fits_int64_mono inv_fits [OF partition_okD(1) [OF p]] by simp
    have "ms = take (length ms) (drop k (messages ?l))"
      using deliver(5) q(2) by (metis length_take min.cobounded2 min.cobounded1 min_def take_all_iff take_take)
    then have "take k (messages ?l) @ ms = take (k + length ms) (messages ?l)"
      by (metis take_add)
    then have m: "w_got w sid @ ms = take (k + length ms) (messages ?l)"
      using world_okD(2) [OF ok s] deliver(3) by simp
    show ?thesis
      by (rule world_ok_deliver [OF ok s qok q(1)]) (use u deliver(3) m in simp_all)
  qed (use r in auto)
qed

lemma read_step_ok:
  assumes "read_step ops sid w w'" and ok: "world_ok inv log w"
  shows "world_ok inv log w'"
proof -
  note p = world_okD(1) [OF ok]
  note sid = world_okD(4) [OF ok, of sid] and mx = world_okD(5,6) [OF ok, of sid]
  show ?thesis
    using assms(1)
  proof cases
    case (call mx)
    then show ?thesis by (simp add: world_ok_set_pc [OF ok])
  next
    case (deliver mx ms q)
    then have "world_ok inv log (add_got sid ms (w\<lparr>w_part := q\<rparr>))"
      by (intro read_deliver_ok [OF ok])
    moreover have "length (p_heap q) = length (p_heap (w_part w))"
      using deliver by (auto simp: Read_locked_def split: outcome.splits if_splits)
    ultimately show ?thesis using deliver sid by (simp add: world_ok_set_pc)
  next
    case (refuse m e q)
    then have "q = w_part w"
      using Read_locked_same [OF p sid mx(1)] by auto
    with refuse show ?thesis
      using sid by (simp add: world_ok_same_part world_ok_set_pc [OF ok])
  next
    case (park m q)
    then have "q = w_part w"
      using Read_locked_same [OF p sid mx(1)] by auto
    with park show ?thesis
      using sid mx(1) by (simp add: world_ok_same_part world_ok_set_pc [OF ok])
  next
    case (wake_ready m)
    have g: "grows log (w_part w) (take_ready sid (w_part w))"
      by (simp add: grows_def take_ready_def p_heap_update_sub)
    have "world_ok inv log (w\<lparr>w_part := take_ready sid (w_part w)\<rparr>)"
      by (rule world_ok_grows [OF ok partition_ok_take_ready [OF p] g])
    then show ?thesis
      using wake_ready sid mx(2) by (simp add: world_ok_set_pc take_ready_def)
  qed (use sid in \<open>simp_all add: world_ok_set_pc [OF ok]\<close>)
qed

lemma reachable_world_ok:
  assumes "reachable ops st w" and "inv st"
  shows "world_ok inv log w"
  using assms(1)
  by induction (auto simp: world_ok_start [of inv, OF assms(2)] intro: read_step_ok other_step_ok [THEN conjunct1])

end

section \<open>Closing cuts a subscription off\<close>

inductive world_steps :: "'s store_ops \<Rightarrow> 's world \<Rightarrow> 's world \<Rightarrow> bool" for ops :: "'s store_ops" where
  here: "world_steps ops w w"
| by_reader: "world_steps ops w w1 \<Longrightarrow> read_step ops sid w1 w2 \<Longrightarrow> world_steps ops w w2"
| by_other: "world_steps ops w w1 \<Longrightarrow> other_step ops w1 w2 \<Longrightarrow> world_steps ops w w2"

text \<open>A subscription that is over: its \<open>done\<close> channel or its partition is closed.\<close>

definition cut_off :: "nat \<Rightarrow> 's partition \<Rightarrow> bool" where
  "cut_off sid p \<longleftrightarrow> sid < length (p_heap p) \<and> (s_done (p_heap p ! sid) \<or> p_closed p)"

lemma cut_off_grows: "grows slog p p' \<Longrightarrow> cut_off sid p \<Longrightarrow> cut_off sid p'"
  using growsD(3) [of slog p p'] growsD(6) [of slog p p'] growsD(7) [of slog p p' sid]
  by (auto simp: cut_off_def)

lemma Read_locked_cut_off:
  "cut_off sid p \<Longrightarrow> Read_locked ops sid mx p = (fail_with ErrClosed, p)"
  by (auto simp: cut_off_def Read_locked_def sub_at_def)

lemma Read_locked_keeps:
  assumes "Read_locked ops sid mx p = (r, p')"
  shows "p_closed p' = p_closed p" and "length (p_heap p') = length (p_heap p)"
    and "i < length (p_heap p) \<Longrightarrow> s_done (p_heap p' ! i) = s_done (p_heap p ! i)"
  using assms
  by (auto simp: Read_locked_def p_heap_update_sub split: outcome.splits if_splits)

lemma read_step_cut_off:
  assumes "read_step ops i w w'" and cut: "cut_off sid (w_part w)"
  shows "cut_off sid (w_part w') \<and> w_got w' sid = w_got w sid"
  using assms(1)
proof cases
  case (deliver mx ms p)
  have "i \<noteq> sid"
    using deliver(3) Read_locked_cut_off [OF cut, of ops mx] by auto
  with deliver cut Read_locked_keeps [OF deliver(3)] show ?thesis by (auto simp: cut_off_def)
next
  case (refuse mx e p)
  with cut Read_locked_keeps [OF refuse(3)] show ?thesis by (auto simp: cut_off_def)
next
  case (park mx p)
  with cut Read_locked_keeps [OF park(3)] show ?thesis by (auto simp: cut_off_def)
next
  case (wake_ready mx)
  with cut show ?thesis by (auto simp: cut_off_def take_ready_def p_heap_update_sub)
qed (use cut in auto)

context log_store
begin

lemma other_step_cut_off:
  assumes "other_step ops w w'" and "world_ok inv log w" and "cut_off sid (w_part w)"
  shows "cut_off sid (w_part w') \<and> w_got w' sid = w_got w sid"
proof -
  have "w_got w' = w_got w" using assms(1) by cases auto
  with cut_off_grows [OF conjunct2 [OF other_step_ok [OF assms(1,2)]] assms(3)] show ?thesis by simp
qed

lemma world_steps_cut_off:
  assumes "world_steps ops w w'" and "world_ok inv log w" and "cut_off sid (w_part w)"
  shows "world_ok inv log w' \<and> cut_off sid (w_part w') \<and> w_got w' sid = w_got w sid"
  using assms
proof (induction rule: world_steps.induct)
  case (by_reader w w1 i w2)
  then show ?case using read_step_cut_off [OF by_reader(2)] read_step_ok by auto
next
  case (by_other w w1 w2)
  then show ?case using other_step_cut_off [OF by_other(2)] other_step_ok by auto
qed simp

end

section \<open>No lost wake-up over a store that does not fail\<close>

text \<open>A step of one reader does not touch the subscriptions of the others.\<close>

lemma wake_ok_step:
  assumes "wake_ok slog w"
    and "\<And>i. i \<noteq> sid \<Longrightarrow> w_pc w' i = w_pc w i"
    and "\<And>i. i \<noteq> sid \<Longrightarrow> p_heap (w_part w') ! i = p_heap (w_part w) ! i"
    and "p_store (w_part w') = p_store (w_part w)"
    and "\<And>mx. w_pc w' sid = Waiting mx \<Longrightarrow>
      unat (s_offset (p_heap (w_part w') ! sid)) = length (slog (p_store (w_part w')))"
  shows "wake_ok slog w'"
  unfolding wake_ok_def Let_def
proof (intro allI impI)
  fix i mx
  assume "w_pc w' i = Waiting mx"
  with assms show "s_done (p_heap (w_part w') ! i) \<or> s_ready (p_heap (w_part w') ! i) \<or>
      unat (s_offset (p_heap (w_part w') ! i)) = length (slog (p_store (w_part w')))"
    by (cases "i = sid") (auto simp: wake_ok_def Let_def)
qed

lemma update_sub_other: "i \<noteq> sid \<Longrightarrow> p_heap (update_sub sid f p) ! i = p_heap p ! i"
  by (simp add: update_sub_def)

context reliable_store
begin

lemma append_loop_reliable:
  assumes "inv s" and "fits_int64 (length (log s) + length ps)"
  shows "\<exists>b s'. append_loop ops ps i base s = (Ok b, s')"
  using assms
proof (induction ps arbitrary: i base s)
  case (Cons p ps)
  have fits: "fits_int64 (Suc (length (log s)))"
    using Cons.prems(2) by (rule fits_int64_mono [rotated]) simp
  from Cons.prems(1) fits show ?case
  proof (rule append_reliable [where p = p])
    fix s'
    assume a: "sAppend ops p s = (Ok (int64 (length (log s))), s')" "log s' = log s @ [p]" "inv s'"
    then have "fits_int64 (length (log s') + length ps)" using Cons.prems(2) by simp
    from Cons.IH [OF a(3) this] a(1) show ?thesis by simp
  qed
qed simp

lemma Partition_PublishBatch_signals:
  assumes ok: "partition_ok inv log p" and room: "has_room ops (length payloads) p"
    and r: "Partition_PublishBatch ops payloads p = (r, p')"
  shows "signals log p p'"
proof (cases "p_closed p \<or> payloads = []")
  case True
  with r show ?thesis by (auto simp: Partition_PublishBatch_def signals_def split: if_splits)
next
  case False
  have "fits_int64 (length (log (p_store p)) + length payloads)"
    using room by (simp add: has_room_fits [OF ok])
  from append_loop_reliable [OF partition_okD(1) [OF ok] this, of 0 0] False r
  have "\<not> (\<exists>e. r = Fail e)"
    by (auto simp: Partition_PublishBatch_def Let_def)
  then show ?thesis by (rule Partition_PublishBatch_grows(3) [OF ok room r])
qed

lemma other_step_wake:
  assumes "other_step ops w w'" and ok: "world_ok inv log w" and wake: "wake_ok log w"
  shows "wake_ok log w'"
proof -
  note p = world_okD(1) [OF ok]
  note keep = wake_ok_grows [OF ok wake]
  show ?thesis
    using assms(1)
  proof cases
    case (publish payload r q)
    then show ?thesis using Partition_Publish_grows [OF p] keep by blast
  next
    case (publish_batch payloads r q)
    then show ?thesis
      using Partition_PublishBatch_grows(2) [OF p] Partition_PublishBatch_signals [OF p] keep by blast
  next
    case (subscribe r q)
    then show ?thesis using Partition_Subscribe_grows keep by blast
  next
    case (close_sub sid r q)
    then show ?thesis using Subscription_Close_grows [OF p] keep by blast
  next
    case (close_part r q)
    then show ?thesis using Partition_close_grows [OF p] keep by blast
  qed
qed

lemma read_step_wake:
  assumes "read_step ops sid w w'" and ok: "world_ok inv log w" and wake: "wake_ok log w"
  shows "wake_ok log w'"
proof -
  note p = world_okD(1) [OF ok]
  note sid = world_okD(4) [OF ok, of sid] and mx = world_okD(5,6) [OF ok, of sid]
  show ?thesis
    using assms(1)
  proof cases
    case (deliver mx ms q)
    then have "sid < length (p_heap (w_part w))" "0 < sint mx"
      using world_okD(4,5) [OF ok, of sid] by auto
    from p this have "\<exists>off. q = update_sub sid (s_offset_update (\<lambda>_. off)) (w_part w)"
      by (cases rule: Read_locked_cases) (use deliver in auto)
    with deliver show ?thesis
      by (intro wake_ok_step [OF wake, of sid]) (auto simp: update_sub_other)
  next
    case (refuse m e q)
    then have "q = w_part w"
      using Read_locked_same [OF p sid mx(1)] by auto
    with refuse show ?thesis by (intro wake_ok_step [OF wake, of sid]) auto
  next
    case (park m q)
    then have s: "sid < length (p_heap (w_part w))" "0 < sint m" using sid mx(1) by auto
    from p s have "q = w_part w \<and> unat (s_offset (p_heap (w_part w) ! sid)) = length (log (p_store (w_part w)))"
      by (cases rule: Read_locked_cases) (use park in auto)
    with park show ?thesis by (intro wake_ok_step [OF wake, of sid]) auto
  next
    case (wake_ready m)
    then show ?thesis
      by (intro wake_ok_step [OF wake, of sid]) (auto simp: take_ready_def update_sub_other)
  qed (auto intro!: wake_ok_step [OF wake, of sid])
qed

lemma reachable_wake_ok:
  assumes "reachable ops st w" and "inv st"
  shows "wake_ok log w"
  using assms(1)
proof induction
  case start
  show ?case by (rule wake_ok_start)
next
  case (reader w sid w')
  then show ?case using read_step_wake reachable_world_ok [OF _ assms(2)] by blast
next
  case (other w w')
  then show ?case using other_step_wake reachable_world_ok [OF _ assms(2)] by blast
qed

text \<open>
  A reader that waits although the log holds messages it has not seen, on a subscription that is
  open, can go on at once: it takes its token and the next critical section returns messages.
\<close>

lemma waiting_reader_delivers:
  assumes r: "reachable ops st w" and st: "inv st"
    and pc: "w_pc w sid = Waiting mx" and opn: "\<not> s_done (p_heap (w_part w) ! sid)"
    and more: "length (w_got w sid) < length (log (p_store (w_part w)))"
  shows "\<exists>w1 w2 ms. read_step ops sid w w1 \<and> read_step ops sid w1 w2 \<and> ms \<noteq> [] \<and>
    w_got w2 sid = w_got w sid @ ms"
proof -
  let ?p = "w_part w" and ?off = "s_offset (p_heap (w_part w) ! sid)"
  have ok: "world_ok inv log w" by (rule reachable_world_ok [OF r st])
  note p = world_okD(1) [OF ok]
  have sid: "sid < length (p_heap ?p)" and mx: "0 < sint mx"
    using world_okD(4,6) [OF ok, of sid] pc by auto
  have "length (w_got w sid) = unat ?off"
    using world_okD(2) [OF ok sid] partition_okD(6) [OF p sid] by simp
  then have lt: "unat ?off < length (log (p_store ?p))" using more by simp
  then have "s_ready (p_heap ?p ! sid)"
    using reachable_wake_ok [OF r st] pc opn by (auto simp: wake_ok_def Let_def)
  define w1 where "w1 = set_pc sid (Checking mx) (w\<lparr>w_part := take_ready sid ?p\<rparr>)"
  have s1: "read_step ops sid w w1"
    unfolding w1_def by (rule wake_ready) fact+
  have opn': "\<not> p_closed ?p"
    using partition_okD(4,5) [OF p] sid opn by auto
  have ok1: "partition_ok inv log (w_part w1)"
    by (simp add: w1_def partition_ok_take_ready [OF p])
  have sid1: "sid < length (p_heap (w_part w1))"
    using sid by (simp add: w1_def take_ready_def)
  from ok1 sid1 mx show ?thesis
  proof (cases rule: Read_locked_cases)
    case (deliver k ms)
    define w2 where "w2 = set_pc sid Idle (add_got sid ms (w1\<lparr>w_part :=
        update_sub sid (s_offset_update (\<lambda>_. int64 (k + length ms))) (w_part w1)\<rparr>))"
    have "w_pc w1 sid = Checking mx" by (simp add: w1_def)
    then have "read_step ops sid w1 w2"
      unfolding w2_def by (rule read_step.deliver) (rule deliver(7))
    moreover have "w_got w2 sid = w_got w sid @ ms" by (simp add: w2_def w1_def)
    ultimately show ?thesis using s1 deliver(6) by blast
  qed (use lt opn opn' sid in \<open>auto simp: w1_def take_ready_def p_heap_update_sub\<close>)
qed

end

end
