(* ===== verification/Broker_Core.thy ===== *)
theory Broker_Core
  imports Broker_Subscription "HOL-Library.List_Lexorder"
begin

text \<open>
  \<open>broker/broker.go\<close>: topic names, the broker's options, the topics and their partitions, and the
  broker's operations, each run to its end.

  A topic's partition outlives its entry of \<open>b_topics\<close> (an operation may hold it when the broker
  is closed), so the broker carries the heap of the partitions it has made; an entry of \<open>b_topics\<close>
  is a pointer into it. \<open>b_topics\<close> lists the map's entries in the order an iteration meets them.

  The store factory is code of the user: its \<open>n\<close>-th call returns \<open>f n\<close>, where \<open>None\<close> is the nil
  interface, and the stores of the user run with the methods \<open>fops\<close>.
\<close>

section \<open>Stores of the broker and stores of the user\<close>

datatype 'x store = MemLog memoryLog | Foreign 'x

definition map_store :: "('a \<Rightarrow> 'b) \<Rightarrow> ('e, 'r) outcome \<times> 'a \<Rightarrow> ('e, 'r) outcome \<times> 'b" where
  "map_store f x = (fst x, f (snd x))"

primrec store_Append :: "'x store_ops \<Rightarrow> bytes \<Rightarrow> 'x store \<Rightarrow> i64 result \<times> 'x store" where
  "store_Append fops p (MemLog m) = map_store MemLog (sAppend memoryLog_ops p m)"
| "store_Append fops p (Foreign x) = map_store Foreign (sAppend fops p x)"

primrec store_Read :: "'x store_ops \<Rightarrow> 'x store \<Rightarrow> i64 \<Rightarrow> i64 \<Rightarrow> message list result" where
  "store_Read fops (MemLog m) = sRead memoryLog_ops m"
| "store_Read fops (Foreign x) = sRead fops x"

primrec store_Len :: "'x store_ops \<Rightarrow> 'x store \<Rightarrow> i64" where
  "store_Len fops (MemLog m) = sLen memoryLog_ops m"
| "store_Len fops (Foreign x) = sLen fops x"

definition dispatch :: "'x store_ops \<Rightarrow> 'x store store_ops" where
  "dispatch fops = \<lparr>sAppend = store_Append fops, sRead = store_Read fops, sLen = store_Len fops\<rparr>"

primrec store_log :: "('x \<Rightarrow> bytes list) \<Rightarrow> 'x store \<Rightarrow> bytes list" where
  "store_log flog (MemLog m) = memoryLog_log m"
| "store_log flog (Foreign x) = flog x"

primrec store_inv :: "('x \<Rightarrow> bool) \<Rightarrow> 'x store \<Rightarrow> bool" where
  "store_inv finv (MemLog m) = memoryLog_inv m"
| "store_inv finv (Foreign x) = finv x"

lemma dispatch_simps [simp]:
  "sAppend (dispatch fops) p (MemLog m) = map_store MemLog (sAppend memoryLog_ops p m)"
  "sAppend (dispatch fops) p (Foreign x) = map_store Foreign (sAppend fops p x)"
  "sRead (dispatch fops) (MemLog m) = sRead memoryLog_ops m"
  "sRead (dispatch fops) (Foreign x) = sRead fops x"
  "sLen (dispatch fops) (MemLog m) = sLen memoryLog_ops m"
  "sLen (dispatch fops) (Foreign x) = sLen fops x"
  by (simp_all add: dispatch_def)

lemma map_store_eq: "map_store f x = (r, s) \<longleftrightarrow> (\<exists>t. x = (r, t) \<and> s = f t)"
  by (cases x) (auto simp: map_store_def)

text \<open>A broker whose user's stores keep the contract has stores that keep it.\<close>

locale user_store = usr: log_store fops flog finv
  for fops :: "'x store_ops" and flog :: "'x \<Rightarrow> bytes list" and finv :: "'x \<Rightarrow> bool"

sublocale user_store \<subseteq> st: log_store "dispatch fops" "store_log flog" "store_inv finv"
proof
  fix s s' :: "'x store" and p off e "from" mx
  show "store_inv finv s \<Longrightarrow> fits_int64 (Suc (length (store_log flog s))) \<Longrightarrow>
      sAppend (dispatch fops) p s = (Ok off, s') \<Longrightarrow>
      off = int64 (length (store_log flog s)) \<and> store_log flog s' = store_log flog s @ [p] \<and> store_inv finv s'"
    by (cases s) (auto simp: map_store_eq dest: mem.append_ok usr.append_ok)
  show "store_inv finv s \<Longrightarrow> sAppend (dispatch fops) p s = (Fail e, s') \<Longrightarrow>
      store_log flog s' = store_log flog s \<and> store_inv finv s'"
    by (cases s) (auto simp: map_store_eq dest: mem.append_fail usr.append_fail)
  show "store_inv finv s \<Longrightarrow> fst (sAppend (dispatch fops) p s) \<noteq> Panic"
    by (cases s) (auto simp: map_store_def mem.append_no_panic usr.append_no_panic)
  show "store_inv finv s \<Longrightarrow> sRead (dispatch fops) s from mx = Ok (window (store_log flog s) from mx)"
    by (cases s) (auto simp: mem.read_window usr.read_window)
  show "store_inv finv s \<Longrightarrow> sLen (dispatch fops) s = int64 (length (store_log flog s))"
    by (cases s) (auto simp: mem.len_log usr.len_log)
  show "store_inv finv s \<Longrightarrow> fits_int64 (length (store_log flog s))"
    by (cases s) (auto simp: mem.inv_fits usr.inv_fits)
qed

interpretation mem_user: user_store memoryLog_ops memoryLog_log memoryLog_inv
  by unfold_locales

text \<open>And a user's store that never refuses an append makes a broker that never does.\<close>

locale reliable_user_store = usr: reliable_store fops flog finv
  for fops :: "'x store_ops" and flog :: "'x \<Rightarrow> bytes list" and finv :: "'x \<Rightarrow> bool"

sublocale reliable_user_store \<subseteq> user_store fops flog finv
  by unfold_locales

sublocale reliable_user_store \<subseteq> rst: reliable_store "dispatch fops" "store_log flog" "store_inv finv"
proof
  fix s :: "'x store" and p
  show "store_inv finv s \<Longrightarrow> \<exists>off s'. sAppend (dispatch fops) p s = (Ok off, s')"
    by (cases s) (auto simp: map_store_def dest: mem.append_total [of _ p] usr.append_total [of _ p])
qed

interpretation mem_rel: reliable_user_store memoryLog_ops memoryLog_log memoryLog_inv
  by unfold_locales

section \<open>Topic names\<close>

definition MaxTopicNameLen :: nat where
  "MaxTopicNameLen = 255"

text \<open>The loop over the bytes of the name, from index \<open>i\<close>.\<close>

fun check_bytes :: "nat \<Rightarrow> gostring \<Rightarrow> unit result" where
  "check_bytes i [] = Ok ()"
| "check_bytes i (b # bs) =
     (if b < 0x20 \<or> b = 0x7F then Fail (Wrap (ControlAt i) (Sentinel ErrInvalidTopicName))
      else check_bytes (Suc i) bs)"

definition ValidateTopicName :: "gostring \<Rightarrow> unit result" where
  "ValidateTopicName name =
     (if name = [] then fail_with ErrTopicNameEmpty
      else if length name > MaxTopicNameLen
      then Fail (Wrap (NameLength (length name) MaxTopicNameLen) (Sentinel ErrTopicNameTooLong))
      else check_bytes 0 name)"

section \<open>The broker and its options\<close>

record 'x broker =
  b_closed :: bool
  b_topics :: "(gostring \<times> nat) list"
  b_newStore :: "(nat \<Rightarrow> 'x store option) option"
  b_calls :: nat
  b_maxTopics :: int
  b_parts :: "'x store partition list"

type_synonym 'x broker_option = "'x broker \<Rightarrow> 'x broker"

definition WithStoreFactory :: "(nat \<Rightarrow> 'x store option) option \<Rightarrow> 'x broker_option" where
  "WithStoreFactory f b = b\<lparr>b_newStore := f\<rparr>"

definition WithMaxTopics :: "int \<Rightarrow> 'x broker_option" where
  "WithMaxTopics n b = b\<lparr>b_maxTopics := n\<rparr>"

definition memory_factory :: "nat \<Rightarrow> 'x store option" where
  "memory_factory n = Some (MemLog newMemoryLog)"

definition New :: "'x broker_option list \<Rightarrow> 'x broker" where
  "New opts =
     (let b = \<lparr>b_closed = False, b_topics = [], b_newStore = Some memory_factory, b_calls = 0,
               b_maxTopics = 0, b_parts = []\<rparr>;
          b = fold (\<lambda>opt. opt) opts b in
      case b_newStore b of
        None \<Rightarrow> b\<lparr>b_newStore := Some memory_factory\<rparr>
      | Some f \<Rightarrow> b)"

section \<open>Topics\<close>

text \<open>Calling the factory; calling a nil function value panics.\<close>

definition call_factory :: "('x broker, gerror, 'x store option) go" where
  "call_factory b =
     (case b_newStore b of
        None \<Rightarrow> (Panic, b)
      | Some f \<Rightarrow> (Ok (f (b_calls b)), b\<lparr>b_calls := Suc (b_calls b)\<rparr>))"

definition CreateTopic :: "gostring \<Rightarrow> ('x broker, gerror, unit) go" where
  "CreateTopic name b =
     (if b_closed b then (Fail (Wrap (AtTopic (ascii ''create'') name) (Sentinel ErrClosed)), b)
      else case ValidateTopicName name of
        Fail e \<Rightarrow> (Fail e, b)
      | Panic \<Rightarrow> (Panic, b)
      | Ok _ \<Rightarrow>
          (if name \<in> fst ` set (b_topics b) then (fail_with ErrTopicExists, b)
           else if b_maxTopics b > 0 \<and> len (b_topics b) \<ge> b_maxTopics b
           then (Fail (Wrap (AtTopic (ascii ''create'') name) (Sentinel ErrTooManyTopics)), b)
           else gbind call_factory (\<lambda>store.
             case store of
               None \<Rightarrow> gfail (NewError (ascii ''broker: store factory returned nil''))
             | Some st \<Rightarrow> (\<lambda>b. (Ok (), b\<lparr>b_topics := b_topics b @ [(name, length (b_parts b))],
                 b_parts := b_parts b @ [newPartition st]\<rparr>))) b))"

definition lookup_topic :: "gostring \<Rightarrow> 'x broker \<Rightarrow> nat result" where
  "lookup_topic name b =
     (if b_closed b then fail_with ErrClosed
      else case map_of (b_topics b) name of
        None \<Rightarrow> fail_with ErrTopicNotFound
      | Some t \<Rightarrow> Ok t)"

definition wrapClosed :: "gostring \<Rightarrow> gostring \<Rightarrow> gerror \<Rightarrow> gerror" where
  "wrapClosed what name e = (if errors_is e ErrClosed then Wrap (AtTopic what name) e else e)"

text \<open>A method of the partition behind a pointer.\<close>

definition on_part :: "nat \<Rightarrow> ('x store partition, gerror, 'a) go \<Rightarrow> ('x broker, gerror, 'a) go" where
  "on_part t m b =
     (if t < length (b_parts b)
      then (case m (b_parts b ! t) of (r, p) \<Rightarrow> (r, b\<lparr>b_parts := (b_parts b)[t := p]\<rparr>))
      else (Panic, b))"

text \<open>
  The shape of the operations on a topic: look the topic up under the broker's lock, release it,
  then call the method of its partition.
\<close>

definition at_topic ::
    "gostring \<Rightarrow> gostring \<Rightarrow> ('x store partition, gerror, 'a) go \<Rightarrow> ('x broker, gerror, 'a) go" where
  "at_topic what name m b =
     (case lookup_topic name b of
        Fail e \<Rightarrow> (Fail (wrapClosed what name e), b)
      | Panic \<Rightarrow> (Panic, b)
      | Ok t \<Rightarrow> on_part t m b)"

definition Broker_Publish :: "'x store_ops \<Rightarrow> gostring \<Rightarrow> bytes \<Rightarrow> ('x broker, gerror, i64) go" where
  "Broker_Publish fops name payload =
     at_topic (ascii ''publish to'') name (Partition_Publish (dispatch fops) payload)"

definition Broker_PublishBatch ::
    "'x store_ops \<Rightarrow> gostring \<Rightarrow> bytes list \<Rightarrow> ('x broker, gerror, i64) go" where
  "Broker_PublishBatch fops name payloads =
     at_topic (ascii ''publish to'') name (Partition_PublishBatch (dispatch fops) payloads)"

text \<open>A subscription is its partition and its place in the partition's heap.\<close>

definition Broker_Subscribe :: "gostring \<Rightarrow> ('x broker, gerror, nat \<times> nat) go" where
  "Broker_Subscribe name b =
     (case lookup_topic name b of
        Fail e \<Rightarrow> (Fail (wrapClosed (ascii ''subscribe to'') name e), b)
      | Panic \<Rightarrow> (Panic, b)
      | Ok t \<Rightarrow> gbind (on_part t Partition_Subscribe) (\<lambda>sid. greturn (t, sid)) b)"

definition SubscriberCount :: "gostring \<Rightarrow> ('x broker, gerror, nat) go" where
  "SubscriberCount name =
     at_topic (ascii ''count subscribers of'') name (\<lambda>p. (Ok (subscriberCount p), p))"

definition ListTopics :: "'x broker \<Rightarrow> gostring list result" where
  "ListTopics b =
     (if b_closed b then Fail (Wrap (Prefix (ascii ''broker: list topics'')) (Sentinel ErrClosed))
      else Ok (sort (map fst (b_topics b))))"

definition TopicCount :: "'x broker \<Rightarrow> nat result" where
  "TopicCount b =
     (if b_closed b then Fail (Wrap (Prefix (ascii ''broker: topic count'')) (Sentinel ErrClosed))
      else Ok (length (b_topics b)))"

fun close_topics :: "(gostring \<times> nat) list \<Rightarrow> ('x broker, gerror, unit) go" where
  "close_topics [] = greturn ()"
| "close_topics (nt # nts) = gbind (on_part (snd nt) Partition_close) (\<lambda>_. close_topics nts)"

definition Broker_Close :: "('x broker, gerror, unit) go" where
  "Broker_Close b =
     (if b_closed b then (Ok (), b)
      else let b = b\<lparr>b_closed := True\<rparr> in
        gbind (close_topics (b_topics b)) (\<lambda>_ b. (Ok (), b\<lparr>b_topics := []\<rparr>)) b)"

end
