(* ===== verification/Broker_Facts.thy ===== *)
theory Broker_Facts
  imports Broker_Core
begin

text \<open>
  The broker's invariant, kept by every operation; what each operation does on each branch; the
  steps of operations that overlap, and the abstract broker its operations refine.
\<close>

section \<open>Topic names\<close>

definition control :: "byte \<Rightarrow> bool" where
  "control b \<longleftrightarrow> b < 0x20 \<or> b = 0x7F"

definition valid_name :: "gostring \<Rightarrow> bool" where
  "valid_name name \<longleftrightarrow> name \<noteq> [] \<and> length name \<le> 255 \<and> (\<forall>b\<in>set name. \<not> control b)"

lemma check_bytes_cases:
  "check_bytes i bs =
     (if \<forall>b\<in>set bs. \<not> control b then Ok ()
      else Fail (Wrap (ControlAt (i + length (takeWhile (\<lambda>b. \<not> control b) bs))) (Sentinel ErrInvalidTopicName)))"
  by (induction bs arbitrary: i) (auto simp: control_def)

lemma ValidateTopicName_eq_Ok: "ValidateTopicName name = Ok u \<longleftrightarrow> valid_name name"
  by (auto simp: ValidateTopicName_def valid_name_def check_bytes_cases MaxTopicNameLen_def split: if_splits)

lemma ValidateTopicName_no_panic [simp]: "ValidateTopicName name \<noteq> Panic"
  by (auto simp: ValidateTopicName_def check_bytes_cases)

section \<open>The invariant\<close>

definition factory_ok :: "('x \<Rightarrow> bool) \<Rightarrow> 'x broker \<Rightarrow> bool" where
  "factory_ok finv b \<longleftrightarrow>
     (case b_newStore b of None \<Rightarrow> False
      | Some f \<Rightarrow> \<forall>n. case f n of None \<Rightarrow> True | Some st \<Rightarrow> store_inv finv st)"

definition broker_ok :: "('x \<Rightarrow> bool) \<Rightarrow> ('x \<Rightarrow> bytes list) \<Rightarrow> 'x broker \<Rightarrow> bool" where
  "broker_ok finv flog b \<longleftrightarrow>
     distinct (map fst (b_topics b)) \<and> distinct (map snd (b_topics b)) \<and>
     (\<forall>nt\<in>set (b_topics b). valid_name (fst nt) \<and> snd nt < length (b_parts b)) \<and>
     (b_maxTopics b > 0 \<longrightarrow> len (b_topics b) \<le> b_maxTopics b) \<and>
     (\<forall>p\<in>set (b_parts b). partition_ok (store_inv finv) (store_log flog) p \<and> (p_closed p \<longleftrightarrow> b_closed b)) \<and>
     (if b_closed b then b_topics b = [] else snd ` set (b_topics b) = {..<length (b_parts b)}) \<and>
     factory_ok finv b"

lemma broker_okD:
  assumes "broker_ok finv flog b"
  shows "distinct (map fst (b_topics b))" and "distinct (map snd (b_topics b))"
    and "map_of (b_topics b) name = Some t \<Longrightarrow> valid_name name \<and> t < length (b_parts b)"
    and "b_maxTopics b > 0 \<Longrightarrow> len (b_topics b) \<le> b_maxTopics b"
    and "t < length (b_parts b) \<Longrightarrow> partition_ok (store_inv finv) (store_log flog) (b_parts b ! t)"
    and "t < length (b_parts b) \<Longrightarrow> p_closed (b_parts b ! t) \<longleftrightarrow> b_closed b"
    and "b_closed b \<Longrightarrow> b_topics b = []" and "factory_ok finv b"
    and "\<not> b_closed b \<Longrightarrow> snd ` set (b_topics b) = {..<length (b_parts b)}"
  using assms unfolding broker_ok_def by (auto dest!: map_of_SomeD)

lemma New_shape:
  assumes "\<forall>opt\<in>set opts. (\<exists>f. opt = WithStoreFactory f \<and>
      (case f of None \<Rightarrow> True | Some g \<Rightarrow> \<forall>n. case g n of None \<Rightarrow> True | Some st \<Rightarrow> store_inv finv st)) \<or>
      (\<exists>n. opt = WithMaxTopics n)"
  shows "broker_ok finv flog (New opts)"
proof -
  define I where "I b \<longleftrightarrow> \<not> b_closed b \<and> b_topics b = [] \<and> b_parts b = [] \<and>
    (case b_newStore b of None \<Rightarrow> True
     | Some g \<Rightarrow> \<forall>n. case g n of None \<Rightarrow> True | Some st \<Rightarrow> store_inv finv st)" for b :: "'a broker"
  have "I (fold (\<lambda>opt. opt) opts b)" if "I b" for b
    using that assms
  proof (induction opts arbitrary: b)
    case (Cons opt opts)
    then have "I (opt b)" by (auto simp: I_def WithStoreFactory_def WithMaxTopics_def)
    with Cons show ?case by simp
  qed simp
  moreover have "I \<lparr>b_closed = False, b_topics = [], b_newStore = Some memory_factory, b_calls = 0,
               b_maxTopics = 0, b_parts = []\<rparr>"
    by (simp add: I_def memory_factory_def)
  ultimately have "I (fold (\<lambda>opt. opt) opts \<lparr>b_closed = False, b_topics = [],
      b_newStore = Some memory_factory, b_calls = 0, b_maxTopics = 0, b_parts = []\<rparr>)" .
  then show ?thesis
    by (auto simp: New_def Let_def I_def broker_ok_def factory_ok_def memory_factory_def split: option.splits)
qed

section \<open>Operations on a topic\<close>

lemma lookup_topic_cases:
  obtains (closed) "b_closed b" "lookup_topic name b = fail_with ErrClosed"
  | (missing) "\<not> b_closed b" "map_of (b_topics b) name = None" "lookup_topic name b = fail_with ErrTopicNotFound"
  | (found) t where "\<not> b_closed b" "map_of (b_topics b) name = Some t" "lookup_topic name b = Ok t"
  by (cases "b_closed b"; cases "map_of (b_topics b) name") (auto simp: lookup_topic_def)

lemma at_topic_cases:
  assumes "broker_ok finv flog b"
  obtains (closed) "b_closed b" "at_topic what name m b = (Fail (Wrap (AtTopic what name) (Sentinel ErrClosed)), b)"
  | (missing) "\<not> b_closed b" "map_of (b_topics b) name = None" "at_topic what name m b = (fail_with ErrTopicNotFound, b)"
  | (found) t r p where "\<not> b_closed b" "map_of (b_topics b) name = Some t" "t < length (b_parts b)"
      "m (b_parts b ! t) = (r, p)" "at_topic what name m b = (r, b\<lparr>b_parts := (b_parts b)[t := p]\<rparr>)"
proof (cases rule: lookup_topic_cases [where b = b and name = name])
  case closed
  then show thesis by (intro that(1)) (simp_all add: at_topic_def wrapClosed_def)
next
  case missing
  then show thesis by (intro that(2)) (simp_all add: at_topic_def wrapClosed_def)
next
  case (found t)
  obtain r p where "m (b_parts b ! t) = (r, p)" by force
  with found broker_okD(3) [OF assms found(2)] show thesis
    by (intro that(3)) (auto simp: at_topic_def on_part_def)
qed

text \<open>A method of a partition that keeps its invariant and does not close it keeps the broker's.\<close>

lemma broker_ok_part:
  assumes ok: "broker_ok finv flog b" and t: "t < length (b_parts b)"
    and p: "partition_ok (store_inv finv) (store_log flog) p" "p_closed p \<longleftrightarrow> p_closed (b_parts b ! t)"
  shows "broker_ok finv flog (b\<lparr>b_parts := (b_parts b)[t := p]\<rparr>)"
proof -
  have "p_closed p \<longleftrightarrow> b_closed b" using broker_okD(6) [OF ok t] p by simp
  then have "\<forall>q\<in>set ((b_parts b)[t := p]).
      partition_ok (store_inv finv) (store_log flog) q \<and> (p_closed q \<longleftrightarrow> b_closed b)"
    using ok p set_update_subset_insert [of "b_parts b" t p] by (auto simp: broker_ok_def)
  then show ?thesis using ok by (auto simp: broker_ok_def factory_ok_def)
qed

lemma broker_ok_on_part:
  assumes ok: "broker_ok finv flog b" and r: "on_part t m b = (r, b')"
    and m: "\<And>r p'. t < length (b_parts b) \<Longrightarrow> m (b_parts b ! t) = (r, p') \<Longrightarrow>
      partition_ok (store_inv finv) (store_log flog) p' \<and> (p_closed p' \<longleftrightarrow> p_closed (b_parts b ! t))"
  shows "broker_ok finv flog b'"
proof (cases "t < length (b_parts b)")
  case True
  obtain q p where "m (b_parts b ! t) = (q, p)" by force
  with True r m [OF True this] show ?thesis
    by (auto simp: on_part_def intro!: broker_ok_part [OF ok])
next
  case False
  with ok r show ?thesis by (auto simp: on_part_def)
qed

section \<open>Creating a topic\<close>

lemma CreateTopic_cases:
  assumes "broker_ok finv flog b"
  obtains (closed) "b_closed b"
      "CreateTopic name b = (Fail (Wrap (AtTopic (ascii ''create'') name) (Sentinel ErrClosed)), b)"
  | (invalid) e where "\<not> b_closed b" "ValidateTopicName name = Fail e" "\<not> valid_name name"
      "CreateTopic name b = (Fail e, b)"
  | (exists) "\<not> b_closed b" "valid_name name" "name \<in> fst ` set (b_topics b)"
      "CreateTopic name b = (fail_with ErrTopicExists, b)"
  | (full) "\<not> b_closed b" "valid_name name" "name \<notin> fst ` set (b_topics b)"
      "b_maxTopics b > 0" "len (b_topics b) \<ge> b_maxTopics b"
      "CreateTopic name b = (Fail (Wrap (AtTopic (ascii ''create'') name) (Sentinel ErrTooManyTopics)), b)"
  | (nil) f where "\<not> b_closed b" "valid_name name" "name \<notin> fst ` set (b_topics b)"
      "b_newStore b = Some f" "f (b_calls b) = None"
      "CreateTopic name b = (Fail (NewError (ascii ''broker: store factory returned nil'')),
         b\<lparr>b_calls := Suc (b_calls b)\<rparr>)"
  | (ok) f st where "\<not> b_closed b" "valid_name name" "name \<notin> fst ` set (b_topics b)"
      "\<not> (b_maxTopics b > 0 \<and> len (b_topics b) \<ge> b_maxTopics b)"
      "b_newStore b = Some f" "f (b_calls b) = Some st" "store_inv finv st"
      "CreateTopic name b = (Ok (), b\<lparr>b_calls := Suc (b_calls b),
         b_topics := b_topics b @ [(name, length (b_parts b))], b_parts := b_parts b @ [newPartition st]\<rparr>)"
proof (cases "b_closed b \<or> \<not> valid_name name \<or> name \<in> fst ` set (b_topics b) \<or>
    b_maxTopics b > 0 \<and> len (b_topics b) \<ge> b_maxTopics b")
  case False
  then have v: "ValidateTopicName name = Ok ()" using ValidateTopicName_eq_Ok by blast
  obtain f where f: "b_newStore b = Some f" "\<And>n st. f n = Some st \<Longrightarrow> store_inv finv st"
    using broker_okD(8) [OF assms] by (fastforce simp: factory_ok_def split: option.splits)
  show thesis
  proof (cases "f (b_calls b)")
    case None
    with False v f show thesis
      by (intro nil [of f]) (auto simp: CreateTopic_def call_factory_def gbind_def)
  next
    case (Some st)
    with False v f show thesis
      by (intro ok [of f st]) (auto simp: CreateTopic_def call_factory_def gbind_def)
  qed
next
  case True
  show thesis
  proof (cases "ValidateTopicName name")
    case (Ok u)
    then have v: "ValidateTopicName name = Ok ()" "valid_name name" using ValidateTopicName_eq_Ok by auto
    consider "b_closed b" | "\<not> b_closed b" "name \<in> fst ` set (b_topics b)"
      | "\<not> b_closed b" "name \<notin> fst ` set (b_topics b)" "b_maxTopics b > 0" "len (b_topics b) \<ge> b_maxTopics b"
      using True \<open>valid_name name\<close> by blast
    then show thesis
    proof cases
      case 1
      then show thesis by (intro closed) (simp_all add: CreateTopic_def)
    next
      case 2
      with v show thesis by (intro exists) (simp_all add: CreateTopic_def)
    next
      case 3
      with v show thesis by (intro full) (simp_all add: CreateTopic_def)
    qed
  next
    case (Fail e)
    then have "\<not> valid_name name" using ValidateTopicName_eq_Ok by (metis outcome.distinct(1))
    with Fail show thesis
      by (cases "b_closed b") (auto simp: CreateTopic_def intro: closed invalid)
  qed simp
qed

lemma broker_ok_CreateTopic:
  assumes ok: "broker_ok finv flog b" and r: "CreateTopic name b = (r, b')"
  shows "broker_ok finv flog b' \<and> r \<noteq> Panic"
  using ok
proof (cases rule: CreateTopic_cases [where name = name])
  case (ok f st)
  have "snd nt < length (b_parts b)" if "nt \<in> set (b_topics b)" for nt
    using that assms(1) by (auto simp: broker_ok_def)
  then have "distinct (map snd (b_topics b @ [(name, length (b_parts b))]))"
    using broker_okD(2) [OF assms(1)] by fastforce
  with ok r assms(1) show ?thesis
    by (auto simp: broker_ok_def factory_ok_def partition_ok_new [unfolded newPartition_def] newPartition_def lessThan_Suc)
qed (use r ok in \<open>auto simp: broker_ok_def factory_ok_def\<close>)

section \<open>Closing the broker\<close>

definition closed_part :: "'s partition \<Rightarrow> 's partition" where
  "closed_part p = snd (Partition_close p)"

lemma Partition_close_closed_part:
  "partition_ok sinv slog p \<Longrightarrow> Partition_close p = (Ok (), closed_part p)"
  using Partition_close_eq by (fastforce simp: closed_part_def)

lemma closed_part_facts:
  assumes "partition_ok sinv slog p"
  shows "partition_ok sinv slog (closed_part p)" and "p_closed (closed_part p)"
    and "p_store (closed_part p) = p_store p" and "p_subs (closed_part p) = []"
  using partition_ok_close [OF assms Partition_close_closed_part [OF assms]]
    Partition_close_eq [OF assms] Partition_close_closed_part [OF assms] by auto

lemma close_topics_eq:
  assumes "distinct (map snd nts)"
    and "\<forall>nt\<in>set nts. snd nt < length (b_parts b)"
    and "\<forall>nt\<in>set nts. partition_ok sinv slog (b_parts b ! snd nt)"
  shows "\<exists>ps. close_topics nts b = (Ok (), b\<lparr>b_parts := ps\<rparr>) \<and> length ps = length (b_parts b) \<and>
    (\<forall>t<length (b_parts b). ps ! t =
       (if t \<in> snd ` set nts then closed_part (b_parts b ! t) else b_parts b ! t))"
  using assms
proof (induction nts arbitrary: b)
  case Nil
  then show ?case by (intro exI [of _ "b_parts b"]) simp
next
  case (Cons nt nts)
  define t where "t = snd nt"
  define b1 where "b1 = b\<lparr>b_parts := (b_parts b)[t := closed_part (b_parts b ! t)]\<rparr>"
  have "Partition_close (b_parts b ! t) = (Ok (), closed_part (b_parts b ! t))"
    using Cons.prems(3) by (intro Partition_close_closed_part) (auto simp: t_def)
  then have step: "close_topics (nt # nts) b = close_topics nts b1"
    using Cons.prems(2) by (simp add: gbind_def on_part_def b1_def t_def)
  have "t \<notin> snd ` set nts" using Cons.prems(1) by (simp add: t_def)
  then have "t \<noteq> snd n" if "n \<in> set nts" for n
    using that by blast
  then have "b_parts b1 ! snd n = b_parts b ! snd n" if "n \<in> set nts" for n
    using that by (simp add: b1_def)
  then have "distinct (map snd nts)" "\<forall>nt\<in>set nts. snd nt < length (b_parts b1)"
    "\<forall>nt\<in>set nts. partition_ok sinv slog (b_parts b1 ! snd nt)"
    using Cons.prems by (auto simp: b1_def)
  from Cons.IH [OF this] obtain ps where ps: "close_topics nts b1 = (Ok (), b1\<lparr>b_parts := ps\<rparr>)"
    "length ps = length (b_parts b)"
    and nth: "\<And>i. i < length (b_parts b) \<Longrightarrow> ps ! i =
       (if i \<in> snd ` set nts then closed_part (b_parts b1 ! i) else b_parts b1 ! i)"
    by (auto simp: b1_def)
  have b1: "b_parts b1 ! i = (if i = t then closed_part (b_parts b ! i) else b_parts b ! i)"
    if "i < length (b_parts b)" for i
    using that by (simp add: b1_def nth_list_update)
  have "ps ! i = (if i \<in> snd ` set (nt # nts) then closed_part (b_parts b ! i) else b_parts b ! i)"
    if "i < length (b_parts b)" for i
    using \<open>t \<notin> _\<close> nth [OF that] b1 [OF that] by (auto simp: t_def)
  then show ?case
    using ps unfolding step by (intro exI [of _ ps]) (simp add: b1_def)
qed

lemma Broker_Close_eq:
  assumes ok: "broker_ok finv flog b"
  shows "Broker_Close b =
    (Ok (), if b_closed b then b
       else b\<lparr>b_closed := True, b_topics := [], b_parts := map closed_part (b_parts b)\<rparr>)"
proof (cases "b_closed b")
  case True
  then show ?thesis by (simp add: Broker_Close_def)
next
  case False
  let ?b = "b\<lparr>b_closed := True\<rparr>"
  have snds: "snd ` set (b_topics b) = {..<length (b_parts b)}" using broker_okD(9) [OF ok False] .
  have "\<exists>ps. close_topics (b_topics b) ?b = (Ok (), ?b\<lparr>b_parts := ps\<rparr>) \<and> length ps = length (b_parts ?b) \<and>
    (\<forall>t<length (b_parts ?b). ps ! t =
       (if t \<in> snd ` set (b_topics b) then closed_part (b_parts ?b ! t) else b_parts ?b ! t))"
    using ok by (intro close_topics_eq [where sinv = "store_inv finv" and slog = "store_log flog"])
      (auto simp: broker_ok_def)
  then obtain ps where ps: "close_topics (b_topics b) ?b = (Ok (), ?b\<lparr>b_parts := ps\<rparr>)"
    "length ps = length (b_parts b)"
    "\<And>t. t < length (b_parts b) \<Longrightarrow> ps ! t = closed_part (b_parts b ! t)"
    by (auto simp: snds)
  then have "ps = map closed_part (b_parts b)" by (intro nth_equalityI) auto
  with ps False show ?thesis by (simp add: Broker_Close_def Let_def gbind_def)
qed

lemma broker_ok_Close:
  assumes ok: "broker_ok finv flog b" and r: "Broker_Close b = (r, b')"
  shows "broker_ok finv flog b' \<and> r = Ok () \<and> b_closed b'"
  using r ok closed_part_facts
  by (fastforce simp: Broker_Close_eq [OF ok] broker_ok_def factory_ok_def split: if_splits)

end
