(* ===== verification/Broker_Steps.thy ===== *)
theory Broker_Steps
  imports Broker_Facts
begin

text \<open>
  Operations of the broker that overlap. An operation on a topic is two critical sections, the
  lookup under the broker's lock and the method under the partition's, and anything may happen in
  between, a \<open>Close\<close> included. A step is one critical section; the partition a method runs on is
  any that a lookup may have returned earlier.
\<close>

inductive broker_step :: "'x store_ops \<Rightarrow> 'x broker \<Rightarrow> 'x broker \<Rightarrow> bool"
  for fops :: "'x store_ops" where
  create: "CreateTopic name b = (r, b') \<Longrightarrow> broker_step fops b b'"
| publish: "t < length (b_parts b) \<Longrightarrow> has_room (dispatch fops) 1 (b_parts b ! t) \<Longrightarrow>
     on_part t (Partition_Publish (dispatch fops) payload) b = (r, b') \<Longrightarrow> broker_step fops b b'"
| publish_batch: "t < length (b_parts b) \<Longrightarrow> has_room (dispatch fops) (length payloads) (b_parts b ! t) \<Longrightarrow>
     on_part t (Partition_PublishBatch (dispatch fops) payloads) b = (r, b') \<Longrightarrow> broker_step fops b b'"
| subscribe: "t < length (b_parts b) \<Longrightarrow> on_part t Partition_Subscribe b = (r, b') \<Longrightarrow>
     broker_step fops b b'"
| read: "t < length (b_parts b) \<Longrightarrow> sid < length (p_heap (b_parts b ! t)) \<Longrightarrow>
     on_part t (Read_locked (dispatch fops) sid (read_max mx)) b = (r, b') \<Longrightarrow> broker_step fops b b'"
| receive: "t < length (b_parts b) \<Longrightarrow> sid < length (p_heap (b_parts b ! t)) \<Longrightarrow>
     on_part t (\<lambda>p. (Ok (), take_ready sid p)) b = (r, b') \<Longrightarrow> broker_step fops b b'"
| close_sub: "t < length (b_parts b) \<Longrightarrow> on_part t (Subscription_Close sid) b = (r, b') \<Longrightarrow>
     broker_step fops b b'"
| close: "Broker_Close b = (r, b') \<Longrightarrow> broker_step fops b b'"

inductive broker_steps :: "'x store_ops \<Rightarrow> 'x broker \<Rightarrow> 'x broker \<Rightarrow> bool"
  for fops :: "'x store_ops" where
  refl: "broker_steps fops b b"
| trans: "broker_steps fops b b1 \<Longrightarrow> broker_step fops b1 b2 \<Longrightarrow> broker_steps fops b b2"

inductive_cases broker_stepE: "broker_step fops b b'"

text \<open>Only \<open>Partition_close\<close> closes a partition.\<close>

lemma Partition_ops_closed:
  "Partition_Publish ops payload p = (r, p') \<Longrightarrow> p_closed p' \<longleftrightarrow> p_closed p"
  "Partition_PublishBatch ops payloads p = (r, p') \<Longrightarrow> p_closed p' \<longleftrightarrow> p_closed p"
  "Partition_Subscribe p = (r', p') \<Longrightarrow> p_closed p' \<longleftrightarrow> p_closed p"
  "Read_locked ops sid mx p = (r'', p') \<Longrightarrow> p_closed p' \<longleftrightarrow> p_closed p"
  by (auto simp: Partition_Publish_def Partition_PublishBatch_def Partition_Subscribe_def
      Read_locked_def Let_def split: if_splits prod.splits outcome.splits)

lemma Subscription_Close_closed:
  "partition_ok sinv slog p \<Longrightarrow> Subscription_Close sid p = (r, p') \<Longrightarrow>
     p_closed p' \<longleftrightarrow> p_closed p"
  by (auto simp: Subscription_Close_eq split: if_splits)

lemma partition_ok_Subscription_Close:
  assumes "partition_ok sinv slog p" and "Subscription_Close sid p = (r, p')"
  shows "partition_ok sinv slog p' \<and> r = Ok ()"
  using assms partition_ok_unsubscribe [OF assms(1) unsubscribe_eq [OF assms(1)], of sid]
  by (simp add: Subscription_Close_eq [OF assms(1)])

text \<open>An operation on one partition: its own result, the other partitions as they were.\<close>

lemma on_part_eq:
  "t < length (b_parts b) \<Longrightarrow> on_part t m b =
     (fst (m (b_parts b ! t)), b\<lparr>b_parts := (b_parts b)[t := snd (m (b_parts b ! t))]\<rparr>)"
  by (simp add: on_part_def split_beta)

lemma on_part_keeps:
  assumes "on_part t m b = (r, b')"
  shows "b_topics b' = b_topics b" and "b_closed b' = b_closed b"
    and "length (b_parts b') = length (b_parts b)" and "i \<noteq> t \<Longrightarrow> b_parts b' ! i = b_parts b ! i"
  using assms by (auto simp: on_part_def split: if_splits prod.splits)

lemma broker_step_maxTopics:
  assumes "broker_step fops b b'" and ok: "broker_ok finv flog b"
  shows "b_maxTopics b' = b_maxTopics b"
  using assms(1)
proof cases
  case (create name r)
  from ok show ?thesis
    by (cases rule: CreateTopic_cases [where name = name]) (use create in auto)
next
  case (close r)
  then show ?thesis by (auto simp: Broker_Close_eq [OF ok] split: if_splits)
qed (auto simp: on_part_def split: if_splits prod.splits)

text \<open>Two topics have two partitions: an operation on one leaves the other as it is.\<close>

lemma at_topic_other:
  assumes ok: "broker_ok finv flog b" and r: "at_topic what name m b = (r, b')"
    and t: "map_of (b_topics b) other = Some t" and ne: "other \<noteq> name"
  shows "b_parts b' ! t = b_parts b ! t \<and> b_topics b' = b_topics b"
  using ok
proof (cases rule: at_topic_cases [where what = what and name = name and m = m])
  case (found i q p)
  have "i \<noteq> t"
  proof
    assume "i = t"
    then have "(other, t) \<in> set (b_topics b)" "(name, t) \<in> set (b_topics b)"
      using found(2) t by (auto dest: map_of_SomeD)
    then show False using ne broker_okD(2) [OF ok] by (fastforce simp: distinct_map inj_on_def)
  qed
  with found r show ?thesis by auto
qed (use r in auto)

context user_store
begin

abbreviation bok :: "'x broker \<Rightarrow> bool" where
  "bok \<equiv> broker_ok finv flog"

lemma bok_on_part:
  assumes ok: "bok b" and "t < length (b_parts b)" and r: "on_part t m b = (r, b')"
    and m: "\<And>p'. m (b_parts b ! t) = (r, p') \<Longrightarrow>
      partition_ok (store_inv finv) (store_log flog) p' \<and> (p_closed p' \<longleftrightarrow> p_closed (b_parts b ! t)) \<and> r \<noteq> Panic"
  shows "bok b' \<and> r \<noteq> Panic"
proof -
  obtain p' where p': "m (b_parts b ! t) = (r, p')" "b' = b\<lparr>b_parts := (b_parts b)[t := p']\<rparr>"
    using r assms(2) by (cases "m (b_parts b ! t)") (auto simp: on_part_eq)
  then show ?thesis using m [OF p'(1)] broker_ok_part [OF ok assms(2)] by simp
qed

lemma broker_step_ok:
  assumes "broker_step fops b b'" and ok: "bok b"
  shows "bok b'"
  using assms(1)
proof cases
  case (create name r)
  then show ?thesis using broker_ok_CreateTopic [OF ok] by simp
next
  case (publish t payload r)
  then show ?thesis
    using bok_on_part [OF ok publish(1,3)] st.Partition_Publish_grows(1) [OF broker_okD(5) [OF ok] publish(2)]
      st.Partition_Publish_ok [OF broker_okD(5) [OF ok]] st.has_room_fits [OF broker_okD(5) [OF ok]]
      Partition_ops_closed(1) by fastforce
next
  case (publish_batch t payloads r)
  then show ?thesis
    using bok_on_part [OF ok publish_batch(1,3)]
      st.Partition_PublishBatch_ok [OF broker_okD(5) [OF ok]] st.has_room_fits [OF broker_okD(5) [OF ok]]
      Partition_ops_closed(2) by fastforce
next
  case (subscribe t r)
  show ?thesis
    by (rule broker_ok_on_part [OF ok subscribe(2)])
       (use partition_ok_subscribe [OF broker_okD(5) [OF ok]] Partition_ops_closed(3) in blast)
next
  case (read t sid mx r)
  show ?thesis
    by (rule broker_ok_on_part [OF ok read(3)])
       (use st.Read_locked_ok [OF broker_okD(5) [OF ok] read(2) read_max_pos] Partition_ops_closed(4) in blast)
next
  case (receive t sid r)
  show ?thesis
    by (rule broker_ok_on_part [OF ok receive(3)])
       (use partition_ok_take_ready [OF broker_okD(5) [OF ok]] in \<open>auto simp: take_ready_def\<close>)
next
  case (close_sub t sid r)
  show ?thesis
    by (rule broker_ok_on_part [OF ok close_sub(2)])
       (use partition_ok_Subscription_Close [OF broker_okD(5) [OF ok]]
          Subscription_Close_closed [OF broker_okD(5) [OF ok]] in blast)
next
  case (close r)
  then show ?thesis using broker_ok_Close [OF ok] by simp
qed

lemma broker_steps_ok: "broker_steps fops b b' \<Longrightarrow> bok b \<Longrightarrow> bok b'"
  by (induction rule: broker_steps.induct) (auto intro: broker_step_ok)

lemma broker_steps_maxTopics: "broker_steps fops b b' \<Longrightarrow> bok b \<Longrightarrow> b_maxTopics b' = b_maxTopics b"
proof (induction rule: broker_steps.induct)
  case (trans b b1 b2)
  then show ?case using broker_step_maxTopics [OF trans(2) broker_steps_ok [OF trans(1,4)]] by simp
qed simp

text \<open>
  A topic that was looked up stays the topic of that name until the broker is closed, and from then
  on its partition is closed.
\<close>

lemma broker_step_topic:
  assumes "broker_step fops b b'" and ok: "bok b"
  shows "length (b_parts b) \<le> length (b_parts b') \<and> (b_closed b \<longrightarrow> b_closed b') \<and>
    (b_closed b' \<or> (\<forall>name t. map_of (b_topics b) name = Some t \<longrightarrow> map_of (b_topics b') name = Some t))"
  using assms(1)
proof cases
  case (create name r)
  from ok show ?thesis
    by (cases rule: CreateTopic_cases [where name = name])
       (use create in \<open>auto simp: map_add_def map_of_eq_None_iff image_iff split: option.splits\<close>)
next
  case (close r)
  then show ?thesis by (auto simp: Broker_Close_eq [OF ok] split: if_splits)
qed (auto dest: on_part_keeps)

lemma broker_steps_topic:
  assumes "broker_steps fops b b'" and "bok b" and "lookup_topic name b = Ok t"
  shows "t < length (b_parts b') \<and> (lookup_topic name b' = Ok t \<or> b_closed b')"
  using assms
proof (induction rule: broker_steps.induct)
  case (refl b)
  then show ?case
    using broker_okD(3) [OF refl(1), of name t]
    by (auto simp: lookup_topic_def split: if_splits option.splits)
next
  case (trans b b1 b2)
  have "bok b1" by (rule broker_steps_ok [OF trans(1,4)])
  from broker_step_topic [OF trans(2) this] trans.IH [OF trans(4,5)] show ?case
    by (auto simp: lookup_topic_def split: if_splits option.splits)
qed

lemma in_flight:
  assumes "broker_steps fops b b'" and ok: "bok b" and "lookup_topic name b = Ok t" and "b_closed b'"
  shows "on_part t (Partition_Publish (dispatch fops) payload) b' = (fail_with ErrClosed, b')"
    and "on_part t (Partition_PublishBatch (dispatch fops) payloads) b' = (fail_with ErrClosed, b')"
    and "on_part t Partition_Subscribe b' = (fail_with ErrClosed, b')"
proof -
  have t: "t < length (b_parts b')" using broker_steps_topic [OF assms(1-3)] by simp
  have "p_closed (b_parts b' ! t)"
    using broker_okD(6) [OF broker_steps_ok [OF assms(1) ok] t] assms(4) by simp
  with t show "on_part t (Partition_Publish (dispatch fops) payload) b' = (fail_with ErrClosed, b')"
    and "on_part t (Partition_PublishBatch (dispatch fops) payloads) b' = (fail_with ErrClosed, b')"
    and "on_part t Partition_Subscribe b' = (fail_with ErrClosed, b')"
    by (simp_all add: on_part_eq Partition_Publish_def Partition_PublishBatch_def Partition_Subscribe_def)
qed

end

end
