(* ===== verification/Broker_Spec.thy ===== *)
theory Broker_Spec
  imports Broker_Steps
begin

text \<open>
  What a broker promises to a client of its API, as a state without partitions, pointers or
  subscribers: closed, or a map from topic names to the payloads published so far. The operations
  of \<open>broker.go\<close> refine the operations of this specification; errors are compared by the sentinel
  that \<open>errors.Is\<close> finds.
\<close>

section \<open>The specification\<close>

type_synonym spec = "(gostring \<Rightarrow> bytes list option) option"

type_synonym 'a answer = "(sentinel option, 'a) outcome"

definition answer :: "'a result \<Rightarrow> 'a answer" where
  "answer = map_outcome error_root id"

lemma answer_simps [simp]:
  "answer (Ok a) = Ok a" "answer (Fail e) = Fail (error_root e)" "answer Panic = Panic"
  by (simp_all add: answer_def)

definition name_error :: "gostring \<Rightarrow> sentinel option" where
  "name_error name =
     (if name = [] then Some ErrTopicNameEmpty
      else if 255 < length name then Some ErrTopicNameTooLong
      else if list_ex control name then Some ErrInvalidTopicName
      else None)"

definition spec_CreateTopic :: "int \<Rightarrow> gostring \<Rightarrow> spec \<Rightarrow> unit answer \<times> spec" where
  "spec_CreateTopic mx name s =
     (case s of
        None \<Rightarrow> (Fail (Some ErrClosed), s)
      | Some m \<Rightarrow>
          (if name_error name \<noteq> None then (Fail (name_error name), s)
           else if m name \<noteq> None then (Fail (Some ErrTopicExists), s)
           else if mx > 0 \<and> int (card (dom m)) \<ge> mx then (Fail (Some ErrTooManyTopics), s)
           else (Ok (), Some (m(name \<mapsto> [])))))"

definition spec_append :: "gostring \<Rightarrow> bytes list \<Rightarrow> i64 \<Rightarrow> spec \<Rightarrow> i64 answer \<times> spec" where
  "spec_append name payloads none s =
     (case s of
        None \<Rightarrow> (Fail (Some ErrClosed), s)
      | Some m \<Rightarrow>
          (case m name of
             None \<Rightarrow> (Fail (Some ErrTopicNotFound), s)
           | Some l \<Rightarrow>
               (Ok (if payloads = [] then none else int64 (length l)), Some (m(name \<mapsto> l @ payloads)))))"

definition spec_ListTopics :: "spec \<Rightarrow> gostring list answer" where
  "spec_ListTopics s =
     (case s of None \<Rightarrow> Fail (Some ErrClosed) | Some m \<Rightarrow> Ok (sorted_list_of_set (dom m)))"

definition spec_TopicCount :: "spec \<Rightarrow> nat answer" where
  "spec_TopicCount s = (case s of None \<Rightarrow> Fail (Some ErrClosed) | Some m \<Rightarrow> Ok (card (dom m)))"

definition spec_Subscribe :: "gostring \<Rightarrow> spec \<Rightarrow> unit answer" where
  "spec_Subscribe topic sp =
     (case sp of
        None \<Rightarrow> Fail (Some ErrClosed)
      | Some m \<Rightarrow> if m topic = None then Fail (Some ErrTopicNotFound) else Ok ())"

section \<open>The abstraction\<close>

definition topic_logs :: "('x \<Rightarrow> bytes list) \<Rightarrow> 'x broker \<Rightarrow> gostring \<Rightarrow> bytes list option" where
  "topic_logs flog b name =
     map_option (\<lambda>t. store_log flog (p_store (b_parts b ! t))) (map_of (b_topics b) name)"

definition abs_broker :: "('x \<Rightarrow> bytes list) \<Rightarrow> 'x broker \<Rightarrow> spec" where
  "abs_broker flog b = (if b_closed b then None else Some (topic_logs flog b))"

lemma abs_broker_closed [simp]: "b_closed b \<Longrightarrow> abs_broker flog b = None"
  by (simp add: abs_broker_def)

lemma abs_broker_open: "\<not> b_closed b \<Longrightarrow> abs_broker flog b = Some (topic_logs flog b)"
  by (simp add: abs_broker_def)

lemma topic_logs_eq: "map_of (b_topics b) name = None \<Longrightarrow> topic_logs flog b name = None"
  "map_of (b_topics b) name = Some t \<Longrightarrow>
     topic_logs flog b name = Some (store_log flog (p_store (b_parts b ! t)))"
  by (simp_all add: topic_logs_def)

lemma dom_topic_logs: "dom (topic_logs flog b) = fst ` set (b_topics b)"
  by (auto simp: topic_logs_def dom_map_of_conv_image_fst [symmetric])

lemma name_error_valid: "name_error name = None \<longleftrightarrow> valid_name name"
  by (auto simp: name_error_def valid_name_def list_ex_iff)

lemma ValidateTopicName_error: "ValidateTopicName name = Fail e \<Longrightarrow> error_root e = name_error name"
  by (auto simp: ValidateTopicName_def name_error_def check_bytes_cases MaxTopicNameLen_def list_ex_iff
      split: if_splits)

text \<open>Replacing a partition changes the log of its own topic only.\<close>

lemma topic_logs_part:
  assumes ok: "broker_ok finv flog b" and t: "map_of (b_topics b) name = Some t"
  shows "topic_logs flog (b\<lparr>b_parts := (b_parts b)[t := p]\<rparr>) =
    (topic_logs flog b)(name \<mapsto> store_log flog (p_store p))"
proof
  fix n
  have lt: "t < length (b_parts b)" using broker_okD(3) [OF ok t] by simp
  show "topic_logs flog (b\<lparr>b_parts := (b_parts b)[t := p]\<rparr>) n =
      ((topic_logs flog b)(name \<mapsto> store_log flog (p_store p))) n"
  proof (cases "map_of (b_topics b) n")
    case None
    with t show ?thesis by (auto simp: topic_logs_def)
  next
    case (Some i)
    have "i \<noteq> t" if "n \<noteq> name"
    proof
      assume "i = t"
      then have "(n, t) \<in> set (b_topics b)" "(name, t) \<in> set (b_topics b)"
        using Some t by (auto dest: map_of_SomeD)
      then show False
        using that broker_okD(2) [OF ok] by (fastforce simp: distinct_map inj_on_def)
    qed
    with Some t lt show ?thesis by (auto simp: topic_logs_def)
  qed
qed

section \<open>The operations refine the specification\<close>

text \<open>Every topic's log has room for \<open>n\<close> more messages.\<close>

definition spec_fits :: "nat \<Rightarrow> spec \<Rightarrow> bool" where
  "spec_fits n s \<longleftrightarrow> (\<forall>m name l. s = Some m \<longrightarrow> m name = Some l \<longrightarrow> fits_int64 (length l + n))"

lemma spec_fits_mono:
  assumes "m \<le> n" and "spec_fits n s"
  shows "spec_fits m s"
  unfolding spec_fits_def
proof (intro allI impI)
  fix M name l
  assume "s = Some M" "M name = Some l"
  then have "fits_int64 (length l + n)" using assms(2) by (simp add: spec_fits_def)
  then show "fits_int64 (length l + m)" by (rule fits_int64_mono [rotated]) (simp add: assms(1))
qed

lemma spec_fits_topic:
  assumes "spec_fits n (abs_broker flog b)" and "\<not> b_closed b" and "map_of (b_topics b) name = Some t"
  shows "fits_int64 (length (store_log flog (p_store (b_parts b ! t))) + n)"
  using assms(1,2) topic_logs_eq(2) [OF assms(3), of flog] by (auto simp: spec_fits_def abs_broker_open)

lemma CreateTopic_refines:
  assumes ok: "broker_ok finv flog b" and mem: "b_newStore b = Some memory_factory"
    and r: "CreateTopic name b = (r, b')"
  shows "(answer r, abs_broker flog b') = spec_CreateTopic (b_maxTopics b) name (abs_broker flog b)"
  using ok
proof (cases rule: CreateTopic_cases [where name = name])
  case closed
  with r show ?thesis by (auto simp: spec_CreateTopic_def)
next
  case (invalid e)
  then have "r = Fail e" "b' = b" using r by simp_all
  then show ?thesis
    using ValidateTopicName_error [OF invalid(2)] name_error_valid invalid(1,3)
    by (auto simp: spec_CreateTopic_def abs_broker_open)
next
  case exists
  then have "topic_logs flog b name \<noteq> None" using dom_topic_logs [of flog b] by blast
  with exists r show ?thesis
    using name_error_valid by (auto simp: spec_CreateTopic_def abs_broker_open)
next
  case full
  then have "topic_logs flog b name = None" using dom_topic_logs [of flog b] by blast
  moreover have "card (dom (topic_logs flog b)) = length (b_topics b)"
    using distinct_card [OF broker_okD(1) [OF ok]] by (simp add: dom_topic_logs)
  ultimately show ?thesis
    using full r name_error_valid by (auto simp: spec_CreateTopic_def abs_broker_open)
next
  case (nil f)
  with mem show ?thesis by (auto simp: memory_factory_def)
next
  case (ok f st)
  then have n: "topic_logs flog b name = None" using dom_topic_logs [of flog b] by blast
  have card: "card (dom (topic_logs flog b)) = length (b_topics b)"
    using distinct_card [OF broker_okD(1) [OF assms(1)]] by (simp add: dom_topic_logs)
  have st: "st = MemLog newMemoryLog" using ok mem by (auto simp: memory_factory_def)
  have "topic_logs flog b' = (topic_logs flog b)(name \<mapsto> [])"
  proof
    fix i
    have b': "b_topics b' = b_topics b @ [(name, length (b_parts b))]"
      "b_parts b' = b_parts b @ [newPartition st]"
      using ok r by simp_all
    have nm: "map_of (b_topics b) name = None" using ok(3) by (simp add: map_of_eq_None_iff)
    have lt: "t < length (b_parts b)" if "map_of (b_topics b) i = Some t" for t
      using broker_okD(3) [OF assms(1) that] by simp
    show "topic_logs flog b' i = ((topic_logs flog b)(name \<mapsto> [])) i"
    proof (cases "i = name")
      case True
      with nm st show ?thesis by (simp add: topic_logs_def b' map_add_def newPartition_def)
    next
      case False
      with lt show ?thesis
        by (cases "map_of (b_topics b) i") (simp_all add: topic_logs_def b' map_add_def nth_append)
    qed
  qed
  moreover have "name_error name = None" using ok name_error_valid by simp
  ultimately show ?thesis
    using ok r n card by (auto simp: spec_CreateTopic_def abs_broker_open)
qed

context reliable_user_store
begin

lemma Broker_Publish_refines:
  assumes ok: "bok b" and fit: "spec_fits 1 (abs_broker flog b)"
    and r: "Broker_Publish fops name payload b = (r, b')"
  shows "(answer r, abs_broker flog b') = spec_append name [payload] 0 (abs_broker flog b)"
  using ok
proof (cases rule: at_topic_cases [where what = "ascii ''publish to''" and name = name and
      m = "Partition_Publish (dispatch fops) payload"])
  case (found t q p)
  have pok: "partition_ok (store_inv finv) (store_log flog) (b_parts b ! t)"
    using broker_okD(5) [OF ok found(3)] .
  have fits: "fits_int64 (Suc (length (store_log flog (p_store (b_parts b ! t)))))"
    using spec_fits_topic [OF fit found(1,2)] by simp
  have "\<not> p_closed (b_parts b ! t)" using broker_okD(6) [OF ok found(3)] found(1) by simp
  moreover obtain st where "sAppend (dispatch fops) payload (p_store (b_parts b ! t)) =
      (Ok (int64 (length (store_log flog (p_store (b_parts b ! t))))), st)"
    "store_log flog st = store_log flog (p_store (b_parts b ! t)) @ [payload]"
    using rst.append_reliable [OF partition_okD(1) [OF pok] fits] by blast
  ultimately have "q = Ok (int64 (length (store_log flog (p_store (b_parts b ! t)))))"
    "store_log flog (p_store p) = store_log flog (p_store (b_parts b ! t)) @ [payload]"
    using found(4) by (auto simp: Partition_Publish_def Let_def)
  then show ?thesis
    using found r topic_logs_part [OF ok found(2)] topic_logs_eq(2) [OF found(2)]
    by (auto simp: Broker_Publish_def spec_append_def abs_broker_open)
qed (use r in \<open>auto simp: Broker_Publish_def spec_append_def abs_broker_open topic_logs_eq\<close>)

lemma Broker_PublishBatch_refines:
  assumes ok: "bok b" and fit: "spec_fits (length payloads) (abs_broker flog b)"
    and r: "Broker_PublishBatch fops name payloads b = (r, b')"
  shows "(answer r, abs_broker flog b') = spec_append name payloads 0 (abs_broker flog b)"
  using ok
proof (cases rule: at_topic_cases [where what = "ascii ''publish to''" and name = name and
      m = "Partition_PublishBatch (dispatch fops) payloads"])
  case (found t q p)
  let ?p = "b_parts b ! t"
  have pok: "partition_ok (store_inv finv) (store_log flog) ?p"
    using broker_okD(5) [OF ok found(3)] .
  have fits: "fits_int64 (length (store_log flog (p_store ?p)) + length payloads)"
    using spec_fits_topic [OF fit found(1,2)] by simp
  have opn: "\<not> p_closed ?p" using broker_okD(6) [OF ok found(3)] found(1) by simp
  have "q = Ok (if payloads = [] then 0 else int64 (length (store_log flog (p_store ?p)))) \<and>
    store_log flog (p_store p) = store_log flog (p_store ?p) @ payloads"
    using pok fits
  proof (cases rule: st.Partition_PublishBatch_cases)
    case (fail e st k)
    with rst.append_loop_reliable [OF partition_okD(1) [OF pok] fits, of 0 0] show ?thesis
      by (auto simp: Partition_PublishBatch_def Let_def split: if_splits)
  qed (use found(4) opn in auto)
  then show ?thesis
    using found r topic_logs_part [OF ok found(2)] topic_logs_eq(2) [OF found(2)]
    by (auto simp: Broker_PublishBatch_def spec_append_def abs_broker_open)
qed (use r in \<open>auto simp: Broker_PublishBatch_def spec_append_def abs_broker_open topic_logs_eq\<close>)

end

lemma ListTopics_refines:
  assumes ok: "broker_ok finv flog b"
  shows "answer (ListTopics b) = spec_ListTopics (abs_broker flog b)"
proof (cases "b_closed b")
  case False
  have "sort (map fst (b_topics b)) = sorted_list_of_set (fst ` set (b_topics b))"
    using sorted_list_of_set_sort_remdups [of "map fst (b_topics b)"] broker_okD(1) [OF ok]
    by (simp add: distinct_remdups_id)
  with False show ?thesis
    by (simp add: ListTopics_def spec_ListTopics_def abs_broker_open dom_topic_logs)
qed (simp add: ListTopics_def spec_ListTopics_def)

lemma TopicCount_refines:
  assumes ok: "broker_ok finv flog b"
  shows "answer (TopicCount b) = spec_TopicCount (abs_broker flog b)"
  using distinct_card [OF broker_okD(1) [OF ok]]
  by (auto simp: TopicCount_def spec_TopicCount_def abs_broker_def dom_topic_logs)

lemma Broker_Close_refines:
  assumes "broker_ok finv flog b" and "Broker_Close b = (r, b')"
  shows "r = Ok () \<and> abs_broker flog b' = None"
  using broker_ok_Close [OF assms] by simp

section \<open>Subscribing\<close>

lemma Broker_Subscribe_cases:
  assumes bok: "broker_ok finv flog b"
  obtains (fail) e where "Broker_Subscribe name b = (Fail e, b)"
  | (ok) t p where "t < length (b_parts b)" "Partition_Subscribe (b_parts b ! t) = (Ok (length (p_heap (b_parts b ! t))), p)"
      "Broker_Subscribe name b = (Ok (t, length (p_heap (b_parts b ! t))), b\<lparr>b_parts := (b_parts b)[t := p]\<rparr>)"
      "map_of (b_topics b) name = Some t" "\<not> b_closed b"
proof (cases rule: lookup_topic_cases [where b = b and name = name])
  case (found t)
  have t: "t < length (b_parts b)" using broker_okD(3) [OF bok found(2)] by simp
  have "\<not> p_closed (b_parts b ! t)" using broker_okD(6) [OF bok t] found(1) by simp
  with found t show thesis
    by (intro that(2)) (auto simp: Broker_Subscribe_def on_part_eq gbind_def Partition_Subscribe_def Let_def)
qed (auto simp: Broker_Subscribe_def intro: that(1))

text \<open>Changes of a partition that keep its store are invisible to the specification.\<close>

lemma abs_broker_part:
  assumes ok: "broker_ok finv flog b" and "p_store p = p_store (b_parts b ! t)"
  shows "abs_broker flog (b\<lparr>b_parts := (b_parts b)[t := p]\<rparr>) = abs_broker flog b"
proof -
  have "p_store ((b_parts b)[t := p] ! i) = p_store (b_parts b ! i)" for i
    using assms(2) by (cases "i = t"; cases "t < length (b_parts b)") (auto simp: list_update_beyond)
  then show ?thesis
    by (auto simp: abs_broker_def topic_logs_def fun_eq_iff)
qed

section \<open>Runs of requests\<close>

datatype request =
    ReqCreate gostring
  | ReqPublish gostring bytes
  | ReqPublishBatch gostring "bytes list"
  | ReqList
  | ReqCount
  | ReqClose

datatype response =
    RespUnit "unit answer"
  | RespOffset "i64 answer"
  | RespNames "gostring list answer"
  | RespCount "nat answer"

primrec broker_call :: "'x store_ops \<Rightarrow> request \<Rightarrow> 'x broker \<Rightarrow> response \<times> 'x broker" where
  "broker_call fops (ReqCreate name) b = apfst (\<lambda>r. RespUnit (answer r)) (CreateTopic name b)"
| "broker_call fops (ReqPublish name payload) b =
     apfst (\<lambda>r. RespOffset (answer r)) (Broker_Publish fops name payload b)"
| "broker_call fops (ReqPublishBatch name payloads) b =
     apfst (\<lambda>r. RespOffset (answer r)) (Broker_PublishBatch fops name payloads b)"
| "broker_call fops ReqList b = (RespNames (answer (ListTopics b)), b)"
| "broker_call fops ReqCount b = (RespCount (answer (TopicCount b)), b)"
| "broker_call fops ReqClose b = apfst (\<lambda>r. RespUnit (answer r)) (Broker_Close b)"

primrec spec_call :: "int \<Rightarrow> request \<Rightarrow> spec \<Rightarrow> response \<times> spec" where
  "spec_call mx (ReqCreate name) s = apfst RespUnit (spec_CreateTopic mx name s)"
| "spec_call mx (ReqPublish name payload) s = apfst RespOffset (spec_append name [payload] 0 s)"
| "spec_call mx (ReqPublishBatch name payloads) s = apfst RespOffset (spec_append name payloads 0 s)"
| "spec_call mx ReqList s = (RespNames (spec_ListTopics s), s)"
| "spec_call mx ReqCount s = (RespCount (spec_TopicCount s), s)"
| "spec_call mx ReqClose s = (RespUnit (Ok ()), None)"

primrec run :: "('q \<Rightarrow> 's \<Rightarrow> 'a \<times> 's) \<Rightarrow> 'q list \<Rightarrow> 's \<Rightarrow> 'a list" where
  "run call [] s = []"
| "run call (q # qs) s = fst (call q s) # run call qs (snd (call q s))"

primrec payload_count :: "request \<Rightarrow> nat" where
  "payload_count (ReqCreate name) = 0"
| "payload_count (ReqPublish name payload) = 1"
| "payload_count (ReqPublishBatch name payloads) = length payloads"
| "payload_count ReqList = 0"
| "payload_count ReqCount = 0"
| "payload_count ReqClose = 0"

lemma spec_fits_call:
  assumes "spec_fits (payload_count q + n) s" and "fits_int64 n"
  shows "spec_fits n (snd (spec_call mx q s))"
proof -
  have le: "spec_fits n s"
    by (rule spec_fits_mono [OF _ assms(1)]) simp
  have app: "spec_fits n (snd (spec_append name ps none s))" if "spec_fits (length ps + n) s" for name ps none
  proof (cases "\<exists>m l. s = Some m \<and> m name = Some l")
    case True
    then obtain m l where m: "s = Some m" "m name = Some l" by blast
    then have "fits_int64 (length (l @ ps) + n)" using that by (simp add: spec_fits_def add.assoc)
    with m le show ?thesis by (simp add: spec_append_def spec_fits_def)
  next
    case False
    then have "snd (spec_append name ps none s) = s"
      by (cases s; cases "the s name") (auto simp: spec_append_def)
    with le show ?thesis by simp
  qed
  show ?thesis
  proof (cases q)
    case (ReqCreate name)
    with le assms(2) show ?thesis
      by (auto simp: spec_fits_def spec_CreateTopic_def split: option.splits if_splits)
  next
    case (ReqPublish name payload)
    with app [of "[payload]"] assms(1) show ?thesis by simp
  next
    case (ReqPublishBatch name payloads)
    with app assms(1) show ?thesis by simp
  qed (use le in \<open>simp_all add: spec_fits_def\<close>)
qed

lemma CreateTopic_keeps:
  assumes "broker_ok finv flog b" and "CreateTopic name b = (r, b')"
  shows "b_newStore b' = b_newStore b \<and> b_maxTopics b' = b_maxTopics b"
  using assms(1) by (cases rule: CreateTopic_cases [where name = name]) (use assms(2) in auto)

lemma at_topic_keeps:
  assumes "broker_ok finv flog b" and "at_topic what name m b = (r, b')"
  shows "b_newStore b' = b_newStore b \<and> b_maxTopics b' = b_maxTopics b"
  using assms(1)
  by (cases rule: at_topic_cases [where what = what and name = name and m = m]) (use assms(2) in auto)

text \<open>An operation on a topic keeps the invariant when its method keeps the partition's.\<close>

lemma at_topic_ok:
  assumes ok: "broker_ok finv flog b" and r: "at_topic what name m b = (r, b')"
    and m: "\<And>t r p'. map_of (b_topics b) name = Some t \<Longrightarrow> \<not> b_closed b \<Longrightarrow> m (b_parts b ! t) = (r, p') \<Longrightarrow>
      partition_ok (store_inv finv) (store_log flog) p' \<and> (p_closed p' \<longleftrightarrow> p_closed (b_parts b ! t))"
  shows "broker_ok finv flog b'"
  using ok
proof (cases rule: at_topic_cases [where what = what and name = name and m = m])
  case (found t q p)
  with r m [OF found(2,1,4)] broker_ok_part [OF ok found(3)] show ?thesis by auto
qed (use ok r in simp_all)

context reliable_user_store
begin

lemma Broker_Publish_ok:
  assumes ok: "bok b" and fit: "spec_fits 1 (abs_broker flog b)"
    and r: "Broker_Publish fops name payload b = (r, b')"
  shows "bok b'"
proof (rule at_topic_ok [OF ok r [unfolded Broker_Publish_def]])
  fix t q p'
  assume t: "map_of (b_topics b) name = Some t" "\<not> b_closed b"
    and p': "Partition_Publish (dispatch fops) payload (b_parts b ! t) = (q, p')"
  have "partition_ok (store_inv finv) (store_log flog) (b_parts b ! t)"
    using broker_okD(3,5) [OF ok] t(1) by blast
  from st.Partition_Publish_ok [OF this _ p'] spec_fits_topic [OF fit t(2,1)] Partition_ops_closed(1) [OF p']
  show "partition_ok (store_inv finv) (store_log flog) p' \<and> (p_closed p' \<longleftrightarrow> p_closed (b_parts b ! t))"
    by simp
qed

lemma Broker_PublishBatch_ok:
  assumes ok: "bok b" and fit: "spec_fits (length payloads) (abs_broker flog b)"
    and r: "Broker_PublishBatch fops name payloads b = (r, b')"
  shows "bok b'"
proof (rule at_topic_ok [OF ok r [unfolded Broker_PublishBatch_def]])
  fix t q p'
  assume t: "map_of (b_topics b) name = Some t" "\<not> b_closed b"
    and p': "Partition_PublishBatch (dispatch fops) payloads (b_parts b ! t) = (q, p')"
  have "partition_ok (store_inv finv) (store_log flog) (b_parts b ! t)"
    using broker_okD(3,5) [OF ok] t(1) by blast
  from st.Partition_PublishBatch_ok [OF this _ p'] spec_fits_topic [OF fit t(2,1)] Partition_ops_closed(2) [OF p']
  show "partition_ok (store_inv finv) (store_log flog) p' \<and> (p_closed p' \<longleftrightarrow> p_closed (b_parts b ! t))"
    by simp
qed

text \<open>One request: the same answer, and the states correspond afterwards.\<close>

lemma broker_call_refines:
  assumes ok: "bok b" and mem: "b_newStore b = Some memory_factory"
    and fit: "spec_fits (payload_count q) (abs_broker flog b)" and r: "broker_call fops q b = (a, b')"
  shows "(a, abs_broker flog b') = spec_call (b_maxTopics b) q (abs_broker flog b) \<and> bok b' \<and>
    b_newStore b' = Some memory_factory \<and> b_maxTopics b' = b_maxTopics b"
proof (cases q)
  case (ReqCreate name)
  obtain x where x: "CreateTopic name b = (x, b')" "a = RespUnit (answer x)"
    using r ReqCreate by (cases "CreateTopic name b") auto
  show ?thesis
    using ReqCreate mem x(2) CreateTopic_refines [OF ok mem x(1), symmetric] broker_ok_CreateTopic [OF ok x(1)]
      CreateTopic_keeps [OF ok x(1)] by simp
next
  case (ReqPublish name payload)
  obtain x where x: "Broker_Publish fops name payload b = (x, b')" "a = RespOffset (answer x)"
    using r ReqPublish by (cases "Broker_Publish fops name payload b") auto
  have f: "spec_fits 1 (abs_broker flog b)" using fit ReqPublish by simp
  show ?thesis
    using ReqPublish mem x(2) Broker_Publish_ok [OF ok f x(1)]
      at_topic_keeps [OF ok x(1) [unfolded Broker_Publish_def]]
    by (simp flip: Broker_Publish_refines [OF ok f x(1)])
next
  case (ReqPublishBatch name payloads)
  obtain x where x: "Broker_PublishBatch fops name payloads b = (x, b')" "a = RespOffset (answer x)"
    using r ReqPublishBatch by (cases "Broker_PublishBatch fops name payloads b") auto
  have f: "spec_fits (length payloads) (abs_broker flog b)" using fit ReqPublishBatch by simp
  show ?thesis
    using ReqPublishBatch mem x(2) Broker_PublishBatch_ok [OF ok f x(1)]
      at_topic_keeps [OF ok x(1) [unfolded Broker_PublishBatch_def]]
    by (simp flip: Broker_PublishBatch_refines [OF ok f x(1)])
next
  case ReqClose
  obtain x where x: "Broker_Close b = (x, b')" "a = RespUnit (answer x)"
    using r ReqClose by (cases "Broker_Close b") auto
  show ?thesis
    using ReqClose mem x(2) Broker_Close_refines [OF ok x(1)] broker_ok_Close [OF ok x(1)]
      x(1) [unfolded Broker_Close_eq [OF ok]] by (auto split: if_splits)
qed (use r ok mem ListTopics_refines [OF ok] TopicCount_refines [OF ok] in auto)

end

end
