(* ===== verification/Broker_Linear.thy ===== *)
theory Broker_Linear
  imports Broker_Spec "HOL-Library.Multiset"
begin

text \<open>
  The broker shared by goroutines: every critical section is a step, and calls overlap. An operation on a
  topic is a lookup under the broker's lock and a method under its partition's; \<open>Close\<close> holds the
  broker's lock while it closes one partition after the other, so that operations that looked their
  topic up before run in between. The completed calls are recorded with the times of their first
  and last critical section, and are shown to be linearizable: some order of them that keeps every
  call that ended before another began in front of it has the answers of the specification.
\<close>

section \<open>Calls that overlap\<close>

record event =
  ev_req :: request
  ev_resp :: response
  ev_from :: nat
  ev_to :: nat

text \<open>
  \<open>sh_closing\<close> is the \<open>Close\<close> that holds the broker's lock, with the partitions it has still to close;
  \<open>sh_pending\<close> the calls between their two critical sections, with the partition they found. Both have the time
  they began. \<open>sh_done\<close> lists the completed calls as they end.
\<close>

record 'x shared =
  sh_broker :: "'x broker"
  sh_closing :: "(nat list \<times> nat) option"
  sh_pending :: "(request \<times> nat \<times> nat) list"
  sh_done :: "event list"
  sh_time :: nat

definition tick :: "'x shared \<Rightarrow> 'x shared" where
  "tick st = st\<lparr>sh_time := Suc (sh_time st)\<rparr>"

definition ends :: "request \<Rightarrow> response \<Rightarrow> nat \<Rightarrow> 'x shared \<Rightarrow> 'x shared" where
  "ends q a t0 st = tick (st\<lparr>sh_done := sh_done st @ [\<lparr>ev_req = q, ev_resp = a, ev_from = t0, ev_to = sh_time st\<rparr>]\<rparr>)"

text \<open>Calls of one critical section: those that need no partition, and those whose lookup fails.\<close>

primrec one_section :: "request \<Rightarrow> 'x broker \<Rightarrow> bool" where
  "one_section (ReqCreate name) b = True"
| "one_section (ReqPublish name payload) b = (\<forall>t. lookup_topic name b \<noteq> Ok t)"
| "one_section (ReqPublishBatch name payloads) b = (\<forall>t. lookup_topic name b \<noteq> Ok t)"
| "one_section ReqList b = True"
| "one_section ReqCount b = True"
| "one_section ReqClose b = b_closed b"

primrec topic_of :: "request \<Rightarrow> gostring option" where
  "topic_of (ReqCreate name) = None"
| "topic_of (ReqPublish name payload) = Some name"
| "topic_of (ReqPublishBatch name payloads) = Some name"
| "topic_of ReqList = None"
| "topic_of ReqCount = None"
| "topic_of ReqClose = None"

text \<open>What subscribers do to a partition: subscribe, a round of \<open>Read\<close>, a receive, \<open>Close\<close>.\<close>

inductive sub_part_step :: "'s store_ops \<Rightarrow> 's partition \<Rightarrow> 's partition \<Rightarrow> bool" for ops :: "'s store_ops" where
  subscribe: "Partition_Subscribe p = (r, p') \<Longrightarrow> sub_part_step ops p p'"
| read: "sid < length (p_heap p) \<Longrightarrow> Read_locked ops sid (read_max mx) p = (r, p') \<Longrightarrow> sub_part_step ops p p'"
| receive: "sid < length (p_heap p) \<Longrightarrow> sub_part_step ops p (take_ready sid p)"
| close_sub: "Subscription_Close sid p = (r, p') \<Longrightarrow> sub_part_step ops p p'"

inductive shared_step :: "'x store_ops \<Rightarrow> 'x shared \<Rightarrow> 'x shared \<Rightarrow> bool" for fops :: "'x store_ops" where
  at_once: "sh_closing st = None \<Longrightarrow> one_section q (sh_broker st) \<Longrightarrow> broker_call fops q (sh_broker st) = (a, b) \<Longrightarrow>
     shared_step fops st (ends q a (sh_time st) (st\<lparr>sh_broker := b\<rparr>))"
| looks_up: "sh_closing st = None \<Longrightarrow> topic_of q = Some name \<Longrightarrow> lookup_topic name (sh_broker st) = Ok t \<Longrightarrow>
     shared_step fops st (tick (st\<lparr>sh_pending := sh_pending st @ [(q, t, sh_time st)]\<rparr>))"
| publishes: "sh_pending st = ps @ (ReqPublish name payload, t, t0) # qs \<Longrightarrow>
     on_part t (Partition_Publish (dispatch fops) payload) (sh_broker st) = (r, b) \<Longrightarrow>
     shared_step fops st (ends (ReqPublish name payload) (RespOffset (answer r)) t0
       (st\<lparr>sh_broker := b, sh_pending := ps @ qs\<rparr>))"
| publishes_batch: "sh_pending st = ps @ (ReqPublishBatch name payloads, t, t0) # qs \<Longrightarrow>
     on_part t (Partition_PublishBatch (dispatch fops) payloads) (sh_broker st) = (r, b) \<Longrightarrow>
     shared_step fops st (ends (ReqPublishBatch name payloads) (RespOffset (answer r)) t0
       (st\<lparr>sh_broker := b, sh_pending := ps @ qs\<rparr>))"
| begins_close: "sh_closing st = None \<Longrightarrow> \<not> b_closed (sh_broker st) \<Longrightarrow>
     mset ts = mset (map snd (b_topics (sh_broker st))) \<Longrightarrow>
     shared_step fops st (tick (st\<lparr>sh_broker := (sh_broker st)\<lparr>b_closed := True\<rparr>, sh_closing := Some (ts, sh_time st)\<rparr>))"
| closes_part: "sh_closing st = Some (t # ts, t0) \<Longrightarrow> on_part t Partition_close (sh_broker st) = (r, b) \<Longrightarrow>
     shared_step fops st (tick (st\<lparr>sh_broker := b, sh_closing := Some (ts, t0)\<rparr>))"
| ends_close: "sh_closing st = Some ([], t0) \<Longrightarrow>
     shared_step fops st (ends ReqClose (RespUnit (Ok ())) t0
       (st\<lparr>sh_broker := (sh_broker st)\<lparr>b_topics := []\<rparr>, sh_closing := None\<rparr>))"
| subscribers: "t < length (b_parts (sh_broker st)) \<Longrightarrow>
     sub_part_step (dispatch fops) (b_parts (sh_broker st) ! t) p \<Longrightarrow>
     shared_step fops st (tick (st\<lparr>sh_broker := (sh_broker st)\<lparr>b_parts := (b_parts (sh_broker st))[t := p]\<rparr>\<rparr>))"

definition shared_start :: "'x broker \<Rightarrow> 'x shared" where
  "shared_start b = \<lparr>sh_broker = b, sh_closing = None, sh_pending = [], sh_done = [], sh_time = 0\<rparr>"

inductive shared_reaches :: "'x store_ops \<Rightarrow> 'x broker \<Rightarrow> 'x shared \<Rightarrow> bool"
  for fops :: "'x store_ops" and b :: "'x broker" where
  start: "shared_reaches fops b (shared_start b)"
| more: "shared_reaches fops b st \<Longrightarrow> shared_step fops st st' \<Longrightarrow> shared_reaches fops b st'"

inductive_cases sub_part_stepE: "sub_part_step ops p p'"
inductive_cases shared_stepE: "shared_step fops st st'"

section \<open>Histories\<close>

text \<open>An order of calls keeps real time when no call comes after one that began after its end.\<close>

definition in_order :: "event list \<Rightarrow> bool" where
  "in_order es \<longleftrightarrow> sorted_wrt (\<lambda>x y. \<not> ev_to y < ev_from x) es"

text \<open>A sequence of calls with the answers of the specification, from one of its states to another.\<close>

primrec explains :: "int \<Rightarrow> event list \<Rightarrow> spec \<Rightarrow> spec \<Rightarrow> bool" where
  "explains mx [] s s' \<longleftrightarrow> s = s'"
| "explains mx (e # es) s s' \<longleftrightarrow>
     fst (spec_call mx (ev_req e) s) = ev_resp e \<and> explains mx es (snd (spec_call mx (ev_req e) s)) s'"

definition payloads_of :: "event list \<Rightarrow> nat" where
  "payloads_of es = sum_list (map (\<lambda>e. payload_count (ev_req e)) es)"

lemma payloads_of_simps [simp]:
  "payloads_of [] = 0" "payloads_of (e # es) = payload_count (ev_req e) + payloads_of es"
  "payloads_of (es @ fs) = payloads_of es + payloads_of fs"
  by (simp_all add: payloads_of_def)

lemma payloads_of_mset: "mset es = mset fs \<Longrightarrow> payloads_of es = payloads_of fs"
  unfolding payloads_of_def by (metis mset_map sum_mset_sum_list)

lemma explains_append: "explains mx (es @ fs) s s' \<longleftrightarrow> (\<exists>u. explains mx es s u \<and> explains mx fs u s')"
  by (induction es arbitrary: s) auto

lemma explains_run: "explains mx es s s' \<Longrightarrow> run (spec_call mx) (map ev_req es) s = map ev_resp es"
  by (induction es arbitrary: s) auto

lemma explains_fits:
  assumes "explains mx es s s'" and "spec_fits (payloads_of es + n) s" and "fits_int64 (payloads_of es + n)"
  shows "spec_fits n s'"
  using assms
proof (induction es arbitrary: s)
  case (Cons e es)
  have fit: "fits_int64 (payloads_of es + n)"
    using Cons.prems(3) by (rule fits_int64_mono [rotated]) simp
  have "spec_fits (payload_count (ev_req e) + (payloads_of es + n)) s" using Cons.prems(2) by (simp add: add.assoc)
  from Cons.IH [OF _ spec_fits_call [OF this fit, of mx] fit] Cons.prems(1) show ?case by simp
qed simp

lemma explains_closed:
  "\<forall>e\<in>set es. spec_call mx (ev_req e) None = (ev_resp e, None) \<Longrightarrow> explains mx es None None"
  by (induction es) auto

lemma in_order_snoc: "in_order es \<Longrightarrow> \<forall>x\<in>set es. ev_from x \<le> ev_to e \<Longrightarrow> in_order (es @ [e])"
  by (auto simp: in_order_def sorted_wrt_append)

lemma in_order_mid:
  "in_order (es @ fs) \<Longrightarrow> \<forall>x\<in>set es. ev_from x \<le> ev_to e \<Longrightarrow> \<forall>y\<in>set fs. ev_from e \<le> ev_to y \<Longrightarrow> in_order (es @ e # fs)"
  by (auto simp: in_order_def sorted_wrt_append not_less)

text \<open>The \<open>Close\<close> at work, as a call that ends now.\<close>

definition open_close :: "'x shared \<Rightarrow> event list" where
  "open_close st = (case sh_closing st of None \<Rightarrow> []
     | Some (ts, t0) \<Rightarrow> [\<lparr>ev_req = ReqClose, ev_resp = RespUnit (Ok ()), ev_from = t0, ev_to = sh_time st\<rparr>])"

section \<open>The invariant\<close>

text \<open>
  While a \<open>Close\<close> is at work, the broker as if it had not begun: what the calls that looked up before see of
  the partitions that are still open.
\<close>

definition reopen :: "'x broker \<Rightarrow> 'x broker" where
  "reopen b = b\<lparr>b_closed := False, b_parts := map (\<lambda>p. p\<lparr>p_closed := False\<rparr>) (b_parts b)\<rparr>"

definition events_ok :: "'x shared \<Rightarrow> bool" where
  "events_ok st \<longleftrightarrow> (\<forall>e\<in>set (sh_done st). ev_from e \<le> ev_to e \<and> ev_to e < sh_time st)"

definition pending_ok :: "'x shared \<Rightarrow> bool" where
  "pending_ok st \<longleftrightarrow> (\<forall>(q, t, tp)\<in>set (sh_pending st).
     tp < sh_time st \<and> t < length (b_parts (sh_broker st)) \<and>
     (case sh_closing st of
        None \<Rightarrow> b_closed (sh_broker st) \<or> (\<exists>name. topic_of q = Some name \<and> map_of (b_topics (sh_broker st)) name = Some t)
      | Some (ts, t0) \<Rightarrow> tp < t0 \<and> (\<exists>name. topic_of q = Some name \<and> map_of (b_topics (sh_broker st)) name = Some t)))"

text \<open>
  The completed calls in an order the specification explains. While a \<open>Close\<close> is at work: those before
  it, and those after it, which have found their partition closed.
\<close>

definition history_ok :: "('x \<Rightarrow> bytes list) \<Rightarrow> int \<Rightarrow> 'x shared \<Rightarrow> bool" where
  "history_ok flog mx st \<longleftrightarrow>
     (case sh_closing st of
        None \<Rightarrow> (\<exists>es. mset es = mset (sh_done st) \<and> in_order es \<and>
          explains mx es (Some Map.empty) (abs_broker flog (sh_broker st)))
      | Some (ts, t0) \<Rightarrow> (\<exists>es fs. mset (es @ fs) = mset (sh_done st) \<and> in_order (es @ fs) \<and>
          explains mx es (Some Map.empty) (abs_broker flog (reopen (sh_broker st))) \<and>
          (\<forall>e\<in>set es. ev_from e < t0) \<and>
          (\<forall>e\<in>set fs. spec_call mx (ev_req e) None = (ev_resp e, None) \<and> t0 \<le> ev_to e)))"

definition state_ok :: "('x \<Rightarrow> bool) \<Rightarrow> ('x \<Rightarrow> bytes list) \<Rightarrow> int \<Rightarrow> 'x shared \<Rightarrow> bool" where
  "state_ok finv flog mx st \<longleftrightarrow>
     (let b = sh_broker st in
      b_newStore b = Some memory_factory \<and> b_maxTopics b = mx \<and>
      (case sh_closing st of
         None \<Rightarrow> broker_ok finv flog b
       | Some (ts, t0) \<Rightarrow> b_closed b \<and> broker_ok finv flog (reopen b) \<and> t0 < sh_time st \<and> distinct ts \<and>
           (\<forall>p\<in>set (b_parts b). partition_ok (store_inv finv) (store_log flog) p) \<and>
           (\<forall>t<length (b_parts b). p_closed (b_parts b ! t) \<longleftrightarrow> t \<notin> set ts) \<and> set ts \<subseteq> {..<length (b_parts b)}))"

lemma reopen_simps [simp]:
  "\<not> b_closed (reopen b)" "b_topics (reopen b) = b_topics b" "length (b_parts (reopen b)) = length (b_parts b)"
  "b_newStore (reopen b) = b_newStore b" "b_maxTopics (reopen b) = b_maxTopics b"
  "t < length (b_parts b) \<Longrightarrow> b_parts (reopen b) ! t = (b_parts b ! t)\<lparr>p_closed := False\<rparr>"
  "reopen (b\<lparr>b_parts := (b_parts b)[t := p]\<rparr>) =
     (reopen b)\<lparr>b_parts := (b_parts (reopen b))[t := p\<lparr>p_closed := False\<rparr>]\<rparr>"
  by (simp_all add: reopen_def map_update)

lemma reopen_open:
  assumes "broker_ok finv flog b" and "\<not> b_closed b"
  shows "reopen (b\<lparr>b_closed := True\<rparr>) = b"
proof -
  have "p\<lparr>p_closed := False\<rparr> = p" if "p \<in> set (b_parts b)" for p
    using that assms by (auto simp: broker_ok_def)
  then have "map (\<lambda>p. p\<lparr>p_closed := False\<rparr>) (b_parts b) = b_parts b" by (rule map_idI)
  then show ?thesis using assms(2) by (simp add: reopen_def)
qed

lemma partition_ok_reopen:
  "partition_ok sinv slog p \<Longrightarrow> partition_ok sinv slog (p\<lparr>p_closed := False\<rparr>)"
  by (simp add: partition_ok_def)

text \<open>The specification sees of a partition its log.\<close>

lemma topic_logs_store:
  assumes "t < length (b_parts b)" and "p_store p = p_store (b_parts b ! t)"
  shows "topic_logs flog (b\<lparr>b_parts := (b_parts b)[t := p]\<rparr>) = topic_logs flog b"
proof
  fix name
  show "topic_logs flog (b\<lparr>b_parts := (b_parts b)[t := p]\<rparr>) name = topic_logs flog b name"
    using assms by (cases "map_of (b_topics b) name") (auto simp: topic_logs_def nth_list_update)
qed

lemma abs_broker_store:
  assumes "t < length (b_parts b)" and "p_store p = p_store (b_parts b ! t)"
  shows "abs_broker flog (b\<lparr>b_parts := (b_parts b)[t := p]\<rparr>) = abs_broker flog b"
  by (simp add: abs_broker_def topic_logs_store [OF assms])

section \<open>Each step keeps it\<close>

context reliable_user_store
begin

lemma sub_part_step_keeps:
  assumes "sub_part_step (dispatch fops) p p'" and ok: "partition_ok (store_inv finv) (store_log flog) p"
  shows "partition_ok (store_inv finv) (store_log flog) p' \<and> p_store p' = p_store p \<and> (p_closed p' \<longleftrightarrow> p_closed p)"
  using assms(1)
proof cases
  case (subscribe r)
  have "p_store p' = p_store p" using subscribe by (auto simp: Partition_Subscribe_def Let_def split: if_splits)
  with partition_ok_subscribe [OF ok subscribe] Partition_ops_closed(3) [OF subscribe] show ?thesis by simp
next
  case (read sid mx r)
  have "p_store p' = p_store p"
    using read(2) by (auto simp: Read_locked_def update_sub_def split: if_splits outcome.splits)
  with st.Read_locked_ok [OF ok read(1) read_max_pos read(2)] Partition_ops_closed(4) [OF read(2)] show ?thesis by simp
next
  case (receive sid)
  with partition_ok_take_ready [OF ok] show ?thesis by (auto simp: take_ready_def update_sub_def)
next
  case (close_sub sid r)
  with partition_ok_Subscription_Close [OF ok close_sub] Subscription_Close_closed [OF ok close_sub] show ?thesis
    by (auto simp: Subscription_Close_eq [OF ok] update_sub_def split: if_splits)
qed

end

text \<open>The second critical section of a call on a topic.\<close>

primrec part_call :: "'x store_ops \<Rightarrow> request \<Rightarrow> ('x store partition, gerror, i64) go option" where
  "part_call fops (ReqCreate name) = None"
| "part_call fops (ReqPublish name payload) = Some (Partition_Publish (dispatch fops) payload)"
| "part_call fops (ReqPublishBatch name payloads) = Some (Partition_PublishBatch (dispatch fops) payloads)"
| "part_call fops ReqList = None"
| "part_call fops ReqCount = None"
| "part_call fops ReqClose = None"

lemma part_call_is_call:
  assumes "part_call fops q = Some m" and "topic_of q = Some name" and "lookup_topic name b = Ok t"
    and "on_part t m b = (r, b')"
  shows "broker_call fops q b = (RespOffset (answer r), b')"
  using assms by (cases q) (auto simp: Broker_Publish_def Broker_PublishBatch_def at_topic_def)

lemma part_call_closed:
  assumes "part_call fops q = Some m"
  shows "p_closed p \<Longrightarrow> m p = (fail_with ErrClosed, p)" and "m p = (r, p') \<Longrightarrow> p_closed p' \<longleftrightarrow> p_closed p"
    and "spec_call mx q None = (RespOffset (Fail (Some ErrClosed)), None)"
proof -
  show "p_closed p \<Longrightarrow> m p = (fail_with ErrClosed, p)"
    using assms by (cases q) (auto simp: Partition_Publish_def Partition_PublishBatch_def)
  show "m p = (r, p') \<Longrightarrow> p_closed p' \<longleftrightarrow> p_closed p"
    using assms by (cases q) (auto dest: Partition_ops_closed(1,2))
  show "spec_call mx q None = (RespOffset (Fail (Some ErrClosed)), None)"
    using assms by (cases q) (auto simp: spec_append_def)
qed

text \<open>A call of one section keeps what the pending calls found.\<close>

lemma one_section_keeps:
  assumes "one_section q b" and "broker_call fops q b = (a, b')" and ok: "broker_ok finv flog b"
  shows "b_closed b' = b_closed b \<and> length (b_parts b) \<le> length (b_parts b') \<and>
    (map_of (b_topics b) name = Some t \<longrightarrow> map_of (b_topics b') name = Some t)"
proof (cases q)
  case (ReqCreate n)
  from ok show ?thesis
    by (cases rule: CreateTopic_cases [where name = n])
      (use assms(2) ReqCreate in \<open>auto simp: map_add_def map_of_eq_None_iff image_iff split: option.splits\<close>)
next
  case (ReqPublish n payload)
  from ok show ?thesis
    by (cases rule: lookup_topic_cases [where b = b and name = n])
      (use assms ReqPublish in \<open>auto simp: Broker_Publish_def at_topic_def\<close>)
next
  case (ReqPublishBatch n payloads)
  from ok show ?thesis
    by (cases rule: lookup_topic_cases [where b = b and name = n])
      (use assms ReqPublishBatch in \<open>auto simp: Broker_PublishBatch_def at_topic_def\<close>)
qed (use assms in \<open>auto simp: Broker_Close_def\<close>)

lemma ends_simps [simp]:
  "sh_broker (ends q a t0 st) = sh_broker st" "sh_closing (ends q a t0 st) = sh_closing st"
  "sh_pending (ends q a t0 st) = sh_pending st" "sh_time (ends q a t0 st) = Suc (sh_time st)"
  "sh_done (ends q a t0 st) = sh_done st @ [\<lparr>ev_req = q, ev_resp = a, ev_from = t0, ev_to = sh_time st\<rparr>]"
  "sh_broker (tick st) = sh_broker st" "sh_closing (tick st) = sh_closing st"
  "sh_pending (tick st) = sh_pending st" "sh_time (tick st) = Suc (sh_time st)" "sh_done (tick st) = sh_done st"
  by (simp_all add: ends_def tick_def)

lemma events_ok_ends: "events_ok st \<Longrightarrow> t0 \<le> sh_time st \<Longrightarrow> sh_done st' = sh_done st \<Longrightarrow> sh_time st' = sh_time st \<Longrightarrow>
    events_ok (ends q a t0 st')"
  by (auto simp: events_ok_def less_Suc_eq)

lemma events_ok_tick: "events_ok st \<Longrightarrow> sh_done st' = sh_done st \<Longrightarrow> sh_time st' = sh_time st \<Longrightarrow> events_ok (tick st')"
  by (auto simp: events_ok_def less_Suc_eq)

lemma shared_step_payloads: "shared_step fops st st' \<Longrightarrow> payloads_of (sh_done st) \<le> payloads_of (sh_done st')"
  by (erule shared_stepE) simp_all

lemma events_from: "events_ok st \<Longrightarrow> \<forall>e\<in>set (sh_done st). ev_from e \<le> sh_time st"
  by (auto simp: events_ok_def intro: order.trans less_imp_le)

lemma pending_ok_keeps:
  assumes "pending_ok st" and "sh_closing st' = sh_closing st" and "set (sh_pending st') \<subseteq> set (sh_pending st)"
    and "sh_time st \<le> sh_time st'" and "length (b_parts (sh_broker st)) \<le> length (b_parts (sh_broker st'))"
    and "b_closed (sh_broker st) \<Longrightarrow> b_closed (sh_broker st')"
    and "\<And>name t. map_of (b_topics (sh_broker st)) name = Some t \<Longrightarrow> map_of (b_topics (sh_broker st')) name = Some t"
  shows "pending_ok st'"
  unfolding pending_ok_def
proof (clarify)
  fix q t tp
  assume "(q, t, tp) \<in> set (sh_pending st')"
  then have "(q, t, tp) \<in> set (sh_pending st)" using assms(3) by blast
  with assms(1) have old: "tp < sh_time st \<and> t < length (b_parts (sh_broker st)) \<and>
     (case sh_closing st of
        None \<Rightarrow> b_closed (sh_broker st) \<or> (\<exists>name. topic_of q = Some name \<and> map_of (b_topics (sh_broker st)) name = Some t)
      | Some (ts, t0) \<Rightarrow> tp < t0 \<and> (\<exists>name. topic_of q = Some name \<and> map_of (b_topics (sh_broker st)) name = Some t))"
    by (auto simp: pending_ok_def)
  show "tp < sh_time st' \<and> t < length (b_parts (sh_broker st')) \<and>
     (case sh_closing st' of
        None \<Rightarrow> b_closed (sh_broker st') \<or> (\<exists>name. topic_of q = Some name \<and> map_of (b_topics (sh_broker st')) name = Some t)
      | Some (ts, t0) \<Rightarrow> tp < t0 \<and> (\<exists>name. topic_of q = Some name \<and> map_of (b_topics (sh_broker st')) name = Some t))"
    using old assms(4-7) unfolding assms(2) by (cases "sh_closing st") auto
qed

lemma history_fits:
  assumes "explains mx es (Some Map.empty) s" and "fits_int64 (payloads_of es + n)"
  shows "spec_fits n s"
  using explains_fits [OF assms(1) _ assms(2)] by (simp add: spec_fits_def)

text \<open>A call that ends while no \<open>Close\<close> is at work comes last.\<close>

lemma history_snoc:
  assumes "history_ok flog mx st" and "events_ok st" and "sh_closing st = None" and "t0 \<le> sh_time st"
    and "spec_call mx q (abs_broker flog (sh_broker st)) = (a, abs_broker flog (sh_broker st'))"
    and "sh_done st' = sh_done st" and "sh_time st' = sh_time st" and "sh_closing st' = None"
  shows "history_ok flog mx (ends q a t0 st')"
proof -
  obtain es where es: "mset es = mset (sh_done st)" "in_order es"
    "explains mx es (Some Map.empty) (abs_broker flog (sh_broker st))"
    using assms(1,3) by (auto simp: history_ok_def)
  let ?e = "\<lparr>ev_req = q, ev_resp = a, ev_from = t0, ev_to = sh_time st\<rparr>"
  have "\<forall>x\<in>set es. ev_from x \<le> ev_to ?e"
    using events_from [OF assms(2)] by (simp add: mset_eq_setD [OF es(1)])
  then have "in_order (es @ [?e])" using es(2) by (rule in_order_snoc [rotated])
  moreover have "explains mx (es @ [?e]) (Some Map.empty) (abs_broker flog (sh_broker st'))"
    using es(3) assms(5) by (auto simp: explains_append)
  ultimately show ?thesis
    using es(1) assms(6-8) by (auto simp: history_ok_def intro!: exI [of _ "es @ [?e]"])
qed

definition lin_ok :: "('x \<Rightarrow> bool) \<Rightarrow> ('x \<Rightarrow> bytes list) \<Rightarrow> int \<Rightarrow> 'x shared \<Rightarrow> bool" where
  "lin_ok finv flog mx st \<longleftrightarrow>
     state_ok finv flog mx st \<and> pending_ok st \<and> events_ok st \<and> history_ok flog mx st"

lemma lin_okD:
  assumes "lin_ok finv flog mx st"
  shows "events_ok st" and "pending_ok st" and "history_ok flog mx st"
    and "b_newStore (sh_broker st) = Some memory_factory" and "b_maxTopics (sh_broker st) = mx"
    and "sh_closing st = None \<Longrightarrow> broker_ok finv flog (sh_broker st)"
  using assms by (auto simp: lin_ok_def state_ok_def Let_def)

lemma history_room:
  assumes "history_ok flog mx st" and "sh_closing st = None" and "fits_int64 (payloads_of (sh_done st) + n)"
  shows "spec_fits n (abs_broker flog (sh_broker st))"
proof -
  obtain es where "mset es = mset (sh_done st)" "explains mx es (Some Map.empty) (abs_broker flog (sh_broker st))"
    using assms(1,2) by (auto simp: history_ok_def)
  with history_fits [of mx es] assms(3) payloads_of_mset [of es "sh_done st"] show ?thesis by simp
qed

context reliable_user_store
begin

lemma call_ok:
  assumes "broker_call fops q b = (a, b')" and "lin_ok finv flog mx st" and "sh_broker st = b"
    and "sh_closing st = None" and "fits_int64 (payloads_of (sh_done st) + payload_count q)"
  shows "spec_call mx q (abs_broker flog b) = (a, abs_broker flog b') \<and> bok b' \<and>
    b_newStore b' = Some memory_factory \<and> b_maxTopics b' = mx"
  using broker_call_refines [OF lin_okD(6) [OF assms(2,4)] lin_okD(4) [OF assms(2)]
      history_room [OF lin_okD(3) [OF assms(2)] assms(4,5)], of a b'] assms(1,3) lin_okD(5) [OF assms(2)]
  by simp

lemma at_once_ok:
  assumes "sh_closing st = None" and "one_section q (sh_broker st)" and "broker_call fops q (sh_broker st) = (a, b)"
    and ok: "lin_ok finv flog mx st" and "fits_int64 (payloads_of (sh_done st) + payload_count q)"
  shows "lin_ok finv flog mx (ends q a (sh_time st) (st\<lparr>sh_broker := b\<rparr>))"
proof -
  note call = call_ok [OF assms(3) ok HOL.refl assms(1,5)]
  note bok = lin_okD(6) [OF ok assms(1)]
  have "history_ok flog mx (ends q a (sh_time st) (st\<lparr>sh_broker := b\<rparr>))"
    by (rule history_snoc [OF lin_okD(3,1) [OF ok] assms(1)]) (use call assms(1) in simp_all)
  moreover have "pending_ok (ends q a (sh_time st) (st\<lparr>sh_broker := b\<rparr>))"
    by (rule pending_ok_keeps [OF lin_okD(2) [OF ok]])
      (use one_section_keeps [OF assms(2,3) bok] assms(1) in simp_all)
  moreover have "events_ok (ends q a (sh_time st) (st\<lparr>sh_broker := b\<rparr>))"
    by (rule events_ok_ends [OF lin_okD(1) [OF ok]]) simp_all
  ultimately show ?thesis
    using call assms(1) by (simp add: lin_ok_def state_ok_def)
qed

text \<open>The second section of a call, no \<open>Close\<close> being at work.\<close>

lemma part_call_ok:
  assumes pend: "sh_pending st = ps @ (q, t, t0) # qs" and m: "part_call fops q = Some m"
    and r: "on_part t m (sh_broker st) = (r, b)" and none: "sh_closing st = None"
    and ok: "lin_ok finv flog mx st" and fit: "fits_int64 (payloads_of (sh_done st) + payload_count q)"
  shows "lin_ok finv flog mx (ends q (RespOffset (answer r)) t0 (st\<lparr>sh_broker := b, sh_pending := ps @ qs\<rparr>))"
proof -
  let ?b = "sh_broker st"
  note bok = lin_okD(6) [OF ok none]
  have p: "t0 < sh_time st" "t < length (b_parts ?b)"
    "b_closed ?b \<or> (\<exists>name. topic_of q = Some name \<and> map_of (b_topics ?b) name = Some t)"
    using lin_okD(2) [OF ok] none by (auto simp: pending_ok_def pend)
  have call: "spec_call mx q (abs_broker flog ?b) = (RespOffset (answer r), abs_broker flog b) \<and> bok b \<and>
      b_newStore b = Some memory_factory \<and> b_maxTopics b = mx \<and> b_closed b = b_closed ?b \<and>
      b_topics b = b_topics ?b \<and> length (b_parts b) = length (b_parts ?b)"
  proof (cases "b_closed ?b")
    case True
    then have "p_closed (b_parts ?b ! t)" using broker_okD(6) [OF bok p(2)] by simp
    then have "r = fail_with ErrClosed" "b = ?b"
      using r part_call_closed(1) [OF m, of "b_parts ?b ! t"] p(2) by (auto simp: on_part_eq)
    with True part_call_closed(3) [OF m] bok lin_okD(4,5) [OF ok] show ?thesis by simp
  next
    case False
    then obtain name where n: "topic_of q = Some name" "lookup_topic name ?b = Ok t"
      using p(3) by (auto simp: lookup_topic_def)
    from call_ok [OF part_call_is_call [OF m n r] ok HOL.refl none fit] on_part_keeps [OF r] show ?thesis by simp
  qed
  have "history_ok flog mx (ends q (RespOffset (answer r)) t0 (st\<lparr>sh_broker := b, sh_pending := ps @ qs\<rparr>))"
    by (rule history_snoc [OF lin_okD(3,1) [OF ok] none]) (use call none p(1) in simp_all)
  moreover have "pending_ok (ends q (RespOffset (answer r)) t0 (st\<lparr>sh_broker := b, sh_pending := ps @ qs\<rparr>))"
    by (rule pending_ok_keeps [OF lin_okD(2) [OF ok]]) (use call none in \<open>auto simp: pend\<close>)
  moreover have "events_ok (ends q (RespOffset (answer r)) t0 (st\<lparr>sh_broker := b, sh_pending := ps @ qs\<rparr>))"
    by (rule events_ok_ends [OF lin_okD(1) [OF ok]]) (use p(1) in simp_all)
  ultimately show ?thesis
    using call none by (simp add: lin_ok_def state_ok_def)
qed

text \<open>
  While a \<open>Close\<close> is at work: a call whose partition is closed already comes after the \<open>Close\<close>, one whose
  partition is still open before it.
\<close>

lemma history_closingD:
  assumes "history_ok flog mx st" and "sh_closing st = Some (ts, tc)"
  obtains es fs where "mset (es @ fs) = mset (sh_done st)" "in_order (es @ fs)"
    "explains mx es (Some Map.empty) (abs_broker flog (reopen (sh_broker st)))" "\<forall>e\<in>set es. ev_from e < tc"
    "\<forall>e\<in>set fs. spec_call mx (ev_req e) None = (ev_resp e, None) \<and> tc \<le> ev_to e" "set es \<union> set fs = set (sh_done st)"
proof -
  obtain es fs where h: "mset (es @ fs) = mset (sh_done st)" "in_order (es @ fs)"
    "explains mx es (Some Map.empty) (abs_broker flog (reopen (sh_broker st)))" "\<forall>e\<in>set es. ev_from e < tc"
    "\<forall>e\<in>set fs. spec_call mx (ev_req e) None = (ev_resp e, None) \<and> tc \<le> ev_to e"
    using assms by (auto simp: history_ok_def)
  from mset_eq_setD [OF h(1)] have "set es \<union> set fs = set (sh_done st)" by simp
  with h show thesis by (rule that)
qed

lemma history_closingI:
  assumes "sh_closing st = Some (ts, tc)" and "mset (es @ fs) = mset (sh_done st)" and "in_order (es @ fs)"
    and "explains mx es (Some Map.empty) (abs_broker flog (reopen (sh_broker st)))" and "\<forall>e\<in>set es. ev_from e < tc"
    and "\<forall>e\<in>set fs. spec_call mx (ev_req e) None = (ev_resp e, None) \<and> tc \<le> ev_to e"
  shows "history_ok flog mx st"
  using assms unfolding history_ok_def by auto

lemma part_call_late:
  assumes pend: "sh_pending st = ps @ (q, t, t0) # qs" and m: "part_call fops q = Some m"
    and r: "on_part t m (sh_broker st) = (r, b)" and cl: "sh_closing st = Some (ts, tc)"
    and ok: "lin_ok finv flog mx st" and closed: "p_closed (b_parts (sh_broker st) ! t)"
  shows "lin_ok finv flog mx (ends q (RespOffset (answer r)) t0 (st\<lparr>sh_broker := b, sh_pending := ps @ qs\<rparr>))"
    (is "lin_ok finv flog mx ?st")
proof -
  let ?e = "\<lparr>ev_req = q, ev_resp = RespOffset (answer r), ev_from = t0, ev_to = sh_time st\<rparr>"
  have p: "t0 < sh_time st" "t < length (b_parts (sh_broker st))"
    using lin_okD(2) [OF ok] by (auto simp: pending_ok_def pend)
  have b: "r = fail_with ErrClosed" "b = sh_broker st"
    using r part_call_closed(1) [OF m closed] p(2) by (auto simp: on_part_eq)
  have tc: "tc < sh_time st" using ok cl by (auto simp: lin_ok_def state_ok_def Let_def)
  obtain es fs where h: "mset (es @ fs) = mset (sh_done st)" "in_order (es @ fs)"
    "explains mx es (Some Map.empty) (abs_broker flog (reopen (sh_broker st)))" "\<forall>e\<in>set es. ev_from e < tc"
    "\<forall>e\<in>set fs. spec_call mx (ev_req e) None = (ev_resp e, None) \<and> tc \<le> ev_to e" "set es \<union> set fs = set (sh_done st)"
    by (rule history_closingD [OF lin_okD(3) [OF ok] cl])
  have "\<forall>x\<in>set (es @ fs). ev_from x \<le> ev_to ?e"
    using events_from [OF lin_okD(1) [OF ok]] by (auto simp flip: h(6))
  then have "in_order ((es @ fs) @ [?e])" using h(2) by (rule in_order_snoc [rotated])
  then have "history_ok flog mx ?st"
    by (intro history_closingI [of ?st ts tc es "fs @ [?e]"])
      (use h(1,3-5) b cl tc part_call_closed(3) [OF m] in auto)
  moreover have "pending_ok ?st"
    by (rule pending_ok_keeps [OF lin_okD(2) [OF ok]]) (auto simp: pend b)
  moreover have "events_ok ?st"
    by (rule events_ok_ends [OF lin_okD(1) [OF ok]]) (use p(1) in simp_all)
  ultimately show ?thesis
    using ok cl b by (auto simp: lin_ok_def state_ok_def Let_def)
qed

lemma part_call_early:
  assumes pend: "sh_pending st = ps @ (q, t, t0) # qs" and m: "part_call fops q = Some m"
    and r: "on_part t m (sh_broker st) = (r, b)" and cl: "sh_closing st = Some (ts, tc)"
    and ok: "lin_ok finv flog mx st" and opn: "\<not> p_closed (b_parts (sh_broker st) ! t)"
    and fit: "fits_int64 (payloads_of (sh_done st) + payload_count q)"
  shows "lin_ok finv flog mx (ends q (RespOffset (answer r)) t0 (st\<lparr>sh_broker := b, sh_pending := ps @ qs\<rparr>))"
    (is "lin_ok finv flog mx ?st")
proof -
  let ?b = "sh_broker st"
  let ?e = "\<lparr>ev_req = q, ev_resp = RespOffset (answer r), ev_from = t0, ev_to = sh_time st\<rparr>"
  have st: "b_closed ?b" "bok (reopen ?b)" "tc < sh_time st" "distinct ts"
    "\<forall>p\<in>set (b_parts ?b). partition_ok (store_inv finv) (store_log flog) p"
    "\<forall>t<length (b_parts ?b). p_closed (b_parts ?b ! t) \<longleftrightarrow> t \<notin> set ts" "set ts \<subseteq> {..<length (b_parts ?b)}"
    using ok cl by (auto simp: lin_ok_def state_ok_def Let_def)
  have p: "t0 < sh_time st" "t < length (b_parts ?b)" "t0 < tc"
    using lin_okD(2) [OF ok] cl by (auto simp: pending_ok_def pend)
  obtain name where n: "topic_of q = Some name" "map_of (b_topics ?b) name = Some t"
    using lin_okD(2) [OF ok] cl by (auto simp: pending_ok_def pend)
  then have l: "lookup_topic name (reopen ?b) = Ok t" by (simp add: lookup_topic_def)
  obtain p' where p': "m (b_parts ?b ! t) = (r, p')" "b = ?b\<lparr>b_parts := (b_parts ?b)[t := p']\<rparr>"
    using r p(2) by (cases "m (b_parts ?b ! t)") (auto simp: on_part_eq)
  have same: "p\<lparr>p_closed := False\<rparr> = p" if "\<not> p_closed p" for p :: "'x store partition"
    using that by (cases p) simp
  have o': "\<not> p_closed p'" using part_call_closed(2) [OF m p'(1)] opn by simp
  have "on_part t m (reopen ?b) = (r, reopen b)"
    using p(2) p' by (simp add: on_part_eq same [OF opn] same [OF o'])
  note call = part_call_is_call [OF m n(1) l this]
  obtain es fs where h: "mset (es @ fs) = mset (sh_done st)" "in_order (es @ fs)"
    "explains mx es (Some Map.empty) (abs_broker flog (reopen ?b))" "\<forall>e\<in>set es. ev_from e < tc"
    "\<forall>e\<in>set fs. spec_call mx (ev_req e) None = (ev_resp e, None) \<and> tc \<le> ev_to e" "set es \<union> set fs = set (sh_done st)"
    by (rule history_closingD [OF lin_okD(3) [OF ok] cl])
  have "payloads_of es + payload_count q \<le> payloads_of (sh_done st) + payload_count q"
    using payloads_of_mset [OF h(1)] by simp
  then have "fits_int64 (payloads_of es + payload_count q)" using fit by (rule fits_int64_mono)
  from broker_call_refines [OF st(2) _ history_fits [OF h(3) this] call] lin_okD(4,5) [OF ok]
  have ref: "spec_call mx q (abs_broker flog (reopen ?b)) = (RespOffset (answer r), abs_broker flog (reopen b))"
    "bok (reopen b)" by simp_all
  have t': "p' = b_parts (reopen b) ! t" using p(2) p'(2) by (simp add: same [OF o'])
  have "partition_ok (store_inv finv) (store_log flog) p'"
    unfolding t' by (rule broker_okD(5) [OF ref(2)]) (simp add: p(2) p'(2))
  then have parts: "\<forall>p\<in>set (b_parts b). partition_ok (store_inv finv) (store_log flog) p"
    using st(5) p'(2) set_update_subset_insert [of "b_parts ?b" t p'] by auto
  have closed: "\<forall>i<length (b_parts b). p_closed (b_parts b ! i) \<longleftrightarrow> i \<notin> set ts"
    using st(6) p(2) p'(2) opn o' by (auto simp: nth_list_update)
  have "\<forall>x\<in>set es. ev_from x \<le> ev_to ?e"
    using events_from [OF lin_okD(1) [OF ok]] by (simp flip: h(6))
  moreover have "\<forall>y\<in>set fs. ev_from ?e \<le> ev_to y" using h(5) p(3) by auto
  ultimately have ord: "in_order (es @ ?e # fs)" by (rule in_order_mid [OF h(2)])
  have "explains mx (es @ [?e]) (Some Map.empty) (abs_broker flog (reopen b))"
    using h(3) ref(1) by (auto simp: explains_append)
  then have "history_ok flog mx ?st"
    by (intro history_closingI [of ?st ts tc "es @ [?e]" fs]) (use h(1,4,5) cl p(3) ord in auto)
  moreover have "pending_ok ?st"
    by (rule pending_ok_keeps [OF lin_okD(2) [OF ok]]) (auto simp: pend p'(2))
  moreover have "events_ok ?st"
    by (rule events_ok_ends [OF lin_okD(1) [OF ok]]) (use p(1) in simp_all)
  moreover have "state_ok finv flog mx ?st"
    using lin_okD(4,5) [OF ok] cl st(1,3,4,7) ref(2) parts closed p'(2) by (simp add: state_ok_def Let_def)
  ultimately show ?thesis by (simp add: lin_ok_def)
qed

lemma looks_up_ok:
  assumes "sh_closing st = None" and "topic_of q = Some name" and "lookup_topic name (sh_broker st) = Ok t"
    and ok: "lin_ok finv flog mx st"
  shows "lin_ok finv flog mx (tick (st\<lparr>sh_pending := sh_pending st @ [(q, t, sh_time st)]\<rparr>))"
proof -
  have "map_of (b_topics (sh_broker st)) name = Some t" "\<not> b_closed (sh_broker st)"
    using assms(3) by (auto simp: lookup_topic_def split: if_splits option.splits)
  with broker_okD(3) [OF lin_okD(6) [OF ok assms(1)]] assms(1,2) lin_okD(2) [OF ok]
  have "pending_ok (tick (st\<lparr>sh_pending := sh_pending st @ [(q, t, sh_time st)]\<rparr>))"
    by (auto simp: pending_ok_def less_Suc_eq)
  moreover have "events_ok (tick (st\<lparr>sh_pending := sh_pending st @ [(q, t, sh_time st)]\<rparr>))"
    by (rule events_ok_tick [OF lin_okD(1) [OF ok]]) simp_all
  ultimately show ?thesis using ok assms(1)
    by (simp add: lin_ok_def state_ok_def history_ok_def)
qed

lemma begins_close_ok:
  assumes "sh_closing st = None" and "\<not> b_closed (sh_broker st)"
    and ts: "mset ts = mset (map snd (b_topics (sh_broker st)))" and ok: "lin_ok finv flog mx st"
  shows "lin_ok finv flog mx
    (tick (st\<lparr>sh_broker := (sh_broker st)\<lparr>b_closed := True\<rparr>, sh_closing := Some (ts, sh_time st)\<rparr>))"
    (is "lin_ok finv flog mx ?st")
proof -
  let ?b = "sh_broker st"
  note bok = lin_okD(6) [OF ok assms(1)]
  note re = reopen_open [OF bok assms(2)]
  have "distinct ts" using broker_okD(2) [OF bok] ts by (metis mset_eq_imp_distinct_iff)
  moreover have "set ts = {..<length (b_parts ?b)}"
    using mset_eq_setD [OF ts] broker_okD(9) [OF bok assms(2)] by simp
  ultimately have "state_ok finv flog mx ?st"
    using bok re assms(2) lin_okD(4,5) [OF ok] broker_okD(5,6) [OF bok]
    by (auto simp: state_ok_def Let_def in_set_conv_nth)
  moreover obtain es where es: "mset es = mset (sh_done st)" "in_order es"
    "explains mx es (Some Map.empty) (abs_broker flog ?b)"
    using lin_okD(3) [OF ok] assms(1) by (auto simp: history_ok_def)
  have "\<forall>e\<in>set es. ev_from e < sh_time st"
    using lin_okD(1) [OF ok] unfolding mset_eq_setD [OF es(1)] by (auto simp: events_ok_def)
  then have "history_ok flog mx ?st"
    by (intro history_closingI [of ?st ts "sh_time st" es "[]"]) (use es re in simp_all)
  moreover have "pending_ok ?st"
    using lin_okD(2) [OF ok] assms(1,2) by (auto simp: pending_ok_def less_Suc_eq)
  moreover have "events_ok ?st" by (rule events_ok_tick [OF lin_okD(1) [OF ok]]) simp_all
  ultimately show ?thesis by (simp add: lin_ok_def)
qed

text \<open>Replacing a partition by one with the same log: a step the specification does not see.\<close>

lemma silent_ok:
  assumes ok: "lin_ok finv flog mx st" and t: "t < length (b_parts (sh_broker st))"
    and p: "partition_ok (store_inv finv) (store_log flog) p" "p_store p = p_store (b_parts (sh_broker st) ! t)"
    and cl: "case sh_closing st of
        None \<Rightarrow> sh_closing st' = None \<and> (p_closed p \<longleftrightarrow> p_closed (b_parts (sh_broker st) ! t))
      | Some (ts, t0) \<Rightarrow> (\<exists>us. sh_closing st' = Some (us, t0) \<and> distinct us \<and> set us \<subseteq> set ts \<and> (p_closed p \<longleftrightarrow> t \<notin> set us) \<and>
          (\<forall>i. i \<noteq> t \<longrightarrow> (i \<in> set us \<longleftrightarrow> i \<in> set ts)))"
    and st': "sh_broker st' = (sh_broker st)\<lparr>b_parts := (b_parts (sh_broker st))[t := p]\<rparr>"
      "sh_pending st' = sh_pending st" "sh_done st' = sh_done st" "sh_time st' = sh_time st"
  shows "lin_ok finv flog mx (tick st')"
proof -
  let ?b = "sh_broker st"
  have ev: "events_ok (tick st')" by (rule events_ok_tick [OF lin_okD(1) [OF ok] st'(3,4)])
  show ?thesis
  proof (cases "sh_closing st")
    case None
    note bok = lin_okD(6) [OF ok None]
    have c: "sh_closing st' = None" "p_closed p \<longleftrightarrow> p_closed (b_parts ?b ! t)" using cl None by simp_all
    have "pending_ok (tick st')"
      by (rule pending_ok_keeps [OF lin_okD(2) [OF ok]]) (use st' c None in simp_all)
    moreover have "history_ok flog mx (tick st')"
      using lin_okD(3) [OF ok] None c st' abs_broker_store [OF t p(2), of flog] by (simp add: history_ok_def)
    moreover have "state_ok finv flog mx (tick st')"
      using lin_okD(4,5) [OF ok] broker_ok_part [OF bok t p(1) c(2)] c st' by (simp add: state_ok_def)
    ultimately show ?thesis using ev by (simp add: lin_ok_def)
  next
    case (Some x)
    obtain ts t0 where x: "sh_closing st = Some (ts, t0)" using Some by (cases x) simp
    obtain us where us: "sh_closing st' = Some (us, t0)" "distinct us" "set us \<subseteq> set ts" "p_closed p \<longleftrightarrow> t \<notin> set us"
      "\<forall>i. i \<noteq> t \<longrightarrow> (i \<in> set us \<longleftrightarrow> i \<in> set ts)" using cl x by auto
    have st: "b_closed ?b" "bok (reopen ?b)" "t0 < sh_time st"
      "\<forall>p\<in>set (b_parts ?b). partition_ok (store_inv finv) (store_log flog) p"
      "\<forall>t<length (b_parts ?b). p_closed (b_parts ?b ! t) \<longleftrightarrow> t \<notin> set ts" "set ts \<subseteq> {..<length (b_parts ?b)}"
      using ok x by (auto simp: lin_ok_def state_ok_def Let_def)
    have re: "reopen (sh_broker st') = (reopen ?b)\<lparr>b_parts := (b_parts (reopen ?b))[t := p\<lparr>p_closed := False\<rparr>]\<rparr>"
      by (simp add: st')
    have "abs_broker flog (reopen (sh_broker st')) = abs_broker flog (reopen ?b)"
      unfolding re by (rule abs_broker_store) (simp_all add: t p(2))
    then have "history_ok flog mx (tick st')"
      using lin_okD(3) [OF ok] x us(1) st' by (simp add: history_ok_def)
    moreover have "bok (reopen (sh_broker st'))"
      unfolding re by (rule broker_ok_part [OF st(2)]) (simp_all add: t partition_ok_reopen [OF p(1)])
    moreover have "\<forall>q\<in>set (b_parts (sh_broker st')). partition_ok (store_inv finv) (store_log flog) q"
      using st(4) p(1) set_update_subset_insert [of "b_parts ?b" t p] by (auto simp: st'(1))
    moreover have "\<forall>i<length (b_parts ?b). p_closed (b_parts (sh_broker st') ! i) \<longleftrightarrow> i \<notin> set us"
      using st(5) t us(4,5) by (auto simp: st'(1) nth_list_update)
    moreover have "set us \<subseteq> {..<length (b_parts ?b)}" using us(3) st(6) by blast
    moreover have "pending_ok (tick st')"
      using lin_okD(2) [OF ok] x us(1) by (auto simp: pending_ok_def st' less_Suc_eq)
    ultimately show ?thesis
      using ev lin_okD(4,5) [OF ok] us(1,2) st(1,3) st' by (simp add: lin_ok_def state_ok_def Let_def)
  qed
qed

lemma ends_close_ok:
  assumes cl: "sh_closing st = Some ([], t0)" and ok: "lin_ok finv flog mx st"
  shows "lin_ok finv flog mx (ends ReqClose (RespUnit (Ok ())) t0
    (st\<lparr>sh_broker := (sh_broker st)\<lparr>b_topics := []\<rparr>, sh_closing := None\<rparr>))" (is "lin_ok finv flog mx ?st")
proof -
  let ?b = "sh_broker st"
  let ?e = "\<lparr>ev_req = ReqClose, ev_resp = RespUnit (Ok ()), ev_from = t0, ev_to = sh_time st\<rparr>"
  have st: "b_closed ?b" "bok (reopen ?b)" "t0 < sh_time st"
    "\<forall>p\<in>set (b_parts ?b). partition_ok (store_inv finv) (store_log flog) p"
    "\<forall>t<length (b_parts ?b). p_closed (b_parts ?b ! t)"
    using ok cl by (auto simp: lin_ok_def state_ok_def Let_def)
  then have "\<forall>p\<in>set (b_parts ?b). p_closed p" by (auto simp: in_set_conv_nth)
  with st(1,2,4) have "bok (?b\<lparr>b_topics := []\<rparr>)" by (auto simp: broker_ok_def factory_ok_def)
  then have "state_ok finv flog mx ?st" using lin_okD(4,5) [OF ok] by (simp add: state_ok_def)
  moreover obtain es fs where h: "mset (es @ fs) = mset (sh_done st)" "in_order (es @ fs)"
    "explains mx es (Some Map.empty) (abs_broker flog (reopen ?b))" "\<forall>e\<in>set es. ev_from e < t0"
    "\<forall>e\<in>set fs. spec_call mx (ev_req e) None = (ev_resp e, None) \<and> t0 \<le> ev_to e" "set es \<union> set fs = set (sh_done st)"
    by (rule history_closingD [OF lin_okD(3) [OF ok] cl])
  have "in_order (es @ ?e # fs)"
    by (rule in_order_mid [OF h(2)]) (use h(4,5) st(3) in auto)
  moreover have "explains mx (es @ ?e # fs) (Some Map.empty) None"
    using h(3) explains_closed [of fs mx] h(5) by (auto simp: explains_append)
  ultimately have "history_ok flog mx ?st"
    using h(1) st(1) by (auto simp: history_ok_def intro!: exI [of _ "es @ ?e # fs"])
  moreover have "pending_ok ?st"
    using lin_okD(2) [OF ok] cl st(1) by (auto simp: pending_ok_def less_Suc_eq)
  moreover have "events_ok ?st" by (rule events_ok_ends [OF lin_okD(1) [OF ok]]) (use st(3) in simp_all)
  ultimately show ?thesis using \<open>state_ok finv flog mx ?st\<close> by (simp add: lin_ok_def)
qed

section \<open>Linearizability\<close>

lemma second_section_ok:
  assumes "sh_pending st = ps @ (q, t, t0) # qs" and "part_call fops q = Some m"
    and "on_part t m (sh_broker st) = (r, b)" and "lin_ok finv flog mx st"
    and "fits_int64 (payloads_of (sh_done st) + payload_count q)"
  shows "lin_ok finv flog mx (ends q (RespOffset (answer r)) t0 (st\<lparr>sh_broker := b, sh_pending := ps @ qs\<rparr>))"
proof (cases "sh_closing st")
  case None
  from part_call_ok [OF assms(1-3) this assms(4,5)] show ?thesis .
next
  case (Some x)
  then obtain ts tc where x: "sh_closing st = Some (ts, tc)" by (cases x) simp
  show ?thesis
    using part_call_late [OF assms(1-3) x assms(4)] part_call_early [OF assms(1-3) x assms(4) _ assms(5)] by blast
qed

lemma shared_step_ok:
  assumes "shared_step fops st st'" and ok: "lin_ok finv flog mx st" and fit: "fits_int64 (payloads_of (sh_done st'))"
  shows "lin_ok finv flog mx st'"
  using assms(1)
proof cases
  case (at_once q a b)
  from at_once_ok [OF at_once(2-4) ok] fit show ?thesis by (simp add: at_once(1) add.commute)
next
  case (looks_up q name t)
  from looks_up_ok [OF looks_up(2-4) ok] show ?thesis by (simp add: looks_up(1))
next
  case (publishes ps name payload t t0 qs r b)
  have "fits_int64 (payloads_of (sh_done st) + payload_count (ReqPublish name payload))"
    using fit by (simp add: publishes(1))
  from second_section_ok [OF publishes(2) _ publishes(3) ok this] show ?thesis by (simp add: publishes(1))
next
  case (publishes_batch ps name payloads t t0 qs r b)
  have "fits_int64 (payloads_of (sh_done st) + payload_count (ReqPublishBatch name payloads))"
    using fit by (simp add: publishes_batch(1))
  from second_section_ok [OF publishes_batch(2) _ publishes_batch(3) ok this] show ?thesis
    by (simp add: publishes_batch(1))
next
  case (begins_close ts)
  from begins_close_ok [OF begins_close(2-4) ok] show ?thesis by (simp add: begins_close(1))
next
  case (closes_part t ts t0 r b)
  let ?p = "b_parts (sh_broker st) ! t"
  have st: "distinct (t # ts)" "t < length (b_parts (sh_broker st))" "set ts \<subseteq> {..<length (b_parts (sh_broker st))}"
    "\<forall>p\<in>set (b_parts (sh_broker st)). partition_ok (store_inv finv) (store_log flog) p"
    using ok closes_part(2) by (auto simp: lin_ok_def state_ok_def Let_def)
  then have p: "partition_ok (store_inv finv) (store_log flog) ?p" by simp
  have "b = (sh_broker st)\<lparr>b_parts := (b_parts (sh_broker st))[t := closed_part ?p]\<rparr>"
    using closes_part(3) Partition_close_closed_part [OF p] by (simp add: on_part_eq st(2))
  then show ?thesis
    unfolding closes_part(1)
    by (intro silent_ok [OF ok st(2) closed_part_facts(1,3) [OF p]])
      (use closes_part(2) st(1) closed_part_facts(2) [OF p] in auto)
next
  case (ends_close t0)
  from ends_close_ok [OF ends_close(2) ok] show ?thesis by (simp add: ends_close(1))
next
  case (subscribers t p)
  let ?p = "b_parts (sh_broker st) ! t"
  have "partition_ok (store_inv finv) (store_log flog) ?p"
  proof (cases "sh_closing st")
    case None
    from broker_okD(5) [OF lin_okD(6) [OF ok None] subscribers(2)] show ?thesis .
  next
    case (Some x)
    then show ?thesis using ok subscribers(2) by (cases x) (simp add: lin_ok_def state_ok_def Let_def)
  qed
  from sub_part_step_keeps [OF subscribers(3) this]
  have p: "partition_ok (store_inv finv) (store_log flog) p" "p_store p = p_store ?p" "p_closed p \<longleftrightarrow> p_closed ?p" by auto
  show ?thesis
    unfolding subscribers(1)
  proof (rule silent_ok [OF ok subscribers(2) p(1,2)])
    have "p_closed ?p \<longleftrightarrow> t \<notin> set ts" "distinct ts" if "sh_closing st = Some (ts, t0)" for ts t0
      using ok that subscribers(2) by (auto simp: lin_ok_def state_ok_def Let_def)
    then show "case sh_closing st of
        None \<Rightarrow> sh_closing (st\<lparr>sh_broker := (sh_broker st)\<lparr>b_parts := (b_parts (sh_broker st))[t := p]\<rparr>\<rparr>) = None \<and>
          (p_closed p \<longleftrightarrow> p_closed ?p)
      | Some (ts, t0) \<Rightarrow> (\<exists>us. sh_closing (st\<lparr>sh_broker := (sh_broker st)\<lparr>b_parts := (b_parts (sh_broker st))[t := p]\<rparr>\<rparr>) = Some (us, t0) \<and>
          distinct us \<and> set us \<subseteq> set ts \<and> (p_closed p \<longleftrightarrow> t \<notin> set us) \<and> (\<forall>i. i \<noteq> t \<longrightarrow> (i \<in> set us \<longleftrightarrow> i \<in> set ts)))"
      using p(3) by (auto split: option.splits)
  qed simp_all
qed

lemma shared_reaches_ok:
  assumes "shared_reaches fops b st" and "bok b" and "b_newStore b = Some memory_factory" and "b_maxTopics b = mx"
    and "abs_broker flog b = Some Map.empty" and "fits_int64 (payloads_of (sh_done st))"
  shows "lin_ok finv flog mx st"
  using assms(1,6)
proof induction
  case start
  show ?case
    using assms(2-5) by (simp add: lin_ok_def state_ok_def pending_ok_def events_ok_def history_ok_def shared_start_def in_order_def)
next
  case (more st st')
  have "fits_int64 (payloads_of (sh_done st))"
    using more.prems by (rule fits_int64_mono [OF shared_step_payloads [OF more.hyps(2)]])
  from shared_step_ok [OF more.hyps(2) more.IH [OF this] more.prems] show ?case .
qed

lemma lin_ok_linearizable:
  assumes ok: "lin_ok finv flog mx st"
  shows "\<exists>es. mset es = mset (sh_done st @ open_close st) \<and> in_order es \<and>
    run (spec_call mx) (map ev_req es) (Some Map.empty) = map ev_resp es"
proof (cases "sh_closing st")
  case None
  then obtain es where "mset es = mset (sh_done st)" "in_order es"
    "explains mx es (Some Map.empty) (abs_broker flog (sh_broker st))"
    using lin_okD(3) [OF ok] by (auto simp: history_ok_def)
  with None explains_run show ?thesis by (intro exI [of _ es]) (simp add: open_close_def)
next
  case (Some x)
  obtain ts t0 where x: "sh_closing st = Some (ts, t0)" using Some by (cases x) simp
  obtain es fs where h: "mset (es @ fs) = mset (sh_done st)" "in_order (es @ fs)"
    "explains mx es (Some Map.empty) (abs_broker flog (reopen (sh_broker st)))" "\<forall>e\<in>set es. ev_from e < t0"
    "\<forall>e\<in>set fs. spec_call mx (ev_req e) None = (ev_resp e, None) \<and> t0 \<le> ev_to e" "set es \<union> set fs = set (sh_done st)"
    by (rule history_closingD [OF lin_okD(3) [OF ok] x])
  let ?e = "\<lparr>ev_req = ReqClose, ev_resp = RespUnit (Ok ()), ev_from = t0, ev_to = sh_time st\<rparr>"
  have "t0 < sh_time st" using ok x by (auto simp: lin_ok_def state_ok_def Let_def)
  then have "in_order (es @ ?e # fs)" by (intro in_order_mid [OF h(2)]) (use h(4,5) in auto)
  moreover have "explains mx (es @ ?e # fs) (Some Map.empty) None"
    using h(3) explains_closed [of fs mx] h(5) by (auto simp: explains_append)
  ultimately show ?thesis
    using h(1) explains_run [of mx "es @ ?e # fs"] x by (intro exI [of _ "es @ ?e # fs"]) (auto simp: open_close_def)
qed

end

end
