(* ===== verification/Broker_Api.thy ===== *)
theory Broker_Api
  imports Broker_Spec
begin

text \<open>
  The whole API of the broker: beside the requests of \<open>Broker_Spec\<close>, \<open>Subscribe\<close> and \<open>SubscriberCount\<close>, and
  the subscriptions that \<open>Subscribe\<close> has returned, with their \<open>Read\<close> and \<open>Close\<close>. A caller names a
  subscription by its number, in the order of the calls of \<open>Subscribe\<close>.
\<close>

section \<open>Calls\<close>

datatype api =
    Api request
  | ApiSubscribe gostring
  | ApiSubscribers gostring
  | ApiRead nat i64
  | ApiCloseSub nat

datatype api_response =
    Plain response
  | Subscribed "unit answer"
  | Subscribers "nat answer"
  | Received "message list answer"
  | Waits
  | SubClosed "unit answer"
  | NoSubscription

type_synonym handle = "nat \<times> nat"

text \<open>
  A \<open>Read\<close> that finds no message waits for others, which in one goroutine's sequence of calls do nothing:
  with a context that is already cancelled it returns the context's error, after one more look when a
  token was left in \<open>ready\<close>. \<open>Waits\<close> stands for it.
\<close>

definition read_answer :: "message list option result \<Rightarrow> api_response" where
  "read_answer r =
     (case r of
        Ok None \<Rightarrow> Waits
      | Ok (Some ms) \<Rightarrow> Received (Ok ms)
      | Fail e \<Rightarrow> Received (Fail (error_root e))
      | Panic \<Rightarrow> Received Panic)"

primrec api_call ::
    "'x store_ops \<Rightarrow> api \<Rightarrow> 'x broker \<times> handle list \<Rightarrow> api_response \<times> ('x broker \<times> handle list)" where
  "api_call fops (Api q) st = (case broker_call fops q (fst st) of (a, b) \<Rightarrow> (Plain a, (b, snd st)))"
| "api_call fops (ApiSubscribe name) st =
     (case Broker_Subscribe name (fst st) of
        (Ok h, b) \<Rightarrow> (Subscribed (Ok ()), (b, snd st @ [h]))
      | (Fail e, b) \<Rightarrow> (Subscribed (Fail (error_root e)), (b, snd st))
      | (Panic, b) \<Rightarrow> (Subscribed Panic, (b, snd st)))"
| "api_call fops (ApiSubscribers name) st =
     (case SubscriberCount name (fst st) of (r, b) \<Rightarrow> (Subscribers (answer r), (b, snd st)))"
| "api_call fops (ApiRead i mx) st =
     (if i < length (snd st)
      then (case snd st ! i of (t, sid) \<Rightarrow>
        case on_part t (Read_locked (dispatch fops) sid (read_max mx)) (fst st) of
          (r, b) \<Rightarrow> (read_answer r, (b, snd st)))
      else (NoSubscription, st))"
| "api_call fops (ApiCloseSub i) st =
     (if i < length (snd st)
      then (case snd st ! i of (t, sid) \<Rightarrow>
        case on_part t (Subscription_Close sid) (fst st) of (r, b) \<Rightarrow> (SubClosed (answer r), (b, snd st)))
      else (NoSubscription, st))"

section \<open>The specification\<close>

text \<open>
  A subscription is its topic's name, the number of messages it has returned, and whether it is open.
  Closing the broker ends all of them.
\<close>

type_synonym spec_sub = "gostring \<times> nat \<times> bool"

definition spec_SubscriberCount :: "gostring \<Rightarrow> spec \<Rightarrow> spec_sub list \<Rightarrow> nat answer" where
  "spec_SubscriberCount name s subs =
     (case spec_Subscribe name s of
        Ok _ \<Rightarrow> Ok (length (filter (\<lambda>(n, k, opn). n = name \<and> opn) subs))
      | Fail e \<Rightarrow> Fail e
      | Panic \<Rightarrow> Panic)"

definition spec_Read :: "i64 \<Rightarrow> spec \<Rightarrow> spec_sub \<Rightarrow> api_response \<times> spec_sub" where
  "spec_Read mx s sub =
     (case sub of (name, k, opn) \<Rightarrow>
      case s of
        None \<Rightarrow> (Received (Fail (Some ErrClosed)), sub)
      | Some m \<Rightarrow>
          (let ms = take (nat (max 1 (sint mx))) (drop k (messages (the (m name)))) in
           if \<not> opn then (Received (Fail (Some ErrClosed)), sub)
           else if ms = [] then (Waits, sub)
           else (Received (Ok ms), (name, k + length ms, opn))))"

primrec spec_api :: "int \<Rightarrow> api \<Rightarrow> spec \<times> spec_sub list \<Rightarrow> api_response \<times> (spec \<times> spec_sub list)" where
  "spec_api lim (Api q) st = (case spec_call lim q (fst st) of (a, s) \<Rightarrow> (Plain a, (s, snd st)))"
| "spec_api lim (ApiSubscribe name) st =
     (Subscribed (spec_Subscribe name (fst st)),
      (fst st, if spec_Subscribe name (fst st) = Ok () then snd st @ [(name, 0, True)] else snd st))"
| "spec_api lim (ApiSubscribers name) st = (Subscribers (spec_SubscriberCount name (fst st) (snd st)), st)"
| "spec_api lim (ApiRead i mx) st =
     (if i < length (snd st)
      then (case spec_Read mx (fst st) (snd st ! i) of (a, sub) \<Rightarrow> (a, (fst st, (snd st)[i := sub])))
      else (NoSubscription, st))"
| "spec_api lim (ApiCloseSub i) st =
     (if i < length (snd st)
      then (case snd st ! i of (name, k, opn) \<Rightarrow> (SubClosed (Ok ()), (fst st, (snd st)[i := (name, k, False)])))
      else (NoSubscription, st))"

section \<open>Handles and subscriptions correspond\<close>

primrec handle_ok :: "'x broker \<Rightarrow> handle \<Rightarrow> spec_sub \<Rightarrow> bool" where
  "handle_ok b (t, sid) sub =
     (t < length (b_parts b) \<and> sid < length (p_heap (b_parts b ! t)) \<and>
      (\<not> b_closed b \<longrightarrow>
         map_of (b_topics b) (fst sub) = Some t \<and>
         unat (s_offset (p_heap (b_parts b ! t) ! sid)) = fst (snd sub) \<and>
         s_done (p_heap (b_parts b ! t) ! sid) = (\<not> snd (snd sub))))"

definition all_handles :: "'x broker \<Rightarrow> handle set" where
  "all_handles b = {(t, sid). t < length (b_parts b) \<and> sid < length (p_heap (b_parts b ! t))}"

definition handles_ok :: "'x broker \<Rightarrow> handle list \<Rightarrow> spec_sub list \<Rightarrow> bool" where
  "handles_ok b hs subs \<longleftrightarrow> list_all2 (handle_ok b) hs subs \<and> distinct hs \<and> set hs = all_handles b"

text \<open>What every request keeps of the subscriptions.\<close>

definition keeps_subs :: "'s partition \<Rightarrow> 's partition \<Rightarrow> bool" where
  "keeps_subs p p' \<longleftrightarrow> length (p_heap p') = length (p_heap p) \<and>
     (\<forall>i<length (p_heap p). s_offset (p_heap p' ! i) = s_offset (p_heap p ! i) \<and> s_done (p_heap p' ! i) = s_done (p_heap p ! i))"

lemma keeps_subs_refl [simp]: "keeps_subs p p"
  by (simp add: keeps_subs_def)

lemma keeps_subs_signal [simp]: "keeps_subs p (signal_subs sids (p\<lparr>p_store := st\<rparr>))" "keeps_subs p (p\<lparr>p_store := st\<rparr>)"
  by (simp_all add: keeps_subs_def p_heap_signal_subs)

lemma publishing_keeps_subs:
  "Partition_Publish ops payload p = (r, p') \<Longrightarrow> keeps_subs p p'"
  "Partition_PublishBatch ops payloads p = (r, p') \<Longrightarrow> keeps_subs p p'"
  by (auto simp: Partition_Publish_def Partition_PublishBatch_def Let_def split: if_splits prod.splits outcome.splits)

definition frame_ok :: "'x broker \<Rightarrow> 'x broker \<Rightarrow> bool" where
  "frame_ok b b' \<longleftrightarrow> all_handles b' = all_handles b \<and>
     (\<not> b_closed b' \<longrightarrow> \<not> b_closed b \<and>
        (\<forall>name t. map_of (b_topics b) name = Some t \<longrightarrow> map_of (b_topics b') name = Some t) \<and>
        (\<forall>t<length (b_parts b). keeps_subs (b_parts b ! t) (b_parts b' ! t)))"

lemma frame_ok_refl [simp]: "frame_ok b b"
  by (simp add: frame_ok_def)

lemma handles_ok_frame:
  assumes "handles_ok b hs subs" and "frame_ok b b'"
  shows "handles_ok b' hs subs"
proof -
  have "handle_ok b' h sub" if "handle_ok b h sub" for h sub
  proof (cases h)
    case (Pair t sid)
    have "h \<in> all_handles b" using that Pair by (simp add: all_handles_def)
    then have "h \<in> all_handles b'" using assms(2) by (simp add: frame_ok_def)
    then show ?thesis using that assms(2) Pair by (auto simp: frame_ok_def all_handles_def keeps_subs_def)
  qed
  then have "list_all2 (handle_ok b) hs subs \<Longrightarrow> list_all2 (handle_ok b') hs subs" using list_all2_mono by blast
  with assms show ?thesis by (simp add: handles_ok_def frame_ok_def)
qed

lemma frame_ok_part:
  assumes "t < length (b_parts b)" and "keeps_subs (b_parts b ! t) p"
  shows "frame_ok b (b\<lparr>b_parts := (b_parts b)[t := p]\<rparr>)"
  using assms by (auto simp: frame_ok_def all_handles_def keeps_subs_def nth_list_update split: if_splits)

lemma frame_ok_at_topic:
  assumes ok: "broker_ok finv flog b" and r: "at_topic what name m b = (r, b')"
    and m: "\<And>p r p'. m p = (r, p') \<Longrightarrow> keeps_subs p p'"
  shows "frame_ok b b'"
  using ok
proof (cases rule: at_topic_cases [where what = what and name = name and m = m])
  case (found t q p)
  with r frame_ok_part [OF found(3) m [OF found(4)]] show ?thesis by simp
qed (use r in auto)

lemma frame_ok_call:
  assumes ok: "broker_ok finv flog b" and r: "broker_call fops q b = (a, b')"
  shows "frame_ok b b'"
proof (cases q)
  case (ReqCreate name)
  then have b': "snd (CreateTopic name b) = b'" using r by (auto simp: apfst_def map_prod_def split: prod.splits)
  from ok show ?thesis
  proof (cases rule: CreateTopic_cases [where name = name])
    case (ok f st)
    have "map_of (b_topics b) n = Some t \<Longrightarrow> n \<noteq> name" for n t
      using ok(3) by (auto dest: map_of_SomeD intro: rev_image_eqI)
    with ok b' show ?thesis
      by (auto simp: frame_ok_def all_handles_def nth_append newPartition_def map_add_Some_iff less_Suc_eq
          split: if_splits)
  qed (use b' in \<open>auto simp: frame_ok_def all_handles_def\<close>)
next
  case (ReqPublish name payload)
  then show ?thesis
    using r frame_ok_at_topic [OF ok, where what = "ascii ''publish to''" and name = name and
        m = "Partition_Publish (dispatch fops) payload"] publishing_keeps_subs(1)
    by (fastforce simp: Broker_Publish_def apfst_def map_prod_def split: prod.splits)
next
  case (ReqPublishBatch name payloads)
  then show ?thesis
    using r frame_ok_at_topic [OF ok, where what = "ascii ''publish to''" and name = name and
        m = "Partition_PublishBatch (dispatch fops) payloads"] publishing_keeps_subs(2)
    by (fastforce simp: Broker_PublishBatch_def apfst_def map_prod_def split: prod.splits)
next
  case ReqClose
  then have "b' = snd (Broker_Close b)" using r by (auto simp: apfst_def map_prod_def split: prod.splits)
  moreover have "length (p_heap (closed_part (b_parts b ! t))) = length (p_heap (b_parts b ! t))"
    if "t < length (b_parts b)" for t
    using Partition_close_eq [OF broker_okD(5) [OF ok that]] Partition_close_closed_part [OF broker_okD(5) [OF ok that]]
    by auto
  ultimately show ?thesis
    by (auto simp: Broker_Close_eq [OF ok] frame_ok_def all_handles_def)
qed (use r in simp_all)

lemma map_of_topics_inj:
  assumes "broker_ok finv flog b" and "map_of (b_topics b) n = Some t" and "map_of (b_topics b) name = Some t"
  shows "n = name"
proof -
  have "(n, t) \<in> set (b_topics b)" "(name, t) \<in> set (b_topics b)" using assms(2,3) by (auto dest: map_of_SomeD)
  then show ?thesis using broker_okD(2) [OF assms(1)] by (fastforce simp: distinct_map inj_on_def)
qed

lemma list_all2_filter_length:
  "list_all2 R xs ys \<Longrightarrow> (\<And>x y. R x y \<Longrightarrow> P x \<longleftrightarrow> Q y) \<Longrightarrow> length (filter P xs) = length (filter Q ys)"
  by (induction rule: list_all2_induct) auto

lemma subscriberCount_subs:
  assumes ok: "broker_ok finv flog b" and h: "handles_ok b hs subs" and opn: "\<not> b_closed b"
    and t: "map_of (b_topics b) name = Some t"
  shows "subscriberCount (b_parts b ! t) = length (filter (\<lambda>(n, k, opn). n = name \<and> opn) subs)"
proof -
  have lt: "t < length (b_parts b)" using broker_okD(3) [OF ok t] by simp
  note pok = broker_okD(5) [OF ok lt]
  let ?P = "\<lambda>(t', sid). t' = t \<and> \<not> s_done (p_heap (b_parts b ! t') ! sid)"
  have "set (filter ?P hs) = Pair t ` set (p_subs (b_parts b ! t))"
    using h lt partition_okD(3,4) [OF pok] by (auto simp: handles_ok_def all_handles_def)
  then have "card (set (filter ?P hs)) = length (p_subs (b_parts b ! t))"
    using distinct_card [OF partition_okD(2) [OF pok]] by (simp add: card_image inj_on_def)
  moreover have "card (set (filter ?P hs)) = length (filter ?P hs)"
    using h by (intro distinct_card) (simp add: handles_ok_def)
  moreover have "length (filter ?P hs) = length (filter (\<lambda>(n, k, opn). n = name \<and> opn) subs)"
  proof (rule list_all2_filter_length)
    show "list_all2 (handle_ok b) hs subs" using h by (simp add: handles_ok_def)
  next
    fix h sub
    assume r: "handle_ok b h sub"
    obtain t' sid n k o' where hs: "h = (t', sid)" "sub = (n, k, o')" by (metis prod.exhaust)
    with r opn have "map_of (b_topics b) n = Some t'" "s_done (p_heap (b_parts b ! t') ! sid) = (\<not> o')" by auto
    moreover from this t have "t' = t \<longleftrightarrow> n = name" using map_of_topics_inj [OF ok, of n t name] by auto
    ultimately show "?P h \<longleftrightarrow> (case sub of (n, k, opn) \<Rightarrow> n = name \<and> opn)" by (simp add: hs)
  qed
  ultimately show ?thesis by (simp add: subscriberCount_def)
qed

text \<open>A change of one subscription.\<close>

lemma handles_ok_update:
  assumes h: "handles_ok b hs subs" and i: "i < length hs" "hs ! i = (t, sid)"
    and p: "p_heap p = (p_heap (b_parts b ! t))[sid := s]"
    and sub: "handle_ok (b\<lparr>b_parts := (b_parts b)[t := p]\<rparr>) (t, sid) sub"
  shows "handles_ok (b\<lparr>b_parts := (b_parts b)[t := p]\<rparr>) hs (subs[i := sub])"
proof -
  let ?b = "b\<lparr>b_parts := (b_parts b)[t := p]\<rparr>"
  have len: "length subs = length hs" and dist: "distinct hs"
    and all: "\<And>j. j < length hs \<Longrightarrow> handle_ok b (hs ! j) (subs ! j)"
    using h by (auto simp: handles_ok_def list_all2_conv_all_nth)
  have t: "t < length (b_parts b)" using all [OF i(1)] i(2) by simp
  have "handle_ok ?b (hs ! j) (subs[i := sub] ! j)" if j: "j < length hs" for j
  proof (cases "j = i")
    case True
    with sub i len t show ?thesis by simp
  next
    case False
    then have "hs ! j \<noteq> (t, sid)" using dist i j nth_eq_iff_index_eq by metis
    then show ?thesis
      using all [OF j] False p t by (cases "hs ! j") (auto simp: nth_list_update)
  qed
  moreover have "all_handles ?b = all_handles b"
    using p t by (auto simp: all_handles_def nth_list_update split: if_splits)
  ultimately show ?thesis using h len by (simp add: handles_ok_def list_all2_conv_all_nth)
qed

lemma handles_ok_nth:
  assumes "handles_ok b hs subs" and "i < length hs" and "hs ! i = (t, sid)"
  shows "i < length subs" and "handle_ok b (t, sid) (subs ! i)"
  using assms by (auto simp: handles_ok_def list_all2_conv_all_nth)

lemma handles_ok_length: "handles_ok b hs subs \<Longrightarrow> length subs = length hs"
  by (auto simp: handles_ok_def dest: list_all2_lengthD)

lemma handles_ok_subscribe:
  assumes h: "handles_ok b hs subs" and t: "t < length (b_parts b)" "map_of (b_topics b) name = Some t"
    and p: "p_heap p = p_heap (b_parts b ! t) @ [\<lparr>s_offset = 0, s_ready = False, s_done = False\<rparr>]"
  shows "handles_ok (b\<lparr>b_parts := (b_parts b)[t := p]\<rparr>) (hs @ [(t, length (p_heap (b_parts b ! t)))])
    (subs @ [(name, 0, True)])"
proof -
  let ?b = "b\<lparr>b_parts := (b_parts b)[t := p]\<rparr>"
  have "handle_ok b h sub \<Longrightarrow> handle_ok ?b h sub" for h sub
    using t p by (cases h) (auto simp: nth_list_update nth_append)
  then have "list_all2 (handle_ok b) hs subs \<Longrightarrow> list_all2 (handle_ok ?b) hs subs" using list_all2_mono by blast
  moreover have "all_handles ?b = insert (t, length (p_heap (b_parts b ! t))) (all_handles b)"
    using t p by (auto simp: all_handles_def nth_list_update less_Suc_eq split: if_splits)
  moreover have "(t, length (p_heap (b_parts b ! t))) \<notin> all_handles b" by (simp add: all_handles_def)
  ultimately show ?thesis
    using h t p by (auto simp: handles_ok_def intro!: list_all2_appendI)
qed

text \<open>One call: the same answer, and the states correspond afterwards.\<close>

primrec api_payloads :: "api \<Rightarrow> nat" where
  "api_payloads (Api q) = payload_count q"
| "api_payloads (ApiSubscribe name) = 0"
| "api_payloads (ApiSubscribers name) = 0"
| "api_payloads (ApiRead i mx) = 0"
| "api_payloads (ApiCloseSub i) = 0"

definition api_rel ::
    "('x \<Rightarrow> bool) \<Rightarrow> ('x \<Rightarrow> bytes list) \<Rightarrow> int \<Rightarrow> 'x broker \<times> handle list \<Rightarrow> spec \<times> spec_sub list \<Rightarrow> bool" where
  "api_rel finv flog lim st sp \<longleftrightarrow>
     broker_ok finv flog (fst st) \<and> b_newStore (fst st) = Some memory_factory \<and> b_maxTopics (fst st) = lim \<and>
     fst sp = abs_broker flog (fst st) \<and> handles_ok (fst st) (snd st) (snd sp)"

lemma api_rel_part:
  assumes rel: "api_rel finv flog lim (b, hs) (s, subs)" and t: "t < length (b_parts b)"
    and p: "partition_ok (store_inv finv) (store_log flog) p" "p_closed p \<longleftrightarrow> p_closed (b_parts b ! t)"
      "p_store p = p_store (b_parts b ! t)"
    and h: "handles_ok (b\<lparr>b_parts := (b_parts b)[t := p]\<rparr>) hs' subs'"
  shows "api_rel finv flog lim (b\<lparr>b_parts := (b_parts b)[t := p]\<rparr>, hs') (s, subs')"
proof -
  have ok: "broker_ok finv flog b" using rel by (simp add: api_rel_def)
  from broker_ok_part [OF ok t p(1,2)] abs_broker_part [OF ok p(3)] rel h show ?thesis
    by (simp add: api_rel_def)
qed

lemma Broker_Subscribe_spec:
  assumes ok: "broker_ok finv flog b"
  shows "(case fst (Broker_Subscribe name b) of
      Ok h \<Rightarrow> Ok ()
    | Fail e \<Rightarrow> Fail (error_root e)
    | Panic \<Rightarrow> Panic) = spec_Subscribe name (abs_broker flog b)"
  using ok
proof (cases rule: Broker_Subscribe_cases [where name = name])
  case (ok t p)
  then show ?thesis
    using topic_logs_eq(2) [OF ok(4), of flog] by (simp add: spec_Subscribe_def abs_broker_open)
next
  case (fail e)
  show ?thesis
  proof (cases rule: lookup_topic_cases [where b = b and name = name])
    case (found t)
    have t: "t < length (b_parts b)" using broker_okD(3) [OF ok found(2)] by simp
    have "\<not> p_closed (b_parts b ! t)" using broker_okD(6) [OF ok t] found(1) by simp
    with fail found t show ?thesis by (auto simp: Broker_Subscribe_def on_part_eq gbind_def Partition_Subscribe_def Let_def)
  qed (auto simp: Broker_Subscribe_def wrapClosed_def spec_Subscribe_def abs_broker_open topic_logs_eq)
qed

lemma SubscriberCount_spec:
  assumes ok: "broker_ok finv flog b" and h: "handles_ok b hs subs"
  shows "answer (fst (SubscriberCount name b)) = spec_SubscriberCount name (abs_broker flog b) subs"
    and "snd (SubscriberCount name b) = b"
proof -
  show "answer (fst (SubscriberCount name b)) = spec_SubscriberCount name (abs_broker flog b) subs"
    using ok
  proof (cases rule: at_topic_cases [where what = "ascii ''count subscribers of''" and name = name and
        m = "\<lambda>p. (Ok (subscriberCount p), p)"])
    case (found t r p)
    then show ?thesis
      using subscriberCount_subs [OF ok h found(1,2)] topic_logs_eq(2) [OF found(2), of flog]
      by (auto simp: SubscriberCount_def spec_SubscriberCount_def spec_Subscribe_def abs_broker_open)
  qed (auto simp: SubscriberCount_def spec_SubscriberCount_def spec_Subscribe_def abs_broker_open topic_logs_eq)
  show "snd (SubscriberCount name b) = b"
    using ok
    by (cases rule: at_topic_cases [where what = "ascii ''count subscribers of''" and name = name and
        m = "\<lambda>p. (Ok (subscriberCount p), p)"]) (auto simp: SubscriberCount_def)
qed

context user_store
begin

lemma Read_spec:
  assumes ok: "bok b" and h: "handle_ok b (t, sid) sub"
    and r: "Read_locked (dispatch fops) sid (read_max mx) (b_parts b ! t) = (r, p)"
  shows "fst (spec_Read mx (abs_broker flog b) sub) = read_answer r \<and>
    handle_ok (b\<lparr>b_parts := (b_parts b)[t := p]\<rparr>) (t, sid) (snd (spec_Read mx (abs_broker flog b) sub)) \<and>
    p_store p = p_store (b_parts b ! t) \<and> (\<exists>s. p_heap p = (p_heap (b_parts b ! t))[sid := s])"
proof -
  obtain name k opn where sub: "sub = (name, k, opn)" by (metis prod.exhaust)
  have t: "t < length (b_parts b)" and sid: "sid < length (p_heap (b_parts b ! t))" using h by simp_all
  note pok = broker_okD(5) [OF ok t]
  have cl: "p_closed (b_parts b ! t) \<longleftrightarrow> b_closed b" using broker_okD(6) [OF ok t] by simp
  have logs: "topic_logs flog b name = Some (store_log flog (p_store (b_parts b ! t)))" if "\<not> b_closed b"
    using h that topic_logs_eq(2) [of b name t flog] by (simp add: sub)
  have mx: "max 1 (sint mx) = sint (read_max mx)"
    by (auto simp: read_max_def word_sle_eq max_def)
  show ?thesis
    using pok sid read_max_pos [of mx]
  proof (cases rule: st.Read_locked_cases)
    case closed
    then have "r = fail_with ErrClosed" "p = b_parts b ! t" using r by simp_all
    then show ?thesis
      using closed(1) h cl t by (auto simp: sub spec_Read_def read_answer_def abs_broker_def Let_def intro: exI [of _ "p_heap p ! sid"])
  next
    case wait
    then have "r = Ok None" "p = b_parts b ! t" using r by simp_all
    then show ?thesis
      using wait(1-3) h cl t logs
      by (auto simp: sub spec_Read_def read_answer_def abs_broker_def Let_def intro: exI [of _ "p_heap p ! sid"])
  next
    case (deliver k' ms)
    let ?log = "store_log flog (p_store (b_parts b ! t))"
    have p: "r = Ok (Some ms)" "p = update_sub sid (s_offset_update (\<lambda>_. int64 (k' + length ms))) (b_parts b ! t)"
      using r deliver(7) by simp_all
    have "k' + length ms \<le> length ?log" using deliver(4,5) by auto
    then have "fits_int64 (k' + length ms)"
      using fits_int64_mono st.inv_fits [OF partition_okD(1) [OF pok]] by blast
    then have u: "unat (int64 (k' + length ms)) = k' + length ms" by simp
    have k: "k' = k" "opn" using h deliver(1-3) cl by (auto simp: sub)
    have "spec_Read mx (abs_broker flog b) sub = (Received (Ok ms), (name, k + length ms, opn))"
      using deliver(2,5,6) cl logs k by (simp add: sub spec_Read_def abs_broker_def mx)
    then show ?thesis
      using p u k h t sid cl deliver(1,2) by (auto simp: sub read_answer_def update_sub_def)
  qed
qed

end

lemma CloseSub_spec:
  assumes ok: "broker_ok finv flog b" and h: "handle_ok b (t, sid) (name, k, opn)"
    and r: "Subscription_Close sid (b_parts b ! t) = (r, p)"
  shows "handle_ok (b\<lparr>b_parts := (b_parts b)[t := p]\<rparr>) (t, sid) (name, k, False) \<and>
    p_store p = p_store (b_parts b ! t) \<and> (\<exists>s. p_heap p = (p_heap (b_parts b ! t))[sid := s])"
proof -
  have t: "t < length (b_parts b)" and sid: "sid < length (p_heap (b_parts b ! t))" using h by simp_all
  note pok = broker_okD(5) [OF ok t]
  show ?thesis
  proof (cases "sid \<in> set (p_subs (b_parts b ! t))")
    case True
    with r h t sid show ?thesis by (auto simp: Subscription_Close_eq [OF pok] update_sub_def)
  next
    case False
    then have "s_done (p_heap (b_parts b ! t) ! sid)" using partition_okD(4) [OF pok sid] by simp
    with False r h t sid show ?thesis
      by (auto simp: Subscription_Close_eq [OF pok] intro: exI [of _ "p_heap p ! sid"])
  qed
qed

section \<open>The API refines its specification\<close>

context reliable_user_store
begin

lemma api_call_refines:
  assumes rel: "api_rel finv flog lim st sp" and fit: "spec_fits (api_payloads q) (fst sp)"
    and r: "api_call fops q st = (a, st')"
  shows "fst (spec_api lim q sp) = a \<and> api_rel finv flog lim st' (snd (spec_api lim q sp))"
proof -
  obtain b hs s subs where st: "st = (b, hs)" and sp: "sp = (s, subs)" by (metis prod.exhaust)
  have ok: "bok b" and s: "s = abs_broker flog b" and h: "handles_ok b hs subs"
    and mem: "b_newStore b = Some memory_factory" and lim: "b_maxTopics b = lim"
    using rel by (simp_all add: api_rel_def st sp)
  note relb = rel [unfolded st sp]
  show ?thesis
  proof (cases q)
    case (Api req)
    obtain x b' where x: "broker_call fops req b = (x, b')" by force
    have f: "spec_fits (payload_count req) (abs_broker flog b)" using fit s sp Api by simp
    note ref = broker_call_refines [OF ok mem f x]
    then have "spec_call lim req s = (x, abs_broker flog b')" by (simp add: s lim)
    then show ?thesis
      using Api x r conjunct2 [OF ref] handles_ok_frame [OF h frame_ok_call [OF ok x]] lim
      by (auto simp: st sp api_rel_def)
  next
    case (ApiSubscribe name)
    note spec = Broker_Subscribe_spec [OF ok, of name]
    from ok show ?thesis
    proof (cases rule: Broker_Subscribe_cases [where name = name])
      case (ok t p)
      note pok = broker_okD(5) [OF \<open>bok b\<close> ok(1)]
      have p: "p_heap p = p_heap (b_parts b ! t) @ [\<lparr>s_offset = 0, s_ready = False, s_done = False\<rparr>]"
        "p_store p = p_store (b_parts b ! t)"
        using ok(2) by (auto simp: Partition_Subscribe_def Let_def split: if_splits)
      have "api_rel finv flog lim (b\<lparr>b_parts := (b_parts b)[t := p]\<rparr>, hs @ [(t, length (p_heap (b_parts b ! t)))])
          (s, subs @ [(name, 0, True)])"
        by (rule api_rel_part [OF relb ok(1) partition_ok_subscribe [OF pok ok(2)] Partition_ops_closed(3) [OF ok(2)] p(2)
            handles_ok_subscribe [OF h ok(1,4) p(1)]])
      then show ?thesis using ok(3) r spec s ApiSubscribe by (auto simp: st sp)
    next
      case (fail e)
      then show ?thesis using r rel spec s ApiSubscribe by (auto simp: st sp)
    qed
  next
    case (ApiSubscribers name)
    then show ?thesis
      using r rel SubscriberCount_spec [OF ok h, of name] s by (auto simp: st sp split_beta)
  next
    case (ApiRead i mx)
    show ?thesis
    proof (cases "i < length hs")
      case True
      obtain t sid where i: "hs ! i = (t, sid)" by force
      note ho = handles_ok_nth [OF h True i]
      then have t: "t < length (b_parts b)" and sid: "sid < length (p_heap (b_parts b ! t))" by simp_all
      note pok = broker_okD(5) [OF ok t]
      obtain x p where x: "Read_locked (dispatch fops) sid (read_max mx) (b_parts b ! t) = (x, p)" by force
      obtain sb where sb: "snd (spec_Read mx (abs_broker flog b) (subs ! i)) = sb"
        "fst (spec_Read mx (abs_broker flog b) (subs ! i)) = read_answer x" "p_store p = p_store (b_parts b ! t)"
        and up: "handles_ok (b\<lparr>b_parts := (b_parts b)[t := p]\<rparr>) hs (subs[i := sb])"
        using Read_spec [OF ok ho(2) x] handles_ok_update [OF h True i] by blast
      have pp: "partition_ok (store_inv finv) (store_log flog) p"
        using st.Read_locked_ok [OF pok sid read_max_pos x] by simp
      from api_rel_part [OF relb t pp Partition_ops_closed(4) [OF x] sb(3) up] show ?thesis
        using ApiRead r True i t x sb(1,2) ho(1) s by (auto simp: st sp on_part_eq split_beta)
    next
      case False
      with ApiRead r rel handles_ok_length [OF h] show ?thesis by (simp add: st sp)
    qed
  next
    case (ApiCloseSub i)
    show ?thesis
    proof (cases "i < length hs")
      case True
      obtain t sid name k opn where i: "hs ! i = (t, sid)" and sb: "subs ! i = (name, k, opn)" by (metis prod.exhaust)
      note ho = handles_ok_nth [OF h True i, unfolded sb]
      then have t: "t < length (b_parts b)" by simp
      note pok = broker_okD(5) [OF ok t]
      obtain x p where x: "Subscription_Close sid (b_parts b ! t) = (x, p)" by force
      have p: "p_store p = p_store (b_parts b ! t)"
        and up: "handles_ok (b\<lparr>b_parts := (b_parts b)[t := p]\<rparr>) hs (subs[i := (name, k, False)])"
        using CloseSub_spec [OF ok ho(2) x] handles_ok_update [OF h True i] by blast+
      note pp = partition_ok_Subscription_Close [OF pok x]
      from api_rel_part [OF relb t conjunct1 [OF pp] Subscription_Close_closed [OF pok x] p up] show ?thesis
        using ApiCloseSub r True i sb t x pp ho(1) by (auto simp: st sp on_part_eq split_beta)
    next
      case False
      with ApiCloseSub r rel handles_ok_length [OF h] show ?thesis by (simp add: st sp)
    qed
  qed
qed

lemma spec_fits_api:
  assumes "spec_fits (api_payloads q + n) (fst sp)" and "fits_int64 n"
  shows "spec_fits n (fst (snd (spec_api lim q sp)))"
proof (cases q)
  case (Api req)
  with assms spec_fits_call [of req n "fst sp" lim] show ?thesis by (simp add: split_beta)
qed (use assms in \<open>auto simp: split_beta intro: spec_fits_mono\<close>)

lemma api_refines:
  assumes "api_rel finv flog lim st sp" and "spec_fits (sum_list (map api_payloads qs)) (fst sp)"
    and "fits_int64 (sum_list (map api_payloads qs))"
  shows "run (api_call fops) qs st = run (spec_api lim) qs sp"
  using assms
proof (induction qs arbitrary: st sp)
  case (Cons q qs)
  obtain a st' where r: "api_call fops q st = (a, st')" by (metis prod.exhaust)
  have "spec_fits (api_payloads q) (fst sp)"
    by (rule spec_fits_mono [OF _ Cons.prems(2)]) simp
  note ref = api_call_refines [OF Cons.prems(1) this r]
  have fit: "fits_int64 (sum_list (map api_payloads qs))"
    using Cons.prems(3) by (rule fits_int64_mono [rotated]) simp
  have "spec_fits (sum_list (map api_payloads qs)) (fst (snd (spec_api lim q sp)))"
    using spec_fits_api [OF _ fit, of q sp lim] Cons.prems(2) by simp
  from Cons.IH [OF _ this fit] ref r show ?case by simp
qed simp

end

end
