(* ===== verification/Props_Broker.thy ===== *)
theory Props_Broker
  imports Broker_Linear Broker_Api
begin

text \<open>
  The properties of the package \<open>broker\<close>: what subscribers receive, that no wake-up is lost, what
  closing does, and that the broker refines its specification, for calls one after the other and, as
  linearizability, for calls at the same time.
\<close>

section \<open>A run, for the witnesses\<close>

text \<open>
  On an in-memory partition: subscribe, call \<open>Read\<close>, find nothing and wait; a message is published,
  and the reader wakes up and gets it.
\<close>

definition run_open :: "memoryLog world" where
  "run_open = (let w = start_world newMemoryLog in
     set_pc 0 (Checking (read_max 10)) (w\<lparr>w_part := snd (Partition_Subscribe (w_part w))\<rparr>))"

definition run_waiting :: "memoryLog world" where
  "run_waiting = set_pc 0 (Waiting (read_max 10)) run_open"

definition run_published :: "memoryLog world" where
  "run_published = run_waiting\<lparr>w_part := snd (Partition_Publish memoryLog_ops [7, 8] (w_part run_waiting))\<rparr>"

definition run_awake :: "memoryLog world" where
  "run_awake = set_pc 0 (Checking (read_max 10)) (run_published\<lparr>w_part := take_ready 0 (w_part run_published)\<rparr>)"

definition run_delivered :: "memoryLog world" where
  "run_delivered = set_pc 0 Idle (add_got 0 [\<lparr>Offset = 0, Payload = [7, 8]\<rparr>] (run_awake\<lparr>w_part :=
     snd (Read_locked memoryLog_ops 0 (read_max 10) (w_part run_awake))\<rparr>))"

lemmas run_defs = start_world_def newPartition_def newMemoryLog_def
  Partition_Subscribe_def Partition_Publish_def memoryLog_ops_def memoryLog_Append_def
  update_sub_def try_send_def take_ready_def read_max_def

lemma read_max_10 [simp]: "read_max 10 = 10"
  by (simp add: read_max_def word_sle_eq)

lemma run_open_part: "w_part run_open = \<lparr>p_store = newMemoryLog, p_subs = [0], p_closed = False,
    p_heap = [\<lparr>s_offset = 0, s_ready = False, s_done = False\<rparr>]\<rparr>" "w_pc run_open = (\<lambda>_. Idle)(0 := Checking 10)"
  by (simp_all add: run_open_def run_defs Let_def word_sle_eq)

lemma run_published_part: "w_part run_published = \<lparr>p_store = \<lparr>msgs = [\<lparr>Offset = 0, Payload = [7, 8]\<rparr>]\<rparr>,
    p_subs = [0], p_closed = False,
    p_heap = [\<lparr>s_offset = 0, s_ready = True, s_done = False\<rparr>]\<rparr>" "w_pc run_published 0 = Waiting 10" "w_got run_published 0 = []"
  by (simp_all add: run_published_def run_waiting_def run_open_part)
    (simp_all add: run_open_def run_defs Let_def int64_def word_sle_eq)

lemma run_reads:
  "Read_locked memoryLog_ops 0 10 (w_part run_open) = (Ok None, w_part run_open)"
  "Read_locked memoryLog_ops 0 10 (w_part run_awake) =
     (Ok (Some [\<lparr>Offset = 0, Payload = [7, 8]\<rparr>]),
      update_sub 0 (s_offset_update (\<lambda>_. 1)) (w_part run_awake))"
proof -
  show "Read_locked memoryLog_ops 0 10 (w_part run_open) = (Ok None, w_part run_open)"
    by (simp add: Read_locked_def sub_at_def run_open_part run_defs memoryLog_Read_def int64_def)
  have "memoryLog_Read \<lparr>msgs = [\<lparr>Offset = 0, Payload = [7, 8]\<rparr>]\<rparr> 0 10 = Ok [\<lparr>Offset = 0, Payload = [7, 8]\<rparr>]"
    by (simp add: memoryLog_Read_eq memoryLog_inv_def memoryLog_log_def window_def messages_def int64_def
        fits_int64_def)
  then show "Read_locked memoryLog_ops 0 10 (w_part run_awake) =
     (Ok (Some [\<lparr>Offset = 0, Payload = [7, 8]\<rparr>]),
      update_sub 0 (s_offset_update (\<lambda>_. 1)) (w_part run_awake))"
    by (simp add: Read_locked_def sub_at_def run_awake_def run_published_part take_ready_def update_sub_def
        memoryLog_ops_def)
qed

lemma run_pcs: "w_pc run_awake 0 = Checking 10" "p_heap (w_part run_delivered) \<noteq> []"
  by (simp add: run_awake_def)
    (simp add: run_delivered_def run_reads, simp add: run_awake_def run_published_part take_ready_def update_sub_def)

lemma run_reachable:
  "reachable memoryLog_ops newMemoryLog run_published" "reachable memoryLog_ops newMemoryLog run_delivered"
proof -
  let ?w0 = "start_world newMemoryLog"
  let ?w1 = "?w0\<lparr>w_part := snd (Partition_Subscribe (w_part ?w0))\<rparr>"
  have sub: "p_heap (w_part ?w1) \<noteq> []" by (simp add: run_defs)
  have "reachable memoryLog_ops newMemoryLog ?w1"
    by (rule reachable.other [OF reachable.start]) (rule other_step.subscribe, rule prod.collapse [symmetric])
  then have "reachable memoryLog_ops newMemoryLog run_open"
    unfolding run_open_def Let_def
    by (rule reachable.reader) (rule read_step.call, use sub in \<open>auto simp: start_world_def\<close>)
  then have "reachable memoryLog_ops newMemoryLog (set_pc 0 (Waiting 10) (run_open\<lparr>w_part := w_part run_open\<rparr>))"
    by (rule reachable.reader) (rule read_step.park, simp_all add: run_reads run_open_part(2))
  then have "reachable memoryLog_ops newMemoryLog run_waiting"
    by (simp add: run_waiting_def)
  then show pub: "reachable memoryLog_ops newMemoryLog run_published"
    unfolding run_published_def
    by (rule reachable.other) (rule other_step.publish [where payload = "[7, 8]"],
        simp_all add: has_room_def run_waiting_def run_open_part run_defs memoryLog_Len_def fits_int64_def int64_def)
  have "reachable memoryLog_ops newMemoryLog run_awake"
    unfolding run_awake_def
    by (rule reachable.reader [OF pub], simp, rule read_step.wake_ready)
      (simp_all add: run_published_part)
  then show "reachable memoryLog_ops newMemoryLog run_delivered"
    unfolding run_delivered_def
    by (rule reachable.reader) (rule read_step.deliver [where mx = 10], simp_all add: run_pcs run_reads)
qed

section \<open>Subscribers\<close>

text \<open>
  C3: In every world that publishers, subscribers, readers and closers of a partition can reach, over any
  store that keeps the contract of a log, what the calls of \<open>Read\<close> on a subscription have returned is
  the log from its start up to the cursor: every message once, in order, with its offset.
\<close>

theorem subscribers_get_the_log:
  assumes "log_store ops slog sinv" and "sinv st" and "reachable ops st w"
    and "sid < length (p_heap (w_part w))"
  shows "w_got w sid =
    take (unat (s_offset (p_heap (w_part w) ! sid))) (messages (slog (p_store (w_part w))))"
  by (rule world_okD(2) [OF log_store.reachable_world_ok [OF assms(1,3,2)] assms(4)])

theorem subscribers_get_the_log_witness:
  "w_got run_delivered 0 = take (unat (s_offset (p_heap (w_part run_delivered) ! 0)))
     (messages (memoryLog_log (p_store (w_part run_delivered))))"
  by (rule subscribers_get_the_log [OF mem.log_store_axioms memoryLog_inv_new(1) run_reachable(2)])
    (simp add: run_pcs)

text \<open>
  C4: No wake-up is lost: over a store that does not fail, a reader that waits on an open subscription while
  the log holds messages it has not got can go on by itself, and its next two steps return messages.
\<close>

theorem waiting_reader_goes_on:
  assumes "reliable_store ops slog sinv" and "sinv st" and "reachable ops st w"
    and "w_pc w sid = Waiting mx" and "\<not> s_done (p_heap (w_part w) ! sid)"
    and "length (w_got w sid) < length (slog (p_store (w_part w)))"
  shows "\<exists>w1 w2 ms. read_step ops sid w w1 \<and> read_step ops sid w1 w2 \<and> ms \<noteq> [] \<and>
    w_got w2 sid = w_got w sid @ ms"
  by (rule reliable_store.waiting_reader_delivers [OF assms(1,3,2,4-6)])

theorem waiting_reader_goes_on_witness:
  "\<exists>w1 w2 ms. read_step memoryLog_ops 0 run_published w1 \<and> read_step memoryLog_ops 0 w1 w2 \<and> ms \<noteq> [] \<and>
    w_got w2 0 = w_got run_published 0 @ ms"
  by (rule waiting_reader_goes_on [OF mem.reliable_store_axioms memoryLog_inv_new(1) run_reachable(1)
        run_published_part(2)])
    (simp_all add: run_published_part memoryLog_log_def)

text \<open>
  C15: Closing cuts consumption off: once a subscription or its partition is closed, no further message is
  returned on it, whatever is still in the log and whatever the others do.
\<close>

theorem closed_subscription_gets_no_more:
  assumes "log_store ops slog sinv" and "sinv st" and "reachable ops st w"
    and "cut_off sid (w_part w)" and "world_steps ops w w'"
  shows "w_got w' sid = w_got w sid \<and> cut_off sid (w_part w')"
  using log_store.world_steps_cut_off [OF assms(1,5) log_store.reachable_world_ok [OF assms(1,3,2)] assms(4)]
  by simp

definition run_closed :: "memoryLog world" where
  "run_closed = run_published\<lparr>w_part := snd (Subscription_Close 0 (w_part run_published))\<rparr>"

lemma run_closed_part:
  "p_heap (w_part run_closed) = [\<lparr>s_offset = 0, s_ready = True, s_done = True\<rparr>]"
  "w_pc run_closed 0 = Waiting 10" "reachable memoryLog_ops newMemoryLog run_closed"
proof -
  show "p_heap (w_part run_closed) = [\<lparr>s_offset = 0, s_ready = True, s_done = True\<rparr>]"
    "w_pc run_closed 0 = Waiting 10"
    by (simp_all add: run_closed_def run_published_part Subscription_Close_def unsubscribe_def delete_sub_def
        close_done_def sub_at_def update_sub_def gbind_def)
  show "reachable memoryLog_ops newMemoryLog run_closed"
    unfolding run_closed_def
    by (rule reachable.other [OF run_reachable(1)], rule other_step.close_sub, rule prod.collapse [symmetric])
qed

theorem closed_subscription_gets_no_more_witness:
  "w_got (set_pc 0 Idle run_closed) 0 = w_got run_closed 0 \<and> cut_off 0 (w_part (set_pc 0 Idle run_closed))"
proof (rule closed_subscription_gets_no_more [OF mem.log_store_axioms memoryLog_inv_new(1) run_closed_part(3)])
  show "cut_off 0 (w_part run_closed)" by (simp add: cut_off_def run_closed_part)
  show "world_steps memoryLog_ops run_closed (set_pc 0 Idle run_closed)"
    by (rule world_steps.by_reader [OF world_steps.here read_step.wake_done [where mx = 10]])
      (simp_all add: run_closed_part)
qed

section \<open>Partitions and stores\<close>

text \<open>
  C18: \<open>memoryLog.Read(from, max)\<close> returns the messages from \<open>from\<close> on, at most \<open>max\<close> of them, for all 64-bit
  arguments: no sum overflows and no index is out of range, and offsets out of range give no message.
\<close>

theorem memory_read_is_window:
  assumes "memoryLog_inv m"
  shows "memoryLog_Read m from mx = Ok (window (map Payload (msgs m)) from mx)"
  using memoryLog_Read_eq [OF assms] by (simp add: memoryLog_log_def)

theorem memory_read_is_window_witness:
  "memoryLog_Read (snd (memoryLog_Append [5] (snd (memoryLog_Append [4] newMemoryLog)))) 1 (- 1) =
     Ok (window (map Payload (msgs (snd (memoryLog_Append [5] (snd (memoryLog_Append [4] newMemoryLog)))))) 1 (- 1))"
  by (rule memory_read_is_window)
    (simp add: memoryLog_inv_def memoryLog_Append_def newMemoryLog_def Let_def fits_int64_def nth_Cons less_Suc_eq)

text \<open>
  A batch that is accepted takes the offsets from the returned one on without a gap, appends exactly
  its payloads in order, and leaves a token for every registered subscriber.
\<close>

lemma publish_batch_contiguous:
  assumes "log_store ops slog sinv" and "partition_ok sinv slog p"
    and "has_room ops (length payloads) p" and "payloads \<noteq> []"
    and "Partition_PublishBatch ops payloads p = (Ok base, p')"
  shows "base = int64 (length (slog (p_store p))) \<and> slog (p_store p') = slog (p_store p) @ payloads \<and>
    set (p_subs p) \<subseteq> {i. s_ready (p_heap p' ! i)}"
  by (rule log_store.PublishBatch_contiguous [OF assms])

text \<open>
  Publishing a batch is publishing its payloads one by one: when the batch succeeds, the single calls
  succeed too, the first returns the batch's offset, and they leave the very same partition.
\<close>

lemma batch_is_each:
  assumes "Partition_PublishBatch ops (q # qs) p = (Ok base, p')"
  shows "\<exists>offs. publish_each ops (q # qs) p = (Ok (base # offs), p')"
  by (rule publish_each_batch [OF assms])

text \<open>
  C19: Not so when it fails: a batch whose store refuses a payload has appended the payloads before it, and
  no subscriber is signalled, although single calls would have signalled each of them.
\<close>

theorem failed_batch_is_silent:
  assumes "log_store ops slog sinv" and "partition_ok sinv slog p"
    and "has_room ops (length payloads) p" and "\<not> p_closed p"
    and "Partition_PublishBatch ops payloads p = (Fail e, p')"
  shows "p_heap p' = p_heap p \<and>
    slog (p_store p') \<in> (\<lambda>k. slog (p_store p) @ take k payloads) ` {..<length payloads}"
  by (rule log_store.PublishBatch_failure [OF assms])

text \<open>A store of the user that holds one message.\<close>

definition capped_ops :: "memoryLog store_ops" where
  "capped_ops = memoryLog_ops\<lparr>sAppend :=
     (\<lambda>p m. if msgs m = [] then memoryLog_Append p m else (Fail (NewError (ascii ''full'')), m))\<rparr>"

lemma capped_log: "log_store capped_ops memoryLog_log memoryLog_inv"
proof
  fix s s' :: memoryLog and p off e "from" mx
  show "memoryLog_inv s \<Longrightarrow> fits_int64 (Suc (length (memoryLog_log s))) \<Longrightarrow>
      sAppend capped_ops p s = (Ok off, s') \<Longrightarrow>
      off = int64 (length (memoryLog_log s)) \<and> memoryLog_log s' = memoryLog_log s @ [p] \<and> memoryLog_inv s'"
    using mem.append_ok [of s p off s'] by (auto simp: capped_ops_def memoryLog_ops_def split: if_splits)
  show "memoryLog_inv s \<Longrightarrow> sAppend capped_ops p s = (Fail e, s') \<Longrightarrow>
      memoryLog_log s' = memoryLog_log s \<and> memoryLog_inv s'"
    by (auto simp: capped_ops_def memoryLog_Append_def Let_def split: if_splits)
  show "memoryLog_inv s \<Longrightarrow> fst (sAppend capped_ops p s) \<noteq> Panic"
    by (simp add: capped_ops_def memoryLog_Append_def Let_def)
  show "memoryLog_inv s \<Longrightarrow> sRead capped_ops s from mx = Ok (window (memoryLog_log s) from mx)"
    using mem.read_window by (simp add: capped_ops_def)
  show "memoryLog_inv s \<Longrightarrow> sLen capped_ops s = int64 (length (memoryLog_log s))"
    using mem.len_log by (simp add: capped_ops_def)
  show "memoryLog_inv s \<Longrightarrow> fits_int64 (length (memoryLog_log s))"
    using mem.inv_fits .
qed

theorem failed_batch_is_silent_witness:
  "p_heap (snd (Partition_PublishBatch capped_ops [[1], [2]] (w_part run_open))) = p_heap (w_part run_open) \<and>
   memoryLog_log (p_store (snd (Partition_PublishBatch capped_ops [[1], [2]] (w_part run_open)))) \<in>
     (\<lambda>k. memoryLog_log (p_store (w_part run_open)) @ take k [[1], [2]]) ` {..<length [[1], [2 :: byte]]}"
proof (rule failed_batch_is_silent [OF capped_log])
  show "partition_ok memoryLog_inv memoryLog_log (w_part run_open)"
    by (simp add: partition_ok_def run_open_part)
  show "has_room capped_ops (length [[1], [2 :: byte]]) (w_part run_open)"
    by (simp add: has_room_def run_open_part capped_ops_def memoryLog_ops_def memoryLog_Len_def newMemoryLog_def
        int64_def fits_int64_def)
  show "Partition_PublishBatch capped_ops [[1], [2]] (w_part run_open) =
      (Fail (NewError (ascii ''full'')), snd (Partition_PublishBatch capped_ops [[1], [2]] (w_part run_open)))"
    by (simp add: Partition_PublishBatch_def run_open_part capped_ops_def memoryLog_Append_def newMemoryLog_def
        gbind_def Let_def)
qed (simp add: run_open_part)

text \<open>
  Closing a partition closes the channel of every subscription, each exactly once and none twice, and
  from then on every operation on it is refused with ErrClosed.
\<close>

lemma closed_partition_refuses:
  assumes "partition_ok sinv slog p" and "sid < length (p_heap p)"
  shows "Partition_close p = (Ok (), closed_part p) \<and> s_done (p_heap (closed_part p) ! sid) \<and>
    subscriberCount (closed_part p) = 0 \<and>
    Partition_close (closed_part p) = (Ok (), closed_part p) \<and>
    Partition_Publish ops payload (closed_part p) = (fail_with ErrClosed, closed_part p) \<and>
    Partition_PublishBatch ops payloads (closed_part p) = (fail_with ErrClosed, closed_part p) \<and>
    Partition_Subscribe (closed_part p) = (fail_with ErrClosed, closed_part p) \<and>
    Read_locked ops sid mx (closed_part p) = (fail_with ErrClosed, closed_part p) \<and>
    Subscription_Close sid (closed_part p) = (Ok (), closed_part p)"
proof -
  note c = closed_part_facts [OF assms(1)]
  obtain p' where p': "Partition_close p = (Ok (), p')" "length (p_heap p') = length (p_heap p)"
    "s_done (p_heap p' ! sid)"
    using Partition_close_eq [OF assms(1)] assms(2) by auto
  then have "p' = closed_part p" using Partition_close_closed_part [OF assms(1)] by simp
  with p' c assms(2) show ?thesis
    by (auto simp: Partition_close_def [of "closed_part p"] Partition_Publish_def Partition_PublishBatch_def
        Partition_Subscribe_def subscriberCount_def Subscription_Close_eq [OF c(1)]
        intro: Read_locked_cut_off simp: cut_off_def)
qed

text \<open>Closing a subscription never panics, removes it at once, and closing it again changes nothing.\<close>

lemma close_subscription_idempotent:
  assumes "partition_ok sinv slog p" and "Subscription_Close sid p = (r, p')"
  shows "r = Ok () \<and> sid \<notin> set (p_subs p') \<and> partition_ok sinv slog p' \<and>
    Subscription_Close sid p' = (Ok (), p')"
proof -
  have ok: "partition_ok sinv slog p'" "r = Ok ()" using partition_ok_Subscription_Close [OF assms] by auto
  have "sid \<notin> set (p_subs p')"
    using assms(2) by (auto simp: Subscription_Close_eq [OF assms(1)] split: if_splits)
  with ok show ?thesis by (simp add: Subscription_Close_eq [OF ok(1)])
qed

section \<open>The broker\<close>

lemma New_max [simp]:
  "broker_ok finv flog (New [WithMaxTopics mx])" "b_newStore (New [WithMaxTopics mx]) = Some memory_factory"
  "b_parts (New [WithMaxTopics mx]) = []" "b_maxTopics (New [WithMaxTopics mx]) = mx" "abs_broker flog (New [WithMaxTopics mx]) = Some Map.empty"
proof -
  show "broker_ok finv flog (New [WithMaxTopics mx])" by (rule New_shape) auto
qed (simp_all add: New_def WithMaxTopics_def abs_broker_def topic_logs_def fun_eq_iff)

text \<open>
  C5: The broker refines its specification: every sequence of API calls on a new broker, with the calls of
  \<open>Read\<close> and \<open>Close\<close> on the subscriptions that \<open>Subscribe\<close> has returned in between, gets the answers that
  the specification gives: a map from topic names to the payloads published, and for each subscription the
  number of messages it has read and whether it is open. Answers are compared up to the wrapping of
  errors; for any limit of topics, with the in-memory store, as long as the messages fit in an int64.
\<close>

theorem broker_refines_spec:
  assumes "fits_int64 (sum_list (map api_payloads qs))"
  shows "run (api_call memoryLog_ops) qs (New [WithMaxTopics lim], []) = run (spec_api lim) qs (Some Map.empty, [])"
proof -
  have "api_rel memoryLog_inv memoryLog_log lim (New [WithMaxTopics lim], []) (Some Map.empty, [])"
    by (simp add: api_rel_def handles_ok_def all_handles_def)
  then show ?thesis
    by (rule mem_rel.api_refines) (use assms in \<open>simp_all add: spec_fits_def\<close>)
qed

theorem broker_refines_spec_witness:
  "run (api_call memoryLog_ops)
     [Api (ReqCreate [97]), ApiSubscribe [97], Api (ReqPublishBatch [97] [[2], [3]]), ApiSubscribers [97], ApiRead 0 1,
      ApiRead 0 5, ApiRead 0 5, ApiCloseSub 0, ApiSubscribers [97], Api ReqClose, ApiRead 0 1, ApiSubscribe [97]]
     (New [WithMaxTopics 1], []) =
   run (spec_api 1)
     [Api (ReqCreate [97]), ApiSubscribe [97], Api (ReqPublishBatch [97] [[2], [3]]), ApiSubscribers [97], ApiRead 0 1,
      ApiRead 0 5, ApiRead 0 5, ApiCloseSub 0, ApiSubscribers [97], Api ReqClose, ApiRead 0 1, ApiSubscribe [97]]
     (Some Map.empty, [])"
  by (rule broker_refines_spec) (simp add: fits_int64_def)

text \<open>
  C8: The broker is linearizable: goroutines call it at the same time, every critical section is a step,
  and a \<open>Close\<close> closes the partitions one by one while calls that looked their topic up before go on.
  Some order of the completed calls, and of a \<open>Close\<close> at work, keeps every call that ended before
  another began in front of it, and has the answers the specification gives to that sequence of calls.
\<close>

theorem concurrent_calls_are_linearizable:
  assumes "shared_reaches memoryLog_ops (New [WithMaxTopics mx]) st" and "fits_int64 (payloads_of (sh_done st))"
  shows "\<exists>es. mset es = mset (sh_done st @ open_close st) \<and>
    sorted_wrt (\<lambda>x y. \<not> ev_to y < ev_from x) es \<and>
    run (spec_call mx) (map ev_req es) (Some Map.empty) = map ev_resp es"
proof -
  have "lin_ok memoryLog_inv memoryLog_log mx st"
    by (rule mem_rel.shared_reaches_ok [OF assms(1) _ _ _ _ assms(2)]) simp_all
  from mem_rel.lin_ok_linearizable [OF this] show ?thesis by (simp add: in_order_def)
qed

text \<open>
  Two topics; a publisher of each has looked its topic up when the broker is closed, and the first finds its
  partition closed before the second publishes.
\<close>

definition two_part :: "bool \<Rightarrow> memoryLog store partition" where
  "two_part c = \<lparr>p_store = MemLog newMemoryLog, p_subs = [], p_closed = c, p_heap = []\<rparr>"

definition two_topics :: "bool \<Rightarrow> bool \<Rightarrow> memoryLog broker" where
  "two_topics c0 c1 = \<lparr>b_closed = c0, b_topics = [([97], 0), ([98], 1)], b_newStore = Some memory_factory, b_calls = 2,
     b_maxTopics = 3, b_parts = [two_part c1, two_part False]\<rparr>"

definition two_done :: "event list" where
  "two_done = [\<lparr>ev_req = ReqCreate [97], ev_resp = RespUnit (Ok ()), ev_from = 0, ev_to = 0\<rparr>,
     \<lparr>ev_req = ReqCreate [98], ev_resp = RespUnit (Ok ()), ev_from = 1, ev_to = 1\<rparr>]"

definition two_ended :: "event list" where
  "two_ended = two_done @ [\<lparr>ev_req = ReqPublish [97] [7], ev_resp = RespOffset (Fail (Some ErrClosed)), ev_from = 2, ev_to = 6\<rparr>,
     \<lparr>ev_req = ReqPublish [98] [8], ev_resp = RespOffset (Ok 0), ev_from = 3, ev_to = 7\<rparr>]"

lemma run_two:
  "\<exists>b. shared_reaches memoryLog_ops (New [WithMaxTopics 3])
    \<lparr>sh_broker = b, sh_closing = Some ([1], 4), sh_pending = [], sh_done = two_ended, sh_time = 8\<rparr>"
proof -
  let ?b = "New [WithMaxTopics 3] :: memoryLog broker"
  let ?p = "(ReqPublish [97] [7 :: byte], 0 :: nat, 2 :: nat)" and ?q = "(ReqPublish [98] [8 :: byte], 1 :: nat, 3 :: nat)"
  note ev = CreateTopic_def New_def WithMaxTopics_def ValidateTopicName_def MaxTopicNameLen_def call_factory_def
    memory_factory_def gbind_def newPartition_def ends_def tick_def
  have r0: "shared_reaches memoryLog_ops ?b (shared_start ?b)" by (rule shared_reaches.start)
  obtain b1 where b1: "broker_call memoryLog_ops (ReqCreate [97]) ?b = (RespUnit (Ok ()), b1)"
    "broker_call memoryLog_ops (ReqCreate [98]) b1 = (RespUnit (Ok ()), two_topics False False)"
    by (simp add: ev two_topics_def two_part_def)
  have r1: "shared_reaches memoryLog_ops ?b (ends (ReqCreate [97]) (RespUnit (Ok ())) 0 ((shared_start ?b)\<lparr>sh_broker := b1\<rparr>))"
    using shared_step.at_once [of "shared_start ?b" "ReqCreate [97]" memoryLog_ops] b1(1)
    by (intro shared_reaches.more [OF r0]) (simp add: shared_start_def)
  have r2: "shared_reaches memoryLog_ops ?b \<lparr>sh_broker = two_topics False False, sh_closing = None, sh_pending = [],
      sh_done = two_done, sh_time = 2\<rparr>" (is "shared_reaches _ _ ?s2")
    using shared_reaches.more [OF r1 shared_step.at_once [of _ "ReqCreate [98]"]] b1(2)
    by (simp add: shared_start_def ends_def tick_def two_done_def eval_nat_numeral)
  have r3: "shared_reaches memoryLog_ops ?b (?s2\<lparr>sh_pending := [?p], sh_time := 3\<rparr>)" (is "shared_reaches _ _ ?s3")
    using shared_reaches.more [OF r2 shared_step.looks_up [of ?s2 "ReqPublish [97] [7]" "[97]" 0]]
    by (simp add: lookup_topic_def two_topics_def tick_def eval_nat_numeral)
  have r4: "shared_reaches memoryLog_ops ?b (?s2\<lparr>sh_pending := [?p, ?q], sh_time := 4\<rparr>)" (is "shared_reaches _ _ ?s4")
    using shared_reaches.more [OF r3 shared_step.looks_up [of ?s3 "ReqPublish [98] [8]" "[98]" 1]]
    by (simp add: lookup_topic_def two_topics_def tick_def eval_nat_numeral)
  have r5: "shared_reaches memoryLog_ops ?b (?s4\<lparr>sh_broker := two_topics True False, sh_closing := Some ([0, 1], 4), sh_time := 5\<rparr>)"
    (is "shared_reaches _ _ ?s5")
    using shared_reaches.more [OF r4 shared_step.begins_close [of ?s4 "[0, 1]"]]
    by (simp add: two_topics_def tick_def eval_nat_numeral)
  have c: "on_part 0 Partition_close (two_topics True False) = (Ok (), two_topics True True)"
    by (simp add: on_part_def two_topics_def two_part_def Partition_close_def Let_def)
  have r6: "shared_reaches memoryLog_ops ?b (?s5\<lparr>sh_broker := two_topics True True, sh_closing := Some ([1], 4), sh_time := 6\<rparr>)"
    (is "shared_reaches _ _ ?s6")
    using shared_reaches.more [OF r5 shared_step.closes_part [of ?s5 0 "[1]" 4 "Ok ()" "two_topics True True"]] c
    by (simp add: tick_def eval_nat_numeral)
  have p: "on_part 0 (Partition_Publish (dispatch memoryLog_ops) [7]) (two_topics True True) = (fail_with ErrClosed, two_topics True True)"
    by (simp add: on_part_def two_topics_def two_part_def Partition_Publish_def)
  have r7: "shared_reaches memoryLog_ops ?b (?s6\<lparr>sh_pending := [?q], sh_time := 7, sh_done := two_done @
      [\<lparr>ev_req = ReqPublish [97] [7], ev_resp = RespOffset (Fail (Some ErrClosed)), ev_from = 2, ev_to = 6\<rparr>]\<rparr>)"
    (is "shared_reaches _ _ ?s7")
    using shared_reaches.more [OF r6 shared_step.publishes [of ?s6 "[]" "[97]" "[7]" 0 2 "[?q]"]] p
    by (simp add: ends_def tick_def eval_nat_numeral)
  obtain b where q: "on_part 1 (Partition_Publish (dispatch memoryLog_ops) [8]) (two_topics True True) = (Ok 0, b)"
    by (simp add: on_part_def two_topics_def two_part_def Partition_Publish_def dispatch_def memoryLog_ops_def memoryLog_Append_def
        newMemoryLog_def map_store_def Let_def int64_def)
  show ?thesis
    using shared_reaches.more [OF r7 shared_step.publishes [of ?s7 "[]" "[98]" "[8]" 1 3 "[]"]] q
    by (auto simp: ends_def tick_def two_ended_def eval_nat_numeral)
qed

theorem concurrent_calls_are_linearizable_witness:
  "\<exists>es. mset es = mset (two_ended @ [\<lparr>ev_req = ReqClose, ev_resp = RespUnit (Ok ()), ev_from = 4, ev_to = 8\<rparr>]) \<and>
    sorted_wrt (\<lambda>x y. \<not> ev_to y < ev_from x) es \<and>
    run (spec_call 3) (map ev_req es) (Some Map.empty) = map ev_resp es"
proof -
  obtain b where b: "shared_reaches memoryLog_ops (New [WithMaxTopics 3])
      \<lparr>sh_broker = b, sh_closing = Some ([1], 4), sh_pending = [], sh_done = two_ended, sh_time = 8\<rparr>"
    using run_two by blast
  from concurrent_calls_are_linearizable [OF b] show ?thesis
    by (simp add: open_close_def two_ended_def two_done_def fits_int64_def)
qed

text \<open>
  C21: Closing a broker closes every partition and is final: closing again changes nothing, and every other
  operation is refused with an error whose sentinel is ErrClosed and changes nothing.
\<close>

theorem closed_broker_refuses:
  assumes "broker_ok finv flog b" and "Broker_Close b = (r, b')"
  shows "r = Ok () \<and> set (b_parts b') \<subseteq> {p. p_closed p \<and> p_subs p = []} \<and> Broker_Close b' = (Ok (), b') \<and>
    map_prod answer id (CreateTopic name b') = (Fail (Some ErrClosed), b') \<and>
    map_prod answer id (Broker_Publish fops name payload b') = (Fail (Some ErrClosed), b') \<and>
    map_prod answer id (Broker_PublishBatch fops name payloads b') = (Fail (Some ErrClosed), b') \<and>
    map_prod answer id (Broker_Subscribe name b') = (Fail (Some ErrClosed), b') \<and>
    map_prod answer id (SubscriberCount name b') = (Fail (Some ErrClosed), b') \<and>
    answer (ListTopics b') = Fail (Some ErrClosed) \<and> answer (TopicCount b') = Fail (Some ErrClosed)"
proof -
  have c: "broker_ok finv flog b'" "r = Ok ()" "b_closed b'" using broker_ok_Close [OF assms] by auto
  have "set (b_parts b') \<subseteq> {p. p_closed p \<and> p_subs p = []}"
    using c(1,3) partition_okD(5) by (fastforce simp: broker_ok_def)
  with c show ?thesis
    by (simp add: Broker_Close_def CreateTopic_def Broker_Publish_def Broker_PublishBatch_def at_topic_def
        Broker_Subscribe_def SubscriberCount_def ListTopics_def TopicCount_def lookup_topic_def wrapClosed_def)
qed

theorem closed_broker_refuses_witness:
  "let b' = snd (Broker_Close (snd (CreateTopic [97] (New [WithMaxTopics 3] :: memoryLog broker)))) in
    Ok () = (Ok () :: unit result) \<and> set (b_parts b') \<subseteq> {p. p_closed p \<and> p_subs p = []} \<and> Broker_Close b' = (Ok (), b') \<and>
    map_prod answer id (CreateTopic [97] b') = (Fail (Some ErrClosed), b') \<and>
    map_prod answer id (Broker_Publish memoryLog_ops [97] [1] b') = (Fail (Some ErrClosed), b') \<and>
    map_prod answer id (Broker_PublishBatch memoryLog_ops [97] [[1]] b') = (Fail (Some ErrClosed), b') \<and>
    map_prod answer id (Broker_Subscribe [97] b') = (Fail (Some ErrClosed), b') \<and>
    map_prod answer id (SubscriberCount [97] b') = (Fail (Some ErrClosed), b') \<and>
    answer (ListTopics b') = Fail (Some ErrClosed) \<and> answer (TopicCount b') = Fail (Some ErrClosed)"
proof -
  let ?b = "snd (CreateTopic [97] (New [WithMaxTopics 3] :: memoryLog broker))"
  have ok: "broker_ok memoryLog_inv memoryLog_log ?b"
    using broker_ok_CreateTopic [OF New_max(1) prod.collapse [symmetric]] by blast
  have "Broker_Close ?b = (Ok (), snd (Broker_Close ?b))"
    using Broker_Close_eq [OF ok] by simp
  from closed_broker_refuses [OF ok this] show ?thesis unfolding Let_def .
qed

text \<open>
  C22: An operation that looked its topic up before a \<open>Close\<close> and reaches the partition after it is refused with
  ErrClosed and changes nothing, whatever happened in between, except that \<open>SubscriberCount\<close> then counts no
  subscribers instead; without a \<open>Close\<close> in between, the partition it looked up is still the one of that name.
\<close>

theorem operation_overtaken_by_close:
  assumes "user_store fops flog finv" and "broker_ok finv flog b" and "lookup_topic name b = Ok t"
    and "broker_steps fops b b'"
  shows "if b_closed b'
    then on_part t (Partition_Publish (dispatch fops) payload) b' = (fail_with ErrClosed, b') \<and>
      on_part t (Partition_PublishBatch (dispatch fops) payloads) b' = (fail_with ErrClosed, b') \<and>
      on_part t Partition_Subscribe b' = (fail_with ErrClosed, b') \<and>
      on_part t (\<lambda>p. (Ok (subscriberCount p), p)) b' = (Ok 0 :: nat result, b')
    else lookup_topic name b' = Ok t"
proof (cases "b_closed b'")
  case True
  note t = conjunct1 [OF user_store.broker_steps_topic [OF assms(1,4,2,3)]]
  note ok = user_store.broker_steps_ok [OF assms(1,4,2)]
  have "p_subs (b_parts b' ! t) = []"
    using broker_okD(5,6) [OF ok t] True partition_okD(5) by blast
  with user_store.in_flight [OF assms(1,4,2,3) True] True t show ?thesis
    by (simp add: on_part_eq subscriberCount_def)
next
  case False
  with user_store.broker_steps_topic [OF assms(1,4,2,3)] show ?thesis by simp
qed

definition run_broker :: "memoryLog broker" where
  "run_broker = snd (CreateTopic [97] (New [WithMaxTopics 3]))"

lemma run_broker_ok:
  "broker_ok memoryLog_inv memoryLog_log run_broker" "lookup_topic [97] run_broker = Ok 0" "\<not> b_closed run_broker"
  "b_topics run_broker = [([97], 0)]" "b_newStore run_broker = Some memory_factory"
  "b_parts run_broker = [newPartition (MemLog newMemoryLog)]" "b_maxTopics run_broker = 3"
proof -
  show "broker_ok memoryLog_inv memoryLog_log run_broker"
    unfolding run_broker_def using broker_ok_CreateTopic [OF New_max(1) prod.collapse [symmetric]] by blast
  have eq: "run_broker = \<lparr>b_closed = False, b_topics = [([97], 0)], b_newStore = Some memory_factory, b_calls = 1,
      b_maxTopics = 3, b_parts = [newPartition (MemLog newMemoryLog)]\<rparr>"
    by (simp add: run_broker_def New_def WithMaxTopics_def CreateTopic_def ValidateTopicName_def MaxTopicNameLen_def
        call_factory_def memory_factory_def gbind_def)
  then show "lookup_topic [97] run_broker = Ok 0" "\<not> b_closed run_broker"
    "b_topics run_broker = [([97], 0)]" "b_newStore run_broker = Some memory_factory"
    "b_parts run_broker = [newPartition (MemLog newMemoryLog)]" "b_maxTopics run_broker = 3"
    by (simp_all add: eq lookup_topic_def)
qed

theorem operation_overtaken_by_close_witness:
  "if b_closed (snd (Broker_Close run_broker))
    then on_part 0 (Partition_Publish (dispatch memoryLog_ops) [1]) (snd (Broker_Close run_broker)) =
        (fail_with ErrClosed, snd (Broker_Close run_broker)) \<and>
      on_part 0 (Partition_PublishBatch (dispatch memoryLog_ops) [[1]]) (snd (Broker_Close run_broker)) =
        (fail_with ErrClosed, snd (Broker_Close run_broker)) \<and>
      on_part 0 Partition_Subscribe (snd (Broker_Close run_broker)) =
        (fail_with ErrClosed, snd (Broker_Close run_broker)) \<and>
      on_part 0 (\<lambda>p. (Ok (subscriberCount p), p)) (snd (Broker_Close run_broker)) =
        (Ok 0 :: nat result, snd (Broker_Close run_broker))
    else lookup_topic [97] (snd (Broker_Close run_broker)) = Ok 0"
  by (rule operation_overtaken_by_close [OF mem_user.user_store_axioms run_broker_ok(1,2)
        broker_steps.trans [OF broker_steps.refl broker_step.close [OF prod.collapse [symmetric]]]])

text \<open>
  Topics do not interfere: publishing to one topic, alone or in batches, leaves the partition of
  every other topic, its log and its subscribers, as it was.
\<close>

lemma topics_are_isolated:
  assumes "broker_ok finv flog b" and "map_of (b_topics b) other = Some t" and "other \<noteq> name"
  shows "b_parts (snd (Broker_Publish fops name payload b)) ! t = b_parts b ! t \<and>
    b_parts (snd (Broker_PublishBatch fops name payloads b)) ! t = b_parts b ! t \<and>
    b_topics (snd (Broker_Publish fops name payload b)) = b_topics b \<and>
    b_topics (snd (Broker_PublishBatch fops name payloads b)) = b_topics b"
  unfolding Broker_Publish_def Broker_PublishBatch_def
  using at_topic_other [OF assms(1) prod.collapse [symmetric] assms(2,3)] by blast

text \<open>
  \<open>ValidateTopicName\<close> accepts exactly the names of 1 to 255 bytes without ASCII control characters; other
  names get the sentinel of the first rule they break, and a control character its first position.
\<close>

lemma validate_topic_name_cases:
  "ValidateTopicName name =
     (if name = [] then fail_with ErrTopicNameEmpty
      else if 255 < length name then Fail (Wrap (NameLength (length name) 255) (Sentinel ErrTopicNameTooLong))
      else if list_ex (\<lambda>b. b < 0x20 \<or> b = 0x7F) name
      then Fail (Wrap (ControlAt (length (takeWhile (\<lambda>b. \<not> (b < 0x20 \<or> b = 0x7F)) name)))
        (Sentinel ErrInvalidTopicName))
      else Ok ())"
  by (auto simp: ValidateTopicName_def check_bytes_cases MaxTopicNameLen_def list_ex_iff control_def)

text \<open>
  C20: Under any interleaving of operations, a broker limited to \<open>mx\<close> topics never has more, the names of its
  topics are valid and pairwise different, and no state is reached in which a partition is ill-formed.
\<close>

theorem broker_stays_within_limit:
  assumes "user_store fops flog finv" and "0 < mx" and "broker_steps fops (New [WithMaxTopics mx]) b"
  shows "len (b_topics b) \<le> mx \<and> distinct (map fst (b_topics b)) \<and>
    fst ` set (b_topics b) \<subseteq> {name. ValidateTopicName name = Ok ()} \<and>
    set (b_parts b) \<subseteq> {p. partition_ok (store_inv finv) (store_log flog) p}"
proof -
  have ok: "broker_ok finv flog b" by (rule user_store.broker_steps_ok [OF assms(1,3) New_max(1)])
  have "b_maxTopics b = mx" using user_store.broker_steps_maxTopics [OF assms(1,3) New_max(1)] by simp
  with ok assms(2) show ?thesis by (auto simp: broker_ok_def ValidateTopicName_eq_Ok)
qed

theorem broker_stays_within_limit_witness:
  "len (b_topics run_broker) \<le> 3 \<and> distinct (map fst (b_topics run_broker)) \<and>
    fst ` set (b_topics run_broker) \<subseteq> {name. ValidateTopicName name = Ok ()} \<and>
    set (b_parts run_broker) \<subseteq> {p. partition_ok (store_inv memoryLog_inv) (store_log memoryLog_log) p}"
  by (rule broker_stays_within_limit [OF mem_user.user_store_axioms])
    (simp, unfold run_broker_def, rule broker_steps.trans [OF broker_steps.refl broker_step.create [OF prod.collapse [symmetric]]])

end
