(* ===== verification/Net_Server.thy ===== *)
theory Net_Server
  imports Broker_Spec Protocol_Write Go_Conn
begin

text \<open>
  \<open>network/server.go\<close>: the server's configuration, admission and shutdown of connections, the
  handler of a connection and the stream it turns into, and the errors the server reports.

  A handled connection has the bytes that will arrive on it, the \<open>bufio.Writer\<close> over its sending
  side, and whether it is still open at this end; setting a deadline fails exactly when it is not. A
  deadline that expires, or a peer that goes away, is a fault among the bytes that arrive or a
  fault of the sending side. The frames of one connection are handled one after the other; the
  broker they act on is the one all connections share.
\<close>

section \<open>Configuration\<close>

text \<open>
  Durations are nanoseconds; a Go \<open>int64\<close> or \<open>int\<close> of the configuration is an \<open>int\<close>. Connections
  are numbers: \<open>sv_conns\<close> are the keys of the map of registered ones, \<open>sv_running\<close> those whose
  handler the wait group counts, \<open>sv_cancelled\<close> those whose context has been cancelled.
  \<open>sv_shutdown\<close> is how far the one run of \<open>Close\<close> has come: the connections it has yet to cancel,
  and \<open>closeDone\<close> closed.
\<close>

datatype shutdown = NotClosing | Cancelling "nat list" | Closed

record server =
  sv_closed :: bool
  sv_conns :: "nat list"
  sv_running :: "nat list"
  sv_cancelled :: "nat list"
  sv_shutdown :: shutdown
  sv_readTimeout :: int
  sv_writeTimeout :: int
  sv_maxConns :: int
  sv_readBuffer :: int
  sv_writeBuffer :: int

type_synonym server_option = "server \<Rightarrow> server"

definition defaultReadTimeout :: int where "defaultReadTimeout = 30 * 10 ^ 9"
definition defaultWriteTimeout :: int where "defaultWriteTimeout = 30 * 10 ^ 9"
definition defaultSocketBuffer :: int where "defaultSocketBuffer = 256 * 2 ^ 10"

definition WithReadTimeout :: "int \<Rightarrow> server_option" where
  "WithReadTimeout d s = s\<lparr>sv_readTimeout := d\<rparr>"

definition WithWriteTimeout :: "int \<Rightarrow> server_option" where
  "WithWriteTimeout d s = s\<lparr>sv_writeTimeout := d\<rparr>"

definition WithMaxConns :: "int \<Rightarrow> server_option" where
  "WithMaxConns n s = s\<lparr>sv_maxConns := n\<rparr>"

definition WithReadBuffer :: "int \<Rightarrow> server_option" where
  "WithReadBuffer n s = s\<lparr>sv_readBuffer := n\<rparr>"

definition WithWriteBuffer :: "int \<Rightarrow> server_option" where
  "WithWriteBuffer n s = s\<lparr>sv_writeBuffer := n\<rparr>"

definition NewServer :: "server_option list \<Rightarrow> server" where
  "NewServer opts =
     (let s = \<lparr>sv_closed = False, sv_conns = [], sv_running = [], sv_cancelled = [],
               sv_shutdown = NotClosing, sv_readTimeout = defaultReadTimeout,
               sv_writeTimeout = defaultWriteTimeout, sv_maxConns = 0,
               sv_readBuffer = defaultSocketBuffer, sv_writeBuffer = defaultSocketBuffer\<rparr>;
          s = fold (\<lambda>opt. opt) opts s;
          s = (if sv_readTimeout s < 0 then s\<lparr>sv_readTimeout := 0\<rparr> else s);
          s = (if sv_writeTimeout s < 0 then s\<lparr>sv_writeTimeout := 0\<rparr> else s);
          s = (if sv_maxConns s < 0 then s\<lparr>sv_maxConns := 0\<rparr> else s);
          s = (if sv_readBuffer s < 0 then s\<lparr>sv_readBuffer := 0\<rparr> else s) in
      if sv_writeBuffer s < 0 then s\<lparr>sv_writeBuffer := 0\<rparr> else s)"

text \<open>
  \<open>tuneConn\<close>: the sizes it asks the kernel for, \<open>None\<close> where it leaves the default; connections are
  TCP connections.
\<close>

definition tuneConn :: "int \<Rightarrow> int \<Rightarrow> int option \<times> int option" where
  "tuneConn readBuffer writeBuffer =
     (if readBuffer \<le> 0 \<and> writeBuffer \<le> 0 then (None, None)
      else (if readBuffer > 0 then Some readBuffer else None,
            if writeBuffer > 0 then Some writeBuffer else None))"

section \<open>Error codes\<close>

definition errorCode :: "gerror \<Rightarrow> code" where
  "errorCode e =
     (if errors_is e ErrClosed then CodeClosed
      else if errors_is e ErrTopicExists then CodeTopicExists
      else if errors_is e ErrTopicNotFound then CodeTopicNotFound
      else if errors_is e ErrTopicNameEmpty then CodeEmptyTopicName
      else if errors_is e ErrTopicNameTooLong then CodeTopicNameTooLong
      else if errors_is e ErrInvalidTopicName then CodeInvalidTopicName
      else if errors_is e ErrTooManyTopics then CodeTooManyTopics
      else if errors_is e ErrTooLarge then CodeTooLarge
      else CodeUnknown)"

section \<open>Responding\<close>

record hconn =
  h_in :: instream
  h_bw :: bufw
  h_open :: bool

definition armRead :: "server \<Rightarrow> hconn \<Rightarrow> bool" where
  "armRead s c \<longleftrightarrow> (if sv_readTimeout s \<le> 0 then True else h_open c)"

definition armWrite :: "server \<Rightarrow> hconn \<Rightarrow> bool" where
  "armWrite s c \<longleftrightarrow> (if sv_writeTimeout s \<le> 0 then True else h_open c)"

abbreviation on_bw :: "(bufw, gerror, 'a) go \<Rightarrow> (hconn, gerror, 'a) go" where
  "on_bw \<equiv> gzoom h_bw (\<lambda>w. h_bw_update (\<lambda>_. w))"

definition response_frame ::
    "(gostring \<Rightarrow> gostring) \<Rightarrow> opcode \<Rightarrow> gerror option \<Rightarrow> bytes \<Rightarrow> opcode \<times> bytes" where
  "response_frame quote op err body =
     (case err of
        Some e \<Rightarrow> (OpError, EncodeError (errorCode e) (error_text quote e))
      | None \<Rightarrow> (op, body))"

definition respond ::
    "(gostring \<Rightarrow> gostring) \<Rightarrow> server \<Rightarrow> opcode \<Rightarrow> gerror option \<Rightarrow> bytes \<Rightarrow> (hconn, gerror, unit) go" where
  "respond quote s op err body c =
     (if \<not> armWrite s c then (Fail (NewError (ascii ''network: set write deadline failed'')), c)
      else case response_frame quote op err body of (op, payload) \<Rightarrow>
        gbind (on_bw (WriteFrame bufio_write op payload)) (\<lambda>_. on_bw bufio_flush) c)"

section \<open>Handling one frame\<close>

text \<open>
  What the handler does after a frame: go on, end the connection, or push the messages of the
  subscription \<open>sid\<close> of partition \<open>t\<close>.
\<close>

datatype verdict = Continue | Stop | Streaming nat nat

text \<open>Respond, and end the connection when that fails.\<close>

definition reply ::
    "(gostring \<Rightarrow> gostring) \<Rightarrow> server \<Rightarrow> opcode \<Rightarrow> gerror option \<Rightarrow> bytes
      \<Rightarrow> (hconn \<times> 'x broker, gerror, verdict) go" where
  "reply quote s op err body = (\<lambda>(c, b).
     case respond quote s op err body c of
       (Ok _, c) \<Rightarrow> (Ok Continue, (c, b))
     | (Fail _, c) \<Rightarrow> (Ok Stop, (c, b))
     | (Panic, c) \<Rightarrow> (Panic, (c, b)))"

definition reply_result ::
    "(gostring \<Rightarrow> gostring) \<Rightarrow> server \<Rightarrow> opcode \<Rightarrow> 'a result \<Rightarrow> ('a \<Rightarrow> bytes)
      \<Rightarrow> (hconn \<times> 'x broker, gerror, verdict) go" where
  "reply_result quote s op r body =
     (case r of
        Ok a \<Rightarrow> reply quote s op None (body a)
      | Fail e \<Rightarrow> reply quote s op (Some e) []
      | Panic \<Rightarrow> (\<lambda>st. (Panic, st)))"

abbreviation on_broker :: "('x broker, gerror, 'a) go \<Rightarrow> hconn \<times> 'x broker \<Rightarrow> 'a result \<times> (hconn \<times> 'x broker)" where
  "on_broker m \<equiv> (\<lambda>(c, b). case m b of (r, b) \<Rightarrow> (r, (c, b)))"

definition message_too_large :: gerror where
  "message_too_large =
     Wrap (Prefix (ascii ''network: message exceeds MaxMessage ('' @ decimal (nat MaxMessage) @ ascii '')''))
       (Sentinel ErrTooLarge)"

definition topics_too_large :: gerror where
  "topics_too_large =
     Wrap (Prefix (ascii ''network: topic list exceeds MaxPayload ('' @ decimal (nat MaxPayload) @ ascii '')''))
       (Sentinel ErrTooLarge)"

definition publishBatch :: "'x store_ops \<Rightarrow> gostring \<Rightarrow> bytes list \<Rightarrow> ('x broker, gerror, i64) go" where
  "publishBatch fops topic ms b =
     (if list_ex (\<lambda>m. len m > MaxMessage) ms then (Fail message_too_large, b)
      else Broker_PublishBatch fops topic ms b)"

definition handle_create ::
    "(gostring \<Rightarrow> gostring) \<Rightarrow> server \<Rightarrow> bytes \<Rightarrow> (hconn \<times> 'x broker, gerror, verdict) go" where
  "handle_create quote s payload st =
     (case on_broker (CreateTopic payload) st of
        (r, st) \<Rightarrow> reply_result quote s OpCreateTopic r (\<lambda>_. []) st)"

definition handle_publish ::
    "(gostring \<Rightarrow> gostring) \<Rightarrow> 'x store_ops \<Rightarrow> server \<Rightarrow> bytes \<Rightarrow> (hconn \<times> 'x broker, gerror, verdict) go" where
  "handle_publish quote fops s payload st =
     (case DecodePublish payload of
        Fail derr \<Rightarrow> reply quote s OpPublish (Some derr) [] st
      | Panic \<Rightarrow> (Panic, st)
      | Ok (topic, msg) \<Rightarrow>
          (if len msg > MaxMessage then reply quote s OpPublish (Some message_too_large) [] st
           else case on_broker (Broker_Publish fops topic msg) st of
             (r, st) \<Rightarrow> reply_result quote s OpPublish r MarshalOffset st))"

definition handle_publish_batch ::
    "(gostring \<Rightarrow> gostring) \<Rightarrow> 'x store_ops \<Rightarrow> server \<Rightarrow> bytes \<Rightarrow> (hconn \<times> 'x broker, gerror, verdict) go" where
  "handle_publish_batch quote fops s payload st =
     (case DecodePublishBatch payload of
        Fail derr \<Rightarrow> reply quote s OpPublishBatch (Some derr) [] st
      | Panic \<Rightarrow> (Panic, st)
      | Ok (topic, ms) \<Rightarrow>
          (case on_broker (publishBatch fops topic ms) st of
             (r, st) \<Rightarrow> reply_result quote s OpPublishBatch r (\<lambda>base. EncodePublishAck base (len ms)) st))"

text \<open>No response, and failures are silent.\<close>

definition handle_publish_no_ack :: "'x store_ops \<Rightarrow> bytes \<Rightarrow> (hconn \<times> 'x broker, gerror, verdict) go" where
  "handle_publish_no_ack fops payload st =
     (case DecodePublish payload of
        Fail derr \<Rightarrow> (Ok Continue, st)
      | Panic \<Rightarrow> (Panic, st)
      | Ok (topic, msg) \<Rightarrow>
          (if len msg \<le> MaxMessage
           then (case on_broker (Broker_Publish fops topic msg) st of
               (Panic, st) \<Rightarrow> (Panic, st)
             | (_, st) \<Rightarrow> (Ok Continue, st))
           else (Ok Continue, st)))"

definition handle_list ::
    "(gostring \<Rightarrow> gostring) \<Rightarrow> server \<Rightarrow> (hconn \<times> 'x broker, gerror, verdict) go" where
  "handle_list quote s st =
     (case ListTopics (snd st) of
        Fail e \<Rightarrow> reply quote s OpListTopics (Some e) [] st
      | Panic \<Rightarrow> (Panic, st)
      | Ok names \<Rightarrow>
          (let body = EncodeTopics names in
           if len body > MaxPayload then reply quote s OpListTopics (Some topics_too_large) [] st
           else reply quote s OpListTopics None body st))"

text \<open>A subscription whose response cannot be written is closed again.\<close>

definition handle_subscribe ::
    "(gostring \<Rightarrow> gostring) \<Rightarrow> server \<Rightarrow> bytes \<Rightarrow> (hconn \<times> 'x broker, gerror, verdict) go" where
  "handle_subscribe quote s payload st =
     (case on_broker (Broker_Subscribe payload) st of
        (Fail e, st) \<Rightarrow> reply quote s OpSubscribe (Some e) [] st
      | (Panic, st) \<Rightarrow> (Panic, st)
      | (Ok (t, sid), st) \<Rightarrow>
          (case reply quote s OpSubscribe None [] st of
             (Ok Continue, st) \<Rightarrow> (Ok (Streaming t sid), st)
           | (_, st) \<Rightarrow>
               (case on_broker (on_part t (Subscription_Close sid)) st of
                  (Panic, st) \<Rightarrow> (Panic, st)
                | (_, st) \<Rightarrow> (Ok Stop, st))))"

definition handle_frame ::
    "(gostring \<Rightarrow> gostring) \<Rightarrow> 'x store_ops \<Rightarrow> server \<Rightarrow> opcode \<Rightarrow> bytes
      \<Rightarrow> (hconn \<times> 'x broker, gerror, verdict) go" where
  "handle_frame quote fops s op payload =
     (if op = OpCreateTopic then handle_create quote s payload
      else if op = OpPublish then handle_publish quote fops s payload
      else if op = OpPublishBatch then handle_publish_batch quote fops s payload
      else if op = OpPublishNoAck then handle_publish_no_ack fops payload
      else if op = OpListTopics then handle_list quote s
      else if op = OpSubscribe then handle_subscribe quote s payload
      else greturn Continue)"

section \<open>The handler of a connection\<close>

lemma respond_in [simp]: "h_in (snd (respond quote s op err body c)) = h_in c"
  by (auto simp: respond_def gbind_def gzoom_def split: prod.splits outcome.splits)

text \<open>
  \<open>respond\<close> does not panic, so a reply is one of two things; and no handler touches the bytes that
  have yet to arrive.
\<close>

lemma gzoom_fst: "fst (gzoom get put m t) = fst (m (get t))"
  by (simp add: gzoom_def split_beta)

lemma respond_no_panic: "fst (respond quote s op err body c) \<noteq> Panic"
proof -
  obtain o' p where f: "response_frame quote op err body = (o', p)" by force
  have "fst (WriteFrame bufio_write o' p w) \<noteq> Panic" for w
    by (simp add: WriteFrame_eq bufio.wr_no_panic)
  moreover have "fst (bufio_flush w) \<noteq> Panic" for w
    by (cases "bufio_flush w") (auto simp del: prod.collapse)
  ultimately show ?thesis
    by (simp add: respond_def f gbind_no_panic gzoom_fst)
qed

lemma reply_cases:
  obtains (sent) c' where "respond quote s op err body (fst st) = (Ok (), c')"
      "reply quote s op err body st = (Ok Continue, (c', snd st))" "h_in c' = h_in (fst st)"
  | (broken) e c' where "respond quote s op err body (fst st) = (Fail e, c')"
      "reply quote s op err body st = (Ok Stop, (c', snd st))" "h_in c' = h_in (fst st)"
proof -
  obtain r c' where r: "respond quote s op err body (fst st) = (r, c')" by force
  have "h_in c' = h_in (fst st)" using respond_in [of quote s op err body "fst st"] r by simp
  moreover have "r \<noteq> Panic" using respond_no_panic [of quote s op err body "fst st"] r by simp
  ultimately show thesis
    using r by (cases r; cases st) (auto simp: reply_def intro: that)
qed

definition keeps_in :: "(hconn \<times> 'x broker, gerror, verdict) go \<Rightarrow> bool" where
  "keeps_in m \<longleftrightarrow> (\<forall>st. h_in (fst (snd (m st))) = h_in (fst st))"

lemma keeps_in_reply [simp]: "keeps_in (reply quote s op err body)"
  unfolding keeps_in_def
proof
  fix st :: "hconn \<times> 'a broker"
  show "h_in (fst (snd (reply quote s op err body st))) = h_in (fst st)"
    by (cases rule: reply_cases [where st = st and quote = quote and s = s and op = op and
          err = err and body = body]) simp_all
qed

lemma reply_in [simp]: "h_in (fst (snd (reply quote s op err body st))) = h_in (fst st)"
  using keeps_in_reply [unfolded keeps_in_def] by blast

lemma keeps_in_pair [simp]: "keeps_in (Pair r)"
  by (simp add: keeps_in_def)

lemma keeps_in_result [simp]: "keeps_in (reply_result quote s op r body)"
  by (cases r) (simp_all add: reply_result_def)

lemma keeps_in_broker:
  assumes "\<And>r. keeps_in (f r)"
  shows "keeps_in (\<lambda>st. case on_broker m st of (r, st) \<Rightarrow> f r st)"
  using assms by (auto simp: keeps_in_def split: prod.splits)

lemma keeps_in_if: "keeps_in f \<Longrightarrow> keeps_in g \<Longrightarrow> keeps_in (\<lambda>st. if c then f st else g st)"
  by (simp add: keeps_in_def)

lemma keeps_in_handlers:
  "keeps_in (handle_create quote s payload)"
  "keeps_in (handle_publish quote fops s payload)"
  "keeps_in (handle_publish_batch quote fops s payload)"
  "keeps_in (handle_publish_no_ack fops payload)"
  "keeps_in (handle_list quote s)"
proof -
  show "keeps_in (handle_create quote s payload)"
    unfolding handle_create_def by (intro keeps_in_broker keeps_in_result)
  show "keeps_in (handle_publish quote fops s payload)"
    unfolding handle_publish_def
    by (cases "DecodePublish payload") (auto intro!: keeps_in_broker keeps_in_if)
  show "keeps_in (handle_publish_batch quote fops s payload)"
    unfolding handle_publish_batch_def
    by (cases "DecodePublishBatch payload") (auto intro: keeps_in_broker)
  show "keeps_in (handle_publish_no_ack fops payload)"
    unfolding handle_publish_no_ack_def keeps_in_def
    by (auto split: outcome.splits prod.splits)
  show "keeps_in (handle_list quote s)"
    unfolding handle_list_def keeps_in_def
    by (auto simp: Let_def split: outcome.splits)
qed

lemma on_broker_eq: "on_broker m st = (fst (m (snd st)), (fst st, snd (m (snd st))))"
  by (simp add: split_beta)

lemma keeps_in_subscribe: "keeps_in (handle_subscribe quote s payload)"
  unfolding keeps_in_def
proof
  fix st :: "hconn \<times> 'x broker"
  define st1 where "st1 = snd (on_broker (Broker_Subscribe payload) st)"
  have st1: "fst st1 = fst st" by (simp add: st1_def on_broker_eq)
  show "h_in (fst (snd (handle_subscribe quote s payload st))) = h_in (fst st)"
  proof (cases "fst (on_broker (Broker_Subscribe payload) st)")
    case (Ok tsid)
    show ?thesis
      by (cases rule: reply_cases [where st = st1 and quote = quote and s = s and op = OpSubscribe and
            err = None and body = "[]"])
        (use Ok st1 in \<open>simp_all add: handle_subscribe_def on_broker_eq st1_def split: prod.split outcome.split\<close>)
  next
    case (Fail e)
    then have "handle_subscribe quote s payload st = reply quote s OpSubscribe (Some e) [] st1"
      by (simp add: handle_subscribe_def on_broker_eq st1_def)
    with st1 show ?thesis by simp
  next
    case Panic
    then have "handle_subscribe quote s payload st = (Panic, st1)"
      by (simp add: handle_subscribe_def on_broker_eq st1_def)
    with st1 show ?thesis by simp
  qed
qed

lemma handle_frame_in: "h_in (fst (snd (handle_frame quote fops s op payload st))) = h_in (fst st)"
proof -
  have "keeps_in (handle_frame quote fops s op payload)"
    unfolding handle_frame_def greturn_def [abs_def]
    by (auto intro!: keeps_in_handlers keeps_in_subscribe simp: keeps_in_def [of "\<lambda>s. (Ok Continue, s)"])
  then show ?thesis unfolding keeps_in_def by blast
qed

text \<open>
  The loop of \<open>handleConn\<close>. It ends when the connection does, and otherwise turns into the stream of
  a subscription. An accepted frame has a header, so every round consumes bytes.
\<close>

lemma ReadFrame_shorter:
  assumes "ReadFrame i = (Ok r, i')"
  shows "length i' < length i"
proof -
  obtain op p where "r = (op, p)" by force
  with assms have "i = stream_of (frame_bytes op p) @ i'" by (simp add: ReadFrame_eq_Ok)
  then show ?thesis by simp
qed

lemma handle_frame_shorter:
  assumes "(Ok (op, p), i) = ReadFrame (h_in c)"
    and "(r, (c', b')) = handle_frame quote fops s op p (c\<lparr>h_in := i\<rparr>, b)"
  shows "length (h_in c') < length (h_in c)"
  using ReadFrame_shorter [OF assms(1) [symmetric]] handle_frame_in [of quote fops s op p "(c\<lparr>h_in := i\<rparr>, b)"]
    assms(2) [symmetric] by simp

function handleConn ::
    "(gostring \<Rightarrow> gostring) \<Rightarrow> 'x store_ops \<Rightarrow> server \<Rightarrow> hconn \<times> 'x broker
      \<Rightarrow> verdict result \<times> (hconn \<times> 'x broker)" where
  "handleConn quote fops s (c, b) =
     (if \<not> armRead s c then (Ok Stop, (c, b))
      else case ReadFrame (h_in c) of
        (Fail e, i) \<Rightarrow>
          (let c = c\<lparr>h_in := i\<rparr> in
           if errors_is e ErrTooLarge
           then (Ok Stop, (snd (respond quote s OpError (Some (Sentinel ErrTooLarge)) [] c), b))
           else (Ok Stop, (c, b)))
      | (Panic, i) \<Rightarrow> (Panic, (c\<lparr>h_in := i\<rparr>, b))
      | (Ok (op, payload), i) \<Rightarrow>
          (case handle_frame quote fops s op payload (c\<lparr>h_in := i\<rparr>, b) of
             (Ok Continue, st) \<Rightarrow> handleConn quote fops s st
           | (r, st) \<Rightarrow> (r, st)))"
  by pat_completeness auto

termination
  by (relation "measure (\<lambda>(quote, fops, s, c, b). length (h_in c))")
    (auto dest: handle_frame_shorter)

declare handleConn.simps [simp del]

section \<open>The stream of a subscription\<close>

definition stream_batch :: i64 where "stream_batch = 64"

text \<open>One batch of messages: the two slices, and the batch written straight to the connection.\<close>

definition push_batch ::
    "(gostring \<Rightarrow> gostring) \<Rightarrow> server \<Rightarrow> message list \<Rightarrow> (hconn \<times> header_pool, gerror, verdict) go" where
  "push_batch quote s ms = (\<lambda>(c, pool).
     if \<not> armWrite s c then (Ok Stop, (c, pool))
     else let offsets = map Offset ms; payloads = map Payload ms in
       case WriteMessageBatch conn_write offsets payloads (bw_conn (h_bw c), pool) of
         (r, (out, pool)) \<Rightarrow>
           (let c = c\<lparr>h_bw := (h_bw c)\<lparr>bw_conn := out\<rparr>\<rparr> in
            case r of
              Ok _ \<Rightarrow> (Ok Continue, (c, pool))
            | Panic \<Rightarrow> (Panic, (c, pool))
            | Fail e \<Rightarrow>
                (if errors_is e ErrTooLarge
                 then (Ok Stop, (snd (respond quote s OpError (Some e) [] c), pool))
                 else (Ok Stop, (c, pool)))))"

text \<open>
  The loop of \<open>stream\<close>, over what the calls of \<open>sub.Read(ctx, 64)\<close> return; when they run out it is
  blocked in the next call.
\<close>

primrec stream ::
    "(gostring \<Rightarrow> gostring) \<Rightarrow> server \<Rightarrow> message list result list \<Rightarrow> (hconn \<times> header_pool, gerror, verdict) go" where
  "stream quote s [] = (\<lambda>st. (Ok Continue, st))"
| "stream quote s (r # rs) = (\<lambda>st.
     case r of
       Fail e \<Rightarrow> (Ok Stop, st)
     | Panic \<Rightarrow> (Panic, st)
     | Ok ms \<Rightarrow>
         (case push_batch quote s ms st of
            (Ok Continue, st) \<Rightarrow> stream quote s rs st
          | (v, st) \<Rightarrow> (v, st)))"

section \<open>Admission and shutdown\<close>

datatype admission = Started | Refused_closed | Refused_overloaded

text \<open>
  What \<open>Serve\<close> does with a connection it has accepted, up to the end of the critical section; \<open>out\<close> is
  the connection's sending side.
\<close>

definition Serve_conn :: "nat \<Rightarrow> conn_out \<Rightarrow> server \<Rightarrow> admission \<times> conn_out \<times> server" where
  "Serve_conn conn out s =
     (if sv_closed s then (Refused_closed, out, s\<lparr>sv_cancelled := conn # sv_cancelled s\<rparr>)
      else if sv_maxConns s > 0 \<and> len (sv_conns s) \<ge> sv_maxConns s
      then (Refused_overloaded,
            snd (WriteFrame conn_write OpError
              (EncodeError CodeOverloaded (ascii ''network: too many connections'')) out),
            s\<lparr>sv_cancelled := conn # sv_cancelled s\<rparr>)
      else (Started, out, s\<lparr>sv_conns := sv_conns s @ [conn], sv_running := sv_running s @ [conn]\<rparr>))"

definition removeConn :: "nat \<Rightarrow> server \<Rightarrow> server" where
  "removeConn conn s =
     (if conn \<in> set (sv_conns s)
      then s\<lparr>sv_cancelled := conn # sv_cancelled s, sv_conns := removeAll conn (sv_conns s)\<rparr>
      else s)"

definition handler_done :: "nat \<Rightarrow> server \<Rightarrow> server" where
  "handler_done conn s = s\<lparr>sv_running := removeAll conn (sv_running s)\<rparr>"

text \<open>
  The steps of \<open>Server.Close\<close>: the critical section, one round of its loop, and the end of the wait.
\<close>

definition Close_begin :: "server \<Rightarrow> server" where
  "Close_begin s = s\<lparr>sv_closed := True, sv_shutdown := Cancelling (sv_conns s)\<rparr>"

definition Close_cancel :: "server \<Rightarrow> server" where
  "Close_cancel s =
     (case sv_shutdown s of
        Cancelling (conn # conns) \<Rightarrow>
          s\<lparr>sv_cancelled := conn # sv_cancelled s, sv_shutdown := Cancelling conns\<rparr>
      | _ \<Rightarrow> s)"

definition Close_end :: "server \<Rightarrow> server" where
  "Close_end s = s\<lparr>sv_shutdown := Closed\<rparr>"

inductive server_step :: "server \<Rightarrow> server \<Rightarrow> bool" where
  accept: "conn \<notin> set (sv_running s) \<union> set (sv_conns s) \<union> set (sv_cancelled s) \<Longrightarrow>
     Serve_conn conn out s = (a, out', s') \<Longrightarrow> server_step s s'"
| remove: "conn \<in> set (sv_running s) \<Longrightarrow> server_step s (removeConn conn s)"
| finish: "conn \<in> set (sv_running s) \<Longrightarrow> conn \<notin> set (sv_conns s) \<Longrightarrow> server_step s (handler_done conn s)"
| begin_close: "sv_shutdown s = NotClosing \<Longrightarrow> server_step s (Close_begin s)"
| cancel: "sv_shutdown s = Cancelling (conn # conns) \<Longrightarrow> server_step s (Close_cancel s)"
| end_close: "sv_shutdown s = Cancelling [] \<Longrightarrow> sv_running s = [] \<Longrightarrow> server_step s (Close_end s)"

inductive server_reachable :: "server_option list \<Rightarrow> server \<Rightarrow> bool" for opts :: "server_option list" where
  start: "server_reachable opts (NewServer opts)"
| step: "server_reachable opts s \<Longrightarrow> server_step s s' \<Longrightarrow> server_reachable opts s'"

inductive_cases server_stepE: "server_step s s'"

end
