(* ===== verification/Net_Server_Facts.thy ===== *)
theory Net_Server_Facts
  imports Net_Server
begin

text \<open>
  What the server does with the frames of a connection: \<open>rpc\<close> is the meaning of a request frame, a
  call of the broker and the body of its response, and the handler answers every request of a
  connection in order with exactly that. Then the messages a stream puts on its connection, and
  the invariant of admission and shutdown.
\<close>

section \<open>Responding on a sound connection\<close>

definition sound :: "hconn \<Rightarrow> bool" where
  "sound c \<longleftrightarrow> h_open c \<and> healthy (h_bw c) \<and> bw_buf (h_bw c) = []"

definition on_wire :: "hconn \<Rightarrow> bytes" where
  "on_wire c = co_sent (bw_conn (h_bw c))"

definition response_bytes :: "(gostring \<Rightarrow> gostring) \<Rightarrow> opcode \<Rightarrow> gerror option \<Rightarrow> bytes \<Rightarrow> bytes" where
  "response_bytes quote op err body =
     (case response_frame quote op err body of (op, payload) \<Rightarrow> frame_bytes op payload)"

definition response_fits :: "(gostring \<Rightarrow> gostring) \<Rightarrow> opcode \<Rightarrow> gerror option \<Rightarrow> bytes \<Rightarrow> bool" where
  "response_fits quote op err body \<longleftrightarrow> len (snd (response_frame quote op err body)) \<le> MaxPayload"

lemma respond_sound:
  assumes "sound c" and "response_fits quote op err body"
  obtains c' where "respond quote s op err body c = (Ok (), c')" "sound c'" "h_in c' = h_in c"
    "on_wire c' = on_wire c @ response_bytes quote op err body"
proof -
  obtain o' p where f: "response_frame quote op err body = (o', p)" by force
  have p: "len p \<le> MaxPayload" using assms(2) f by (simp add: response_fits_def)
  have h: "healthy (h_bw c)" "bw_buf (h_bw c) = []" "h_open c" using assms(1) by (auto simp: sound_def)
  obtain w where w: "WriteFrame bufio_write o' p (h_bw c) = (Ok (), w)" "healthy w"
    using succeedsD [OF succeeds_WriteFrame [where wr = bufio_write, OF succeeds_bufio(1) p] h(1)] by blast
  obtain w' where w': "bufio_flush w = (Ok (), w')" "healthy w'"
    using succeedsD [OF succeeds_bufio(2) w(2)] by blast
  have "bufw_sent w = bufw_sent (h_bw c) @ frame_bytes o' p"
    using bufio.emits_ok [OF bufio.emits_WriteFrame [OF p] w(1)] .
  moreover have "bufw_sent (h_bw c) = on_wire c" using h(2) by (simp add: bufw_sent_def on_wire_def)
  moreover have "co_sent (bw_conn w') = bufw_sent w \<and> bw_buf w' = []" using bufio_flush_Ok [OF w'(1)] .
  moreover have "respond quote s op err body c = (Ok (), c\<lparr>h_bw := w'\<rparr>)"
    using w(1) w'(1) h(3) f by (simp add: respond_def armWrite_def gbind_def gzoom_def)
  ultimately show thesis
    using w'(2) h(3)
    by (intro that [of "c\<lparr>h_bw := w'\<rparr>"]) (simp_all add: sound_def on_wire_def response_bytes_def f)
qed

lemma reply_sound:
  assumes "sound c" and "response_fits quote op err body"
  obtains c' where "reply quote s op err body (c, b) = (Ok Continue, (c', b))" "sound c'"
    "h_in c' = h_in c" "on_wire c' = on_wire c @ response_bytes quote op err body"
  by (rule respond_sound [OF assms, of s]) (auto simp: reply_def intro: that)

section \<open>The meaning of a request\<close>

definition map_ok :: "('a \<Rightarrow> 'b) \<Rightarrow> 'a result \<Rightarrow> 'b result" where
  "map_ok f r = (case r of Ok a \<Rightarrow> Ok (f a) | Fail e \<Rightarrow> Fail e | Panic \<Rightarrow> Panic)"

lemma map_ok_simps [simp]:
  "map_ok f (Ok a) = Ok (f a)" "map_ok f (Fail e) = Fail e" "map_ok f Panic = Panic"
  by (simp_all add: map_ok_def)

text \<open>The opcodes of requests that are answered and leave the connection in its request phase.\<close>

definition is_rpc :: "opcode \<Rightarrow> bool" where
  "is_rpc op \<longleftrightarrow> op \<in> {OpCreateTopic, OpPublish, OpPublishBatch, OpListTopics}"

definition rpc :: "'x store_ops \<Rightarrow> opcode \<Rightarrow> bytes \<Rightarrow> ('x broker, gerror, bytes) go" where
  "rpc fops op payload b =
     (if op = OpCreateTopic then apfst (map_ok (\<lambda>_. [])) (CreateTopic payload b)
      else if op = OpPublish then
        (case DecodePublish payload of
           Fail e \<Rightarrow> (Fail e, b)
         | Panic \<Rightarrow> (Panic, b)
         | Ok (topic, msg) \<Rightarrow>
             if len msg > MaxMessage then (Fail message_too_large, b)
             else apfst (map_ok MarshalOffset) (Broker_Publish fops topic msg b))
      else if op = OpPublishBatch then
        (case DecodePublishBatch payload of
           Fail e \<Rightarrow> (Fail e, b)
         | Panic \<Rightarrow> (Panic, b)
         | Ok (topic, ms) \<Rightarrow>
             apfst (map_ok (\<lambda>base. EncodePublishAck base (len ms))) (publishBatch fops topic ms b))
      else
        (case ListTopics b of
           Fail e \<Rightarrow> (Fail e, b)
         | Panic \<Rightarrow> (Panic, b)
         | Ok names \<Rightarrow>
             if len (EncodeTopics names) > MaxPayload then (Fail topics_too_large, b)
             else (Ok (EncodeTopics names), b)))"

text \<open>The frame that answers it.\<close>

definition response_of :: "(gostring \<Rightarrow> gostring) \<Rightarrow> opcode \<Rightarrow> bytes result \<Rightarrow> opcode \<times> bytes" where
  "response_of quote op r =
     (case r of
        Ok body \<Rightarrow> (op, body)
      | Fail e \<Rightarrow> (OpError, EncodeError (errorCode e) (error_text quote e))
      | Panic \<Rightarrow> (op, []))"

definition answers :: "(gostring \<Rightarrow> gostring) \<Rightarrow> server \<Rightarrow> opcode \<Rightarrow> bytes result \<Rightarrow> (hconn \<times> 'x broker, gerror, verdict) go" where
  "answers quote s op r = reply_result quote s op r (\<lambda>body. body)"

lemma reply_result_map: "reply_result quote s op r f = answers quote s op (map_ok f r)"
  by (cases r) (simp_all add: reply_result_def answers_def fun_eq_iff)

lemma answers_simps:
  "answers quote s op (Ok body) = reply quote s op None body"
  "answers quote s op (Fail e) = reply quote s op (Some e) []"
  "answers quote s op Panic = Pair Panic"
  by (simp_all add: answers_def reply_result_def fun_eq_iff)

lemma handle_frame_rpc:
  assumes "is_rpc op"
  shows "handle_frame quote fops s op payload (c, b) =
    (case rpc fops op payload b of (r, b') \<Rightarrow> answers quote s op r (c, b'))"
proof -
  consider "op = OpCreateTopic" | "op = OpPublish" | "op = OpPublishBatch" | "op = OpListTopics"
    using assms by (auto simp: is_rpc_def)
  then show ?thesis
  proof cases
    case 1
    then show ?thesis
      by (simp add: handle_frame_def handle_create_def rpc_def reply_result_map split: prod.split)
  next
    case 2
    then have h: "handle_frame quote fops s op payload (c, b) = handle_publish quote fops s payload (c, b)"
      by (simp add: handle_frame_def opcode_defs)
    show ?thesis
      using 2 unfolding h handle_publish_def rpc_def
      by (cases "DecodePublish payload")
        (auto simp: reply_result_map answers_simps opcode_defs split: prod.split)
  next
    case 3
    then have h: "handle_frame quote fops s op payload (c, b) = handle_publish_batch quote fops s payload (c, b)"
      by (simp add: handle_frame_def opcode_defs)
    show ?thesis
      using 3 unfolding h handle_publish_batch_def rpc_def
      by (cases "DecodePublishBatch payload")
        (auto simp: reply_result_map answers_simps opcode_defs split: prod.split)
  next
    case 4
    then have h: "handle_frame quote fops s op payload (c, b) = handle_list quote s (c, b)"
      by (simp add: handle_frame_def opcode_defs)
    show ?thesis
      using 4 unfolding h handle_list_def rpc_def
      by (cases "ListTopics b") (auto simp: answers_simps opcode_defs Let_def)
  qed
qed

lemma answers_sound:
  assumes "sound c" and "r \<noteq> Panic" and "len (snd (response_of quote op r)) \<le> MaxPayload"
  obtains c' where "answers quote s op r (c, b) = (Ok Continue, (c', b))" "sound c'" "h_in c' = h_in c"
    "on_wire c' = on_wire c @ case_prod frame_bytes (response_of quote op r)"
proof (cases r)
  case (Ok body)
  then have "response_fits quote op None body" using assms(3) by (simp add: response_fits_def response_frame_def response_of_def)
  from reply_sound [OF assms(1) this, of s b] Ok that show thesis
    by (auto simp: answers_simps response_bytes_def response_frame_def response_of_def)
next
  case (Fail e)
  then have "response_fits quote op (Some e) []" using assms(3) by (simp add: response_fits_def response_frame_def response_of_def)
  from reply_sound [OF assms(1) this, of s b] Fail that show thesis
    by (auto simp: answers_simps response_bytes_def response_frame_def response_of_def)
qed (use assms in simp)

section \<open>A connection's requests, in order\<close>

type_synonym frame = "opcode \<times> bytes"

primrec serve_all ::
    "(gostring \<Rightarrow> gostring) \<Rightarrow> 'x store_ops \<Rightarrow> frame list \<Rightarrow> 'x broker \<Rightarrow> frame list \<times> 'x broker" where
  "serve_all quote fops [] b = ([], b)"
| "serve_all quote fops (q # qs) b =
     (case rpc fops (fst q) (snd q) b of (r, b1) \<Rightarrow>
      case serve_all quote fops qs b1 of (fs, b2) \<Rightarrow> (response_of quote (fst q) r # fs, b2))"

primrec serve_panics :: "'x store_ops \<Rightarrow> frame list \<Rightarrow> 'x broker \<Rightarrow> bool" where
  "serve_panics fops [] b = False"
| "serve_panics fops (q # qs) b =
     (case rpc fops (fst q) (snd q) b of (r, b1) \<Rightarrow> r = Panic \<or> serve_panics fops qs b1)"

definition frames_bytes :: "frame list \<Rightarrow> bytes" where
  "frames_bytes fs = concat (map (case_prod frame_bytes) fs)"

lemma frames_bytes_simps [simp]:
  "frames_bytes [] = []" "frames_bytes (f # fs) = case_prod frame_bytes f @ frames_bytes fs"
  by (simp_all add: frames_bytes_def)

definition frame_fits :: "frame \<Rightarrow> bool" where
  "frame_fits f \<longleftrightarrow> len (snd f) \<le> MaxPayload"

lemma handleConn_eof:
  assumes "sound c" and "h_in c = []"
  shows "handleConn quote fops s (c, b) = (Ok Stop, (c, b))"
proof -
  have "ReadFrame [] = (fail_with ErrTruncated, [])"
    by (simp add: ReadFrame_def ReadHeader_def HeaderLen_def gbind_def gtry_def eval_nat_numeral)
  then show ?thesis
    using assms by (simp add: handleConn.simps [of quote] sound_def armRead_def)
qed

lemma handleConn_step:
  assumes "sound c" and "h_in c = stream_of (frame_bytes op p) @ i" and "len p \<le> MaxPayload"
    and "handle_frame quote fops s op p (c\<lparr>h_in := i\<rparr>, b) = (Ok Continue, st)"
  shows "handleConn quote fops s (c, b) = handleConn quote fops s st"
  using assms by (simp add: handleConn.simps [of quote fops s c] sound_def armRead_def ReadFrame_frame)

lemma sound_in [simp]: "sound (c\<lparr>h_in := i\<rparr>) = sound c" "on_wire (c\<lparr>h_in := i\<rparr>) = on_wire c"
  by (simp_all add: sound_def on_wire_def)

lemma handleConn_serves:
  assumes "sound c" and "h_in c = stream_of (frames_bytes qs)"
    and "\<forall>q\<in>set qs. is_rpc (fst q) \<and> frame_fits q" and "\<not> serve_panics fops qs b"
    and "serve_all quote fops qs b = (fs, b')" and "\<forall>f\<in>set fs. frame_fits f"
  shows "\<exists>c'. handleConn quote fops s (c, b) = (Ok Stop, (c', b')) \<and> sound c' \<and> h_in c' = [] \<and>
    on_wire c' = on_wire c @ frames_bytes fs"
  using assms
proof (induction qs arbitrary: c b fs)
  case Nil
  then show ?case by (auto simp: handleConn_eof)
next
  case (Cons q qs)
  obtain op p where q: "q = (op, p)" by force
  obtain r b1 where r: "rpc fops op p b = (r, b1)" by force
  obtain fs1 where fs: "serve_all quote fops qs b1 = (fs1, b')" "fs = response_of quote op r # fs1"
    using Cons.prems(5) r q by (auto split: prod.splits)
  let ?i = "stream_of (frames_bytes qs)"
  have nr: "r \<noteq> Panic" "\<not> serve_panics fops qs b1" using Cons.prems(4) r q by auto
  have fit: "len (snd (response_of quote op r)) \<le> MaxPayload" "\<forall>f\<in>set fs1. frame_fits f"
    using Cons.prems(6) fs(2) by (auto simp: frame_fits_def)
  have "sound (c\<lparr>h_in := ?i\<rparr>)" using Cons.prems(1) by simp
  from answers_sound [OF this nr(1) fit(1), of s b1] obtain c1 where
    c1: "answers quote s op r (c\<lparr>h_in := ?i\<rparr>, b1) = (Ok Continue, (c1, b1))" "sound c1" "h_in c1 = ?i"
    "on_wire c1 = on_wire c @ case_prod frame_bytes (response_of quote op r)"
    by auto
  have "handle_frame quote fops s op p (c\<lparr>h_in := ?i\<rparr>, b) = (Ok Continue, (c1, b1))"
    using Cons.prems(3) q r c1(1) by (simp add: handle_frame_rpc)
  then have "handleConn quote fops s (c, b) = handleConn quote fops s (c1, b1)"
    using Cons.prems(1-3) q by (intro handleConn_step) (auto simp: frame_fits_def)
  moreover obtain c' where "handleConn quote fops s (c1, b1) = (Ok Stop, (c', b'))" "sound c'" "h_in c' = []"
    "on_wire c' = on_wire c1 @ frames_bytes fs1"
    using Cons.IH [OF c1(2,3) _ nr(2) fs(1) fit(2)] Cons.prems(3) by auto
  ultimately show ?case
    using fs(2) c1(4) by simp
qed

end
