(* ===== verification/Net_Handler.thy ===== *)
theory Net_Handler
  imports Net_Server_Facts
begin

text \<open>
  The handler of a connection against the specification of the broker: whatever bytes arrive, a
  frame acts on the broker as the one call of its API that it encodes, or not at all; the handler
  does not panic, and it stores only messages that can be pushed to a subscriber.
\<close>

section \<open>The request a frame stands for\<close>

definition frame_request :: "opcode \<Rightarrow> bytes \<Rightarrow> request option" where
  "frame_request op p =
     (if op = OpCreateTopic then Some (ReqCreate p)
      else if op = OpPublish \<or> op = OpPublishNoAck then
        (case DecodePublish p of
           Ok (topic, m) \<Rightarrow> if len m \<le> MaxMessage then Some (ReqPublish topic m) else None
         | _ \<Rightarrow> None)
      else if op = OpPublishBatch then
        (case DecodePublishBatch p of
           Ok (topic, ms) \<Rightarrow>
             if list_all (\<lambda>m. len m \<le> MaxMessage) ms then Some (ReqPublishBatch topic ms) else None
         | _ \<Rightarrow> None)
      else None)"

definition frame_effect :: "int \<Rightarrow> opcode \<Rightarrow> bytes \<Rightarrow> spec \<Rightarrow> spec" where
  "frame_effect mx op p s =
     (case frame_request op p of None \<Rightarrow> s | Some q \<Rightarrow> snd (spec_call mx q s))"

lemma length_blocks: "4 * length bs \<le> length (blocks bs)"
  by (induction bs) auto

lemma frame_request_count: "frame_request op p = Some q \<Longrightarrow> payload_count q \<le> length p"
proof -
  have "length ms \<le> length p" if "DecodePublishBatch p = Ok (topic, ms)" for topic ms
    using that length_blocks [of ms] by (auto simp: DecodePublishBatch_eq_Ok Encode_eqs counted_def)
  moreover have "1 \<le> length p" if "DecodePublish p = Ok (topic, m)" for topic m
    using that by (auto simp: DecodePublish_eq_Ok Encode_eqs)
  ultimately show "frame_request op p = Some q \<Longrightarrow> payload_count q \<le> length p"
    by (auto simp: frame_request_def split: if_splits outcome.splits)
qed

lemma reply_broker:
  "snd (snd (reply quote s op err body st)) = snd st" "fst (reply quote s op err body st) \<noteq> Panic"
  by (cases rule: reply_cases [where st = st and quote = quote and s = s and op = op and
        err = err and body = body]; simp)+

lemma answers_broker:
  "snd (snd (answers quote s op r st)) = snd st" "fst (answers quote s op r st) = Panic \<longleftrightarrow> r = Panic"
  by (cases r; simp add: answers_simps reply_broker)+

section \<open>Subscribing\<close>

lemma Broker_Subscribe_ok:
  assumes ok: "broker_ok finv flog b" and r: "Broker_Subscribe name b = (r, b')"
  shows "broker_ok finv flog b' \<and> abs_broker flog b' = abs_broker flog b \<and> r \<noteq> Panic \<and>
    b_newStore b' = b_newStore b \<and> b_maxTopics b' = b_maxTopics b \<and>
    (\<forall>t sid. r = Ok (t, sid) \<longrightarrow> t < length (b_parts b'))"
  using ok
proof (cases rule: Broker_Subscribe_cases [where name = name])
  case (ok t p)
  have p: "partition_ok (store_inv finv) (store_log flog) p" "p_closed p \<longleftrightarrow> p_closed (b_parts b ! t)"
    using partition_ok_subscribe [OF broker_okD(5) [OF assms(1) ok(1)] ok(2)] Partition_ops_closed(3) [OF ok(2)]
    by auto
  have "p_store p = p_store (b_parts b ! t)"
    using ok(2) by (auto simp: Partition_Subscribe_def Let_def split: if_splits)
  then show ?thesis
    using ok r p broker_ok_part [OF assms(1) ok(1)] abs_broker_part [OF assms(1)] by auto
qed (use r ok in auto)

lemma close_sub_ok:
  assumes ok: "broker_ok finv flog b" and t: "t < length (b_parts b)"
    and r: "on_part t (Subscription_Close sid) b = (r, b')"
  shows "broker_ok finv flog b' \<and> abs_broker flog b' = abs_broker flog b \<and> r \<noteq> Panic \<and>
    b_newStore b' = b_newStore b \<and> b_maxTopics b' = b_maxTopics b"
proof -
  obtain q p where p: "Subscription_Close sid (b_parts b ! t) = (q, p)" by force
  note pok = broker_okD(5) [OF ok t]
  have "p_store p = p_store (b_parts b ! t)"
    using p by (auto simp: Subscription_Close_eq [OF pok] split: if_splits)
  then show ?thesis
    using r t p partition_ok_Subscription_Close [OF pok p] Subscription_Close_closed [OF pok p]
      broker_ok_part [OF ok t] abs_broker_part [OF ok]
    by (auto simp: on_part_eq)
qed

section \<open>The effect of a frame\<close>

lemma spec_no_panic:
  "fst (spec_CreateTopic mx name sp) \<noteq> Panic" "fst (spec_append name ps none sp) \<noteq> Panic"
  by (auto simp: spec_CreateTopic_def spec_append_def split: option.splits)

lemma answer_eq_Panic [simp]: "answer r = Panic \<longleftrightarrow> r = Panic"
  by (cases r) simp_all

text \<open>The broker a handler works on: well formed, with the default store, and with room.\<close>

definition serving :: "('x \<Rightarrow> bool) \<Rightarrow> ('x \<Rightarrow> bytes list) \<Rightarrow> nat \<Rightarrow> 'x broker \<Rightarrow> bool" where
  "serving finv flog n b \<longleftrightarrow>
     broker_ok finv flog b \<and> b_newStore b = Some memory_factory \<and> spec_fits n (abs_broker flog b)"

context reliable_user_store
begin

lemma broker_effect:
  assumes b: "serving finv flog (payload_count q) b" and q: "broker_call fops q b = (a, b')"
  shows "serving finv flog 0 b' \<and> abs_broker flog b' = snd (spec_call (b_maxTopics b) q (abs_broker flog b)) \<and>
    b_maxTopics b' = b_maxTopics b \<and> a = fst (spec_call (b_maxTopics b) q (abs_broker flog b))"
proof -
  have ref: "(a, abs_broker flog b') = spec_call (b_maxTopics b) q (abs_broker flog b)" "bok b'"
    "b_newStore b' = Some memory_factory" "b_maxTopics b' = b_maxTopics b"
    using broker_call_refines [OF _ _ _ q] b by (auto simp: serving_def)
  have "spec_fits 0 (snd (spec_call (b_maxTopics b) q (abs_broker flog b)))"
    using spec_fits_call [of q 0] b by (simp add: serving_def fits_int64_def)
  moreover have "spec_call (b_maxTopics b) q (abs_broker flog b) = (a, abs_broker flog b')"
    using ref(1) by (rule sym)
  ultimately show ?thesis using ref(2-4) by (simp add: serving_def)
qed

lemma CreateTopic_effect:
  assumes "serving finv flog (0) b" and "CreateTopic name b = (r, b')"
  shows "r \<noteq> Panic \<and> (serving finv flog 0 b' \<and> b_maxTopics b' = b_maxTopics b \<and>
    abs_broker flog b' = snd (spec_call (b_maxTopics b) (ReqCreate name) (abs_broker flog b)))"
proof -
  have c: "broker_call fops (ReqCreate name) b = (RespUnit (answer r), b')" using assms(2) by simp
  have "serving finv flog (payload_count (ReqCreate name)) b" using assms(1) by simp
  note e = broker_effect [OF this c]
  have "answer r = fst (spec_CreateTopic (b_maxTopics b) name (abs_broker flog b))" using e by simp
  then have "answer r \<noteq> Panic" by (simp only: spec_no_panic not_False_eq_True)
  then have "r \<noteq> Panic" by (simp only: answer_eq_Panic not_False_eq_True)
  with e show ?thesis by simp
qed

lemma Broker_Publish_effect:
  assumes "serving finv flog (1) b" and "Broker_Publish fops name payload b = (r, b')"
  shows "r \<noteq> Panic \<and> (serving finv flog 0 b' \<and> b_maxTopics b' = b_maxTopics b \<and>
    abs_broker flog b' = snd (spec_call (b_maxTopics b) (ReqPublish name payload) (abs_broker flog b)))"
proof -
  have c: "broker_call fops (ReqPublish name payload) b = (RespOffset (answer r), b')" using assms(2) by simp
  have "serving finv flog (payload_count (ReqPublish name payload)) b" using assms(1) by simp
  note e = broker_effect [OF this c]
  have "answer r = fst (spec_append name [payload] 0 (abs_broker flog b))" using e by simp
  then have "answer r \<noteq> Panic" by (simp only: spec_no_panic not_False_eq_True)
  then have "r \<noteq> Panic" by (simp only: answer_eq_Panic not_False_eq_True)
  with e show ?thesis by simp
qed

lemma Broker_PublishBatch_effect:
  assumes "serving finv flog (length ps) b" and "Broker_PublishBatch fops name ps b = (r, b')"
  shows "r \<noteq> Panic \<and> (serving finv flog 0 b' \<and> b_maxTopics b' = b_maxTopics b \<and>
    abs_broker flog b' = snd (spec_call (b_maxTopics b) (ReqPublishBatch name ps) (abs_broker flog b)))"
proof -
  have c: "broker_call fops (ReqPublishBatch name ps) b = (RespOffset (answer r), b')" using assms(2) by simp
  have "serving finv flog (payload_count (ReqPublishBatch name ps)) b" using assms(1) by simp
  note e = broker_effect [OF this c]
  have "answer r = fst (spec_append name ps 0 (abs_broker flog b))" using e by simp
  then have "answer r \<noteq> Panic" by (simp only: spec_no_panic not_False_eq_True)
  then have "r \<noteq> Panic" by (simp only: answer_eq_Panic not_False_eq_True)
  with e show ?thesis by simp
qed

lemma serving_mono: "serving finv flog n b \<Longrightarrow> m \<le> n \<Longrightarrow> serving finv flog m b"
  using spec_fits_mono by (auto simp: serving_def)

text \<open>The outcome of handling a frame: the handler's result and the broker afterwards.\<close>

definition frame_ok :: "opcode \<Rightarrow> bytes \<Rightarrow> 'x broker \<Rightarrow> verdict result \<times> (hconn \<times> 'x broker) \<Rightarrow> bool" where
  "frame_ok op p b out \<longleftrightarrow>
     fst out \<noteq> Panic \<and> serving finv flog 0 (snd (snd out)) \<and>
     b_maxTopics (snd (snd out)) = b_maxTopics b \<and>
     abs_broker flog (snd (snd out)) = frame_effect (b_maxTopics b) op p (abs_broker flog b)"

lemma frame_ok_none:
  assumes "serving finv flog 0 b" and "frame_request op p = None"
  shows "frame_ok op p b (reply quote s op' err body (c, b))" and "frame_ok op p b (Ok v, (c, b))"
  using assms by (simp_all add: frame_ok_def reply_broker frame_effect_def)

lemma frame_ok_answers:
  assumes "frame_request op p = Some q" and "r \<noteq> Panic"
    and "serving finv flog 0 b' \<and> b_maxTopics b' = b_maxTopics b \<and>
      abs_broker flog b' = snd (spec_call (b_maxTopics b) q (abs_broker flog b))"
  shows "frame_ok op p b (answers quote s op' r (c, b'))"
  using assms by (simp add: frame_ok_def answers_broker frame_effect_def)

lemma frame_ok_silent:
  assumes "frame_request op p = Some q"
    and "serving finv flog 0 b' \<and> b_maxTopics b' = b_maxTopics b \<and>
      abs_broker flog b' = snd (spec_call (b_maxTopics b) q (abs_broker flog b))"
  shows "frame_ok op p b (Ok v, (c, b'))"
  using assms by (simp add: frame_ok_def frame_effect_def)

lemma handle_create_ok:
  assumes "serving finv flog 0 b"
  shows "frame_ok OpCreateTopic p b (handle_create quote s p (c, b))"
proof -
  obtain r b' where r: "CreateTopic p b = (r, b')" by force
  have q: "frame_request OpCreateTopic p = Some (ReqCreate p)" by (simp add: frame_request_def)
  note eff = CreateTopic_effect [OF assms r]
  have "map_ok (\<lambda>_. []) r \<noteq> Panic" using eff by (cases r) auto
  from frame_ok_answers [OF q this conjunct2 [OF eff]] r show ?thesis
    by (simp add: handle_create_def reply_result_map)
qed

lemma handle_publish_ok:
  assumes b: "serving finv flog (length p) b"
  shows "frame_ok OpPublish p b (handle_publish quote fops s p (c, b))"
    and "frame_ok OpPublishNoAck p b (handle_publish_no_ack fops p (c, b))"
proof -
  note b0 = serving_mono [OF b le0]
  have "frame_ok OpPublish p b (handle_publish quote fops s p (c, b)) \<and>
    frame_ok OpPublishNoAck p b (handle_publish_no_ack fops p (c, b))"
  proof (cases "DecodePublish p")
    case (Ok tm)
    obtain topic m where tm: "DecodePublish p = Ok (topic, m)" using Ok by (cases tm) auto
    show ?thesis
    proof (cases "len m \<le> MaxMessage")
      case True
      have q: "frame_request OpPublish p = Some (ReqPublish topic m)"
        "frame_request OpPublishNoAck p = Some (ReqPublish topic m)"
        using tm True by (simp_all add: frame_request_def opcode_defs)
      obtain r b' where r: "Broker_Publish fops topic m b = (r, b')" by force
      have "1 \<le> length p" using frame_request_count [OF q(1)] by simp
      note eff = Broker_Publish_effect [OF serving_mono [OF b this] r]
      have "map_ok MarshalOffset r \<noteq> Panic" using eff by (cases r) auto
      from frame_ok_answers [OF q(1) this conjunct2 [OF eff]]
        frame_ok_silent [OF q(2) conjunct2 [OF eff], of Continue c] tm True r eff
      show ?thesis
        by (cases r) (simp_all add: handle_publish_def handle_publish_no_ack_def reply_result_map)
    next
      case False
      then have q: "frame_request OpPublish p = None" "frame_request OpPublishNoAck p = None"
        using tm by (simp_all add: frame_request_def opcode_defs)
      show ?thesis
        using frame_ok_none(1) [OF b0 q(1)] frame_ok_none(2) [OF b0 q(2)] tm False
        by (simp add: handle_publish_def handle_publish_no_ack_def)
    qed
  next
    case (Fail e)
    then have q: "frame_request OpPublish p = None" "frame_request OpPublishNoAck p = None"
      by (simp_all add: frame_request_def opcode_defs)
    show ?thesis
      using frame_ok_none(1) [OF b0 q(1)] frame_ok_none(2) [OF b0 q(2)] Fail
      by (simp add: handle_publish_def handle_publish_no_ack_def)
  next
    case Panic
    then show ?thesis using decoders_truncated_or_ok(1) [of p] by (simp add: truncated_or_ok_def)
  qed
  then show "frame_ok OpPublish p b (handle_publish quote fops s p (c, b))"
    and "frame_ok OpPublishNoAck p b (handle_publish_no_ack fops p (c, b))" by simp_all
qed

lemma handle_publish_batch_ok:
  assumes b: "serving finv flog (length p) b"
  shows "frame_ok OpPublishBatch p b (handle_publish_batch quote fops s p (c, b))"
proof (cases "DecodePublishBatch p")
  case (Ok tm)
  note b0 = serving_mono [OF b le0]
  obtain topic ms where tm: "DecodePublishBatch p = Ok (topic, ms)" using Ok by (cases tm) auto
  obtain r b' where r: "publishBatch fops topic ms b = (r, b')" by force
  have h: "handle_publish_batch quote fops s p (c, b) =
      answers quote s OpPublishBatch (map_ok (\<lambda>base. EncodePublishAck base (len ms)) r) (c, b')"
    using tm r by (simp add: handle_publish_batch_def reply_result_map)
  show ?thesis
  proof (cases "list_all (\<lambda>m. len m \<le> MaxMessage) ms")
    case True
    have q: "frame_request OpPublishBatch p = Some (ReqPublishBatch topic ms)"
      using tm True by (simp add: frame_request_def opcode_defs)
    have "length ms \<le> length p" using frame_request_count [OF q] by simp
    have "Broker_PublishBatch fops topic ms b = (r, b')"
      using r True by (auto simp: publishBatch_def list_ex_iff list_all_iff split: if_splits)
    note eff = Broker_PublishBatch_effect [OF serving_mono [OF b \<open>length ms \<le> length p\<close>] this]
    then have "map_ok (\<lambda>base. EncodePublishAck base (len ms)) r \<noteq> Panic" by (cases r) auto
    from frame_ok_answers [OF q this conjunct2 [OF eff]] show ?thesis by (simp add: h)
  next
    case False
    then have q: "frame_request OpPublishBatch p = None"
      using tm by (simp add: frame_request_def opcode_defs)
    have "r = Fail message_too_large" "b' = b"
      using r False by (auto simp: publishBatch_def list_ex_iff list_all_iff split: if_splits)
    with h show ?thesis using frame_ok_none(1) [OF b0 q] by (simp add: answers_simps)
  qed
next
  case (Fail e)
  then have q: "frame_request OpPublishBatch p = None" by (simp add: frame_request_def opcode_defs)
  show ?thesis
    using frame_ok_none(1) [OF serving_mono [OF b le0] q] Fail by (simp add: handle_publish_batch_def)
next
  case Panic
  then show ?thesis using decoders_truncated_or_ok(2) [of p] by (simp add: truncated_or_ok_def)
qed

lemma handle_list_ok:
  assumes "serving finv flog 0 b"
  shows "frame_ok OpListTopics p b (handle_list quote s (c, b))"
proof -
  have q: "frame_request OpListTopics p = None" by (simp add: frame_request_def opcode_defs)
  have "ListTopics b \<noteq> Panic" by (simp add: ListTopics_def)
  then show ?thesis
    using frame_ok_none(1) [OF assms q]
    by (cases "ListTopics b") (simp_all add: handle_list_def Let_def)
qed

lemma handle_subscribe_ok:
  assumes b: "serving finv flog 0 b"
  shows "frame_ok OpSubscribe p b (handle_subscribe quote s p (c, b))"
proof -
  have q: "frame_request OpSubscribe p = None" by (simp add: frame_request_def opcode_defs)
  have bk: "bok b" "b_newStore b = Some memory_factory" "spec_fits 0 (abs_broker flog b)"
    using b by (auto simp: serving_def)
  obtain r b1 where r: "Broker_Subscribe p b = (r, b1)" by force
  note sub = Broker_Subscribe_ok [OF bk(1) r]
  have b1: "serving finv flog 0 b1" "b_maxTopics b1 = b_maxTopics b" "abs_broker flog b1 = abs_broker flog b"
    using sub bk by (auto simp: serving_def)
  show ?thesis
  proof (cases r)
    case (Fail e)
    with r sub b1 q show ?thesis
      by (simp add: handle_subscribe_def frame_ok_def reply_broker frame_effect_def)
  next
    case (Ok tsid)
    obtain t sid where ts: "tsid = (t, sid)" by force
    have t: "t < length (b_parts b1)" using sub Ok ts by simp
    obtain r2 b2 where r2: "on_part t (Subscription_Close sid) b1 = (r2, b2)" by force
    have "bok b1" using b1(1) by (simp add: serving_def)
    note cl = close_sub_ok [OF this t r2]
    show ?thesis
    proof (cases rule: reply_cases [where st = "(c, b1)" and quote = quote and s = s and op = OpSubscribe and
          err = None and body = "[]"])
      case (sent c')
      with r Ok ts b1 q show ?thesis
        by (simp add: handle_subscribe_def frame_ok_def frame_effect_def)
    next
      case (broken e c')
      with r Ok ts b1 q r2 cl bk show ?thesis
        by (cases r2) (auto simp: handle_subscribe_def frame_ok_def frame_effect_def serving_def)
    qed
  qed (use sub in simp)
qed

lemma handle_frame_ok:
  assumes b: "serving finv flog (length p) b"
  shows "frame_ok op p b (handle_frame quote fops s op p (c, b))"
proof -
  note b0 = serving_mono [OF b le0]
  have "frame_request op p = None"
    if "op \<notin> {OpCreateTopic, OpPublish, OpPublishBatch, OpPublishNoAck}"
    using that by (simp add: frame_request_def)
  then show ?thesis
    using handle_create_ok [OF b0] handle_publish_ok [OF b] handle_publish_batch_ok [OF b]
      handle_list_ok [OF b0] handle_subscribe_ok [OF b0] frame_ok_none(2) [OF b0, of op p Continue c]
    by (simp add: handle_frame_def)
qed

end

section \<open>The effect of a connection\<close>

text \<open>The frames that can be read from a stream, up to the first error.\<close>

function frames_in :: "instream \<Rightarrow> frame list" where
  "frames_in i =
     (case ReadFrame i of
        (Ok f, i') \<Rightarrow> f # frames_in i'
      | _ \<Rightarrow> [])"
  by pat_completeness auto
termination
  by (relation "measure length") (auto dest: ReadFrame_shorter [OF sym])

declare frames_in.simps [simp del]

definition effect_of :: "int \<Rightarrow> frame list \<Rightarrow> spec \<Rightarrow> spec" where
  "effect_of mx fs s = fold (\<lambda>(op, p). frame_effect mx op p) fs s"

lemma effect_of_simps [simp]:
  "effect_of mx [] s = s" "effect_of mx ((op, p) # fs) s = effect_of mx fs (frame_effect mx op p s)"
  by (simp_all add: effect_of_def)

lemma spec_fits_frame:
  assumes "spec_fits (length p + n) s" and "fits_int64 n"
  shows "spec_fits n (frame_effect mx op p s)"
proof (cases "frame_request op p")
  case None
  have "spec_fits n s" by (rule spec_fits_mono [OF _ assms(1)]) simp
  with None show ?thesis by (simp add: frame_effect_def)
next
  case (Some q)
  have "spec_fits (payload_count q + n) s"
    using frame_request_count [OF Some] by (intro spec_fits_mono [OF _ assms(1)]) simp
  with Some show ?thesis by (simp add: frame_effect_def spec_fits_call [OF _ assms(2)])
qed

text \<open>The handler goes through a prefix of the frames: it stops early when a response cannot be sent.\<close>

definition conn_ok ::
    "('x \<Rightarrow> bool) \<Rightarrow> ('x \<Rightarrow> bytes list) \<Rightarrow> instream \<Rightarrow> 'x broker \<Rightarrow> verdict result \<times> (hconn \<times> 'x broker) \<Rightarrow> bool" where
  "conn_ok finv flog i b out \<longleftrightarrow>
     fst out \<noteq> Panic \<and> broker_ok finv flog (snd (snd out)) \<and>
     (\<exists>k. abs_broker flog (snd (snd out)) =
        effect_of (b_maxTopics b) (take k (frames_in i)) (abs_broker flog b))"

lemma conn_ok_here:
  "broker_ok finv flog b \<Longrightarrow> v \<noteq> Panic \<Longrightarrow> conn_ok finv flog i b (v, (c, b))"
  by (auto simp: conn_ok_def intro: exI [of _ 0])

lemma conn_ok_frame:
  assumes "ReadFrame i = (Ok (op, p), i')" and "b_maxTopics b1 = b_maxTopics b"
    and "abs_broker flog b1 = frame_effect (b_maxTopics b) op p (abs_broker flog b)"
    and "conn_ok finv flog i' b1 out"
  shows "conn_ok finv flog i b out"
proof -
  have f: "frames_in i = (op, p) # frames_in i'" by (simp add: frames_in.simps [of i] assms(1))
  from assms(4) obtain k where "abs_broker flog (snd (snd out)) =
      effect_of (b_maxTopics b1) (take k (frames_in i')) (abs_broker flog b1)"
    by (auto simp: conn_ok_def)
  then have "abs_broker flog (snd (snd out)) =
      effect_of (b_maxTopics b) (take (Suc k) (frames_in i)) (abs_broker flog b)"
    using assms(2,3) by (simp add: f)
  then show ?thesis using assms(4) by (auto simp: conn_ok_def)
qed

context reliable_user_store
begin

lemma handleConn_ok:
  assumes "serving finv flog (length (h_in c)) b" and "fits_int64 (length (h_in c))"
  shows "conn_ok finv flog (h_in c) b (handleConn quote fops s (c, b))"
  using assms
proof (induction "length (h_in c)" arbitrary: c b rule: less_induct)
  case less
  have bk: "bok b" using less.prems(1) by (simp add: serving_def)
  obtain r i where rd: "ReadFrame (h_in c) = (r, i)" by force
  show ?case
  proof (cases "armRead s c")
    case False
    then show ?thesis by (simp add: handleConn.simps [of quote fops s c] conn_ok_here [OF bk])
  next
    case True
    show ?thesis
    proof (cases r)
      case (Fail e)
      with True rd show ?thesis
        by (simp add: handleConn.simps [of quote fops s c] conn_ok_here [OF bk] Let_def)
    next
      case Panic
      with rd show ?thesis by simp
    next
      case (Ok f)
      obtain op p where f: "f = (op, p)" by force
      have h: "h_in c = stream_of (frame_bytes op p) @ i" using rd Ok f by (simp add: ReadFrame_eq_Ok)
      obtain v c1 b1 where v: "handle_frame quote fops s op p (c\<lparr>h_in := i\<rparr>, b) = (v, (c1, b1))"
        by (metis prod.collapse)
      have c1: "h_in c1 = i"
        using handle_frame_in [of quote fops s op p "(c\<lparr>h_in := i\<rparr>, b)"] v by simp
      have "length p \<le> length (h_in c)" using h by simp
      from handle_frame_ok [OF serving_mono [OF less.prems(1) this], of op quote s "c\<lparr>h_in := i\<rparr>"]
      have ok: "v \<noteq> Panic" "serving finv flog 0 b1" "b_maxTopics b1 = b_maxTopics b"
        "abs_broker flog b1 = frame_effect (b_maxTopics b) op p (abs_broker flog b)"
        by (simp_all add: frame_ok_def v)
      have fit: "fits_int64 (length i)"
        using less.prems(2) by (rule fits_int64_mono [rotated]) (simp add: h)
      have "spec_fits (length p + length i) (abs_broker flog b)"
      proof (rule spec_fits_mono)
        show "spec_fits (length (h_in c)) (abs_broker flog b)"
          using less.prems(1) by (simp add: serving_def)
        show "length p + length i \<le> length (h_in c)" by (simp add: h)
      qed
      then have srv: "serving finv flog (length (h_in c1)) b1"
        using ok spec_fits_frame [OF _ fit] c1 by (simp add: serving_def)
      have step: "handleConn quote fops s (c, b) =
          (if v = Ok Continue then handleConn quote fops s (c1, b1) else (v, (c1, b1)))"
        using True rd Ok f v
        by (cases v rule: outcome.exhaust; cases "\<exists>x. v = Ok x")
          (auto simp: handleConn.simps [of quote fops s c] split: verdict.splits)
      show ?thesis
      proof (rule conn_ok_frame [OF _ ok(3,4)])
        show "ReadFrame (h_in c) = (Ok (op, p), i)" using rd Ok f by simp
        have "conn_ok finv flog (h_in c1) b1 (handleConn quote fops s (c1, b1))"
          using less.hyps [OF _ srv] c1 fit h by simp
        then show "conn_ok finv flog i b1 (handleConn quote fops s (c, b))"
          using c1 ok(1,2) by (simp add: step conn_ok_here serving_def)
      qed
    qed
  qed
qed

end

section \<open>Stored messages can be pushed\<close>

definition pushable :: "spec \<Rightarrow> bool" where
  "pushable sp \<longleftrightarrow> (\<forall>m name l p. sp = Some m \<longrightarrow> m name = Some l \<longrightarrow> p \<in> set l \<longrightarrow> len p \<le> MaxMessage)"

lemma pushable_append:
  assumes "pushable sp" and "\<forall>p\<in>set ps. len p \<le> MaxMessage"
  shows "pushable (snd (spec_append name ps none sp))"
proof (cases "\<exists>m l. sp = Some m \<and> m name = Some l")
  case True
  then obtain m l where m: "sp = Some m" "m name = Some l" by blast
  then have "\<forall>p\<in>set (l @ ps). len p \<le> MaxMessage" using assms by (auto simp: pushable_def)
  with m assms(1) show ?thesis by (auto simp: spec_append_def pushable_def)
next
  case False
  then have "snd (spec_append name ps none sp) = sp"
    by (cases sp; cases "the sp name") (auto simp: spec_append_def)
  with assms show ?thesis by simp
qed

lemma pushable_frame:
  assumes "pushable sp"
  shows "pushable (frame_effect mx op p sp)"
proof (cases "frame_request op p")
  case None
  with assms show ?thesis by (simp add: frame_effect_def)
next
  case (Some q)
  show ?thesis
  proof (cases q)
    case (ReqCreate name)
    with Some assms show ?thesis
      by (auto simp: frame_effect_def spec_CreateTopic_def pushable_def split: option.splits if_splits)
  next
    case (ReqPublish name payload)
    then have "len payload \<le> MaxMessage"
      using Some by (auto simp: frame_request_def split: if_splits outcome.splits)
    with Some ReqPublish assms show ?thesis by (simp add: frame_effect_def pushable_append)
  next
    case (ReqPublishBatch name ps)
    then have "\<forall>x\<in>set ps. len x \<le> MaxMessage"
      using Some by (auto simp: frame_request_def list_all_iff split: if_splits outcome.splits)
    with Some ReqPublishBatch assms show ?thesis by (simp add: frame_effect_def pushable_append)
  qed (use Some in \<open>auto simp: frame_request_def split: if_splits outcome.splits\<close>)
qed

lemma pushable_effect: "pushable sp \<Longrightarrow> pushable (effect_of mx fs sp)"
  by (induction fs arbitrary: sp) (auto simp: pushable_frame)

section \<open>The stream of pushed messages\<close>

definition message_bytes :: "message \<Rightarrow> bytes" where
  "message_bytes m = message_frame (Offset m) (Payload m)"

definition messages_bytes :: "message list \<Rightarrow> bytes" where
  "messages_bytes ms = concat (map message_bytes ms)"

lemma messages_bytes_simps [simp]:
  "messages_bytes [] = []" "messages_bytes (m # ms) = message_bytes m @ messages_bytes ms"
  "messages_bytes (ms @ ns) = messages_bytes ms @ messages_bytes ns"
  by (simp_all add: messages_bytes_def)

lemma concat_bufs_messages: "concat (message_bufs (map Offset ms) (map Payload ms)) = messages_bytes ms"
  by (simp add: concat_message_bufs messages_bytes_def message_bytes_def [abs_def] zip_map_map zip_same_conv_map comp_def)

end
