(* ===== verification/Net_Client.thy ===== *)
theory Net_Client
  imports Broker_Core Protocol_Write Go_Conn
begin

text \<open>
  \<open>network/client.go\<close>: the client's requests, the errors it makes of the server's codes, the batcher,
  and the reading of pushed messages.

  A client has the bytes that have arrived and are not read yet, and the \<open>bufio.Writer\<close> over its
  connection. What the network does between the flush of a request and the read of its response is
  the argument \<open>net\<close> of the request: from the bytes the request put on the connection, what arrives
  (a timeout is a fault among it), and whether another goroutine has closed the client
  meanwhile.
\<close>

section \<open>Configuration\<close>

record client =
  cl_in :: instream
  cl_bw :: bufw
  cl_streaming :: bool
  cl_closed :: bool
  cl_closeErr :: "gerror option"
  cl_readTimeout :: int
  cl_writeTimeout :: int
  cl_readBuffer :: int
  cl_writeBuffer :: int

type_synonym client_option = "client \<Rightarrow> client"

definition defaultDialTimeout :: int where "defaultDialTimeout = 5 * 10 ^ 9"
definition defaultClientTimeout :: int where "defaultClientTimeout = 10 * 10 ^ 9"
definition clientSocketBuffer :: int where "clientSocketBuffer = 256 * 2 ^ 10"

definition WithClientReadTimeout :: "int \<Rightarrow> client_option" where
  "WithClientReadTimeout d c = c\<lparr>cl_readTimeout := d\<rparr>"

definition WithClientWriteTimeout :: "int \<Rightarrow> client_option" where
  "WithClientWriteTimeout d c = c\<lparr>cl_writeTimeout := d\<rparr>"

definition WithClientReadBuffer :: "int \<Rightarrow> client_option" where
  "WithClientReadBuffer n c = c\<lparr>cl_readBuffer := n\<rparr>"

definition WithClientWriteBuffer :: "int \<Rightarrow> client_option" where
  "WithClientWriteBuffer n c = c\<lparr>cl_writeBuffer := n\<rparr>"

text \<open>
  \<open>tuneConn\<close>: the sizes of the socket buffers it asks the kernel for, \<open>None\<close> where it leaves the
  default; a dialled connection is a TCP connection.
\<close>

definition client_tuneConn :: "client \<Rightarrow> int option \<times> int option" where
  "client_tuneConn c =
     (if cl_readBuffer c \<le> 0 \<and> cl_writeBuffer c \<le> 0 then (None, None)
      else (if cl_readBuffer c > 0 then Some (cl_readBuffer c) else None,
            if cl_writeBuffer c > 0 then Some (cl_writeBuffer c) else None))"

text \<open>Negative values of the configuration count as 0.\<close>

definition normalise_client :: "client \<Rightarrow> client" where
  "normalise_client c =
     (let c = (if cl_readTimeout c < 0 then c\<lparr>cl_readTimeout := 0\<rparr> else c);
          c = (if cl_writeTimeout c < 0 then c\<lparr>cl_writeTimeout := 0\<rparr> else c);
          c = (if cl_readBuffer c < 0 then c\<lparr>cl_readBuffer := 0\<rparr> else c) in
      if cl_writeBuffer c < 0 then c\<lparr>cl_writeBuffer := 0\<rparr> else c)"

text \<open>
  Dialing is the argument \<open>dial\<close>: from the timeout, an error or the sending side of a new
  connection. The result is the client and what was asked for its connection's buffers.
\<close>

type_synonym dialled = "client \<times> (int option \<times> int option)"

definition DialTimeout :: "(int \<Rightarrow> conn_out result) \<Rightarrow> int \<Rightarrow> client_option list \<Rightarrow> dialled result" where
  "DialTimeout dial timeout opts =
     (let timeout = (if timeout < 0 then 0 else timeout) in
      obind (dial timeout) (\<lambda>conn.
      let c = \<lparr>cl_in = [], cl_bw = new_bufw conn, cl_streaming = False, cl_closed = False,
               cl_closeErr = None, cl_readTimeout = defaultClientTimeout,
               cl_writeTimeout = defaultClientTimeout, cl_readBuffer = clientSocketBuffer,
               cl_writeBuffer = clientSocketBuffer\<rparr>;
          c = normalise_client (fold (\<lambda>opt. opt) opts c) in
      Ok (c, client_tuneConn c)))"

definition Dial :: "(int \<Rightarrow> conn_out result) \<Rightarrow> client_option list \<Rightarrow> dialled result" where
  "Dial dial opts = DialTimeout dial defaultDialTimeout opts"

section \<open>Errors\<close>

text \<open>An error or nil, given as a result; nil too becomes ErrClosed on a closed client.\<close>

definition opErr :: "client \<Rightarrow> 'a result \<Rightarrow> 'a result" where
  "opErr c r = (if cl_closed c then fail_with ErrClientClosed else r)"

lemma opErr_Fail [simp]:
  "opErr c (Fail e) = Fail (if cl_closed c then Sentinel ErrClientClosed else e)"
  by (simp add: opErr_def)

definition remoteError :: "code \<Rightarrow> gostring \<Rightarrow> gerror" where
  "remoteError code msg =
     (if code = CodeClosed then Wrap (Prefix msg) (Sentinel ErrClosed)
      else if code = CodeTopicExists then Wrap (Prefix msg) (Sentinel ErrTopicExists)
      else if code = CodeTopicNotFound then Wrap (Prefix msg) (Sentinel ErrTopicNotFound)
      else if code = CodeEmptyTopicName then Wrap (Prefix msg) (Sentinel ErrTopicNameEmpty)
      else if code = CodeTooLarge then Wrap (Prefix msg) (Sentinel ErrTooLarge)
      else if code = CodeOverloaded then Wrap (Prefix msg) (Sentinel ErrOverloaded)
      else if code = CodeTopicNameTooLong then Wrap (Prefix msg) (Sentinel ErrTopicNameTooLong)
      else if code = CodeInvalidTopicName then Wrap (Prefix msg) (Sentinel ErrInvalidTopicName)
      else if code = CodeTooManyTopics then Wrap (Prefix msg) (Sentinel ErrTooManyTopics)
      else NewError msg)"

definition malformed_error :: "gerror \<Rightarrow> gerror" where
  "malformed_error e = Wrap (Prefix (ascii ''network: malformed error response'')) e"

definition unexpected_opcode :: "opcode \<Rightarrow> gerror" where
  "unexpected_opcode op = NewError (ascii ''network: unexpected opcode '' @ decimal (unat op))"

text \<open>The error of an OpError frame.\<close>

definition error_frame :: "bytes \<Rightarrow> 'a result" where
  "error_frame body =
     (case DecodeError body of
        Ok (code, msg) \<Rightarrow> Fail (remoteError code msg)
      | Fail derr \<Rightarrow> Fail (malformed_error derr)
      | Panic \<Rightarrow> Panic)"

section \<open>Requests and responses\<close>

type_synonym net = "bytes \<Rightarrow> instream \<times> bool"

text \<open>
  The flush of a request and what happens until its response is read; \<open>before\<close> is how many bytes the
  connection had taken before the request.
\<close>

definition exchange :: "net \<Rightarrow> nat \<Rightarrow> (client, gerror, unit) go" where
  "exchange net before c =
     (case bufio_flush (cl_bw c) of
        (Ok _, w) \<Rightarrow>
          (case net (drop before (co_sent (bw_conn w))) of
             (arrived, closed) \<Rightarrow>
               (Ok (), c\<lparr>cl_bw := w, cl_in := cl_in c @ arrived, cl_closed := cl_closed c \<or> closed\<rparr>))
      | (Fail e, w) \<Rightarrow> (opErr c (Fail e), c\<lparr>cl_bw := w\<rparr>)
      | (Panic, w) \<Rightarrow> (Panic, c\<lparr>cl_bw := w\<rparr>))"

definition read_response :: "opcode \<Rightarrow> (client, gerror, bytes) go" where
  "read_response op c =
     (case ReadFrame (cl_in c) of
        (Fail e, i) \<Rightarrow> (opErr c (Fail e), c\<lparr>cl_in := i\<rparr>)
      | (Panic, i) \<Rightarrow> (Panic, c\<lparr>cl_in := i\<rparr>)
      | (Ok (respOp, body), i) \<Rightarrow>
          ((if respOp = OpError then error_frame body
            else if respOp = op then Ok body
            else Fail (unexpected_opcode respOp)), c\<lparr>cl_in := i\<rparr>))"

definition write_request :: "(bufw, gerror, unit) go \<Rightarrow> (client, gerror, unit) go" where
  "write_request write c =
     (case write (cl_bw c) of
        (Ok _, w) \<Rightarrow> (Ok (), c\<lparr>cl_bw := w\<rparr>)
      | (Fail e, w) \<Rightarrow> (opErr c (Fail e), c\<lparr>cl_bw := w\<rparr>)
      | (Panic, w) \<Rightarrow> (Panic, c\<lparr>cl_bw := w\<rparr>))"

text \<open>
  The deadlines set before the write and the read are not checked by the source; what they cause
  is part of \<open>net\<close> and of the connection's fault.
\<close>

definition roundTripWriteLocked ::
    "net \<Rightarrow> opcode \<Rightarrow> (bufw, gerror, unit) go \<Rightarrow> (client, gerror, bytes) go" where
  "roundTripWriteLocked net op write c =
     gbind (write_request write) (\<lambda>_.
     gbind (exchange net (length (co_sent (bw_conn (cl_bw c))))) (\<lambda>_.
     read_response op)) c"

definition roundTripWrite ::
    "net \<Rightarrow> opcode \<Rightarrow> (bufw, gerror, unit) go \<Rightarrow> (client, gerror, bytes) go" where
  "roundTripWrite net op write c =
     (if cl_closed c then (fail_with ErrClientClosed, c)
      else if cl_streaming c then (fail_with ErrStreaming, c)
      else roundTripWriteLocked net op write c)"

definition roundTrip :: "net \<Rightarrow> opcode \<Rightarrow> bytes \<Rightarrow> (client, gerror, bytes) go" where
  "roundTrip net op payload = roundTripWrite net op (WriteFrame bufio_write op payload)"

section \<open>The operations of the client\<close>

text \<open>A response that does not decode is reported with the operation's prefix.\<close>

definition in_response :: "string \<Rightarrow> 'a result \<Rightarrow> 'a result" where
  "in_response what r =
     (case r of Fail e \<Rightarrow> Fail (Wrap (Prefix (ascii what)) e) | Ok a \<Rightarrow> Ok a | Panic \<Rightarrow> Panic)"

definition Client_CreateTopic :: "net \<Rightarrow> gostring \<Rightarrow> (client, gerror, unit) go" where
  "Client_CreateTopic net name c =
     (if cl_closed c then (fail_with ErrClientClosed, c)
      else gbind (glift (ValidateTopicName name)) (\<lambda>_.
        gbind (roundTrip net OpCreateTopic name) (\<lambda>_. greturn ())) c)"

definition Client_ListTopics :: "net \<Rightarrow> (client, gerror, gostring list) go" where
  "Client_ListTopics net c =
     (if cl_closed c then (fail_with ErrClientClosed, c)
      else gbind (roundTrip net OpListTopics []) (\<lambda>body.
        glift (in_response ''network: list topics response'' (DecodeTopics body))) c)"

definition payload_over :: "bytes \<Rightarrow> gerror" where
  "payload_over payload =
     Wrap (PayloadOver (length payload) (nat MaxMessage)) (Sentinel ErrTooLarge)"

definition Client_Publish :: "net \<Rightarrow> gostring \<Rightarrow> bytes \<Rightarrow> (client, gerror, i64) go" where
  "Client_Publish net topic payload c =
     (if cl_closed c then (fail_with ErrClientClosed, c)
      else gbind (glift (ValidateTopicName topic)) (\<lambda>_.
        if len payload > MaxMessage then gfail (payload_over payload)
        else gbind (roundTripWrite net OpPublish (WritePublish bufio_write topic payload)) (\<lambda>body.
          glift (in_response ''network: publish response'' (UnmarshalOffset body)))) c)"

text \<open>The loop over the sizes, from index \<open>i\<close>.\<close>

fun check_payloads :: "nat \<Rightarrow> bytes list \<Rightarrow> unit result" where
  "check_payloads i [] = Ok ()"
| "check_payloads i (p # ps) =
     (if len p > MaxMessage
      then Fail (Wrap (PayloadAtOver i (length p) (nat MaxMessage)) (Sentinel ErrTooLarge))
      else check_payloads (Suc i) ps)"

definition ack_count_error :: "int \<Rightarrow> nat \<Rightarrow> gerror" where
  "ack_count_error count n =
     NewError (ascii ''network: publish-batch ack count '' @ decimal (nat count) @ ascii '' != '' @ decimal n)"

definition Client_PublishBatch :: "net \<Rightarrow> gostring \<Rightarrow> bytes list \<Rightarrow> (client, gerror, i64) go" where
  "Client_PublishBatch net topic payloads c =
     (if cl_closed c then (fail_with ErrClientClosed, c)
      else if payloads = [] then (fail_with ErrEmptyBatch, c)
      else gbind (glift (ValidateTopicName topic)) (\<lambda>_.
        gbind (glift (check_payloads 0 payloads)) (\<lambda>_.
        gbind (roundTripWrite net OpPublishBatch (WritePublishBatch bufio_write topic payloads)) (\<lambda>body.
        gbind (glift (in_response ''network: publish-batch ack'' (DecodePublishAck body))) (\<lambda>(base, count).
        if count \<noteq> len payloads then gfail (ack_count_error count (length payloads))
        else greturn base)))) c)"

text \<open>
  The flush of \<open>PublishAsync\<close>; \<open>closing\<close> says whether another goroutine closes the client before the
  result is looked at.
\<close>

definition flush_async :: "bool \<Rightarrow> (client, gerror, unit) go" where
  "flush_async closing c =
     (case bufio_flush (cl_bw c) of
        (r, w) \<Rightarrow> (let c = c\<lparr>cl_bw := w, cl_closed := cl_closed c \<or> closing\<rparr> in (opErr c r, c)))"

definition PublishAsync :: "bool \<Rightarrow> gostring \<Rightarrow> bytes \<Rightarrow> (client, gerror, unit) go" where
  "PublishAsync closing topic payload c =
     (if cl_closed c then (fail_with ErrClientClosed, c)
      else if cl_streaming c then (fail_with ErrStreaming, c)
      else gbind (glift (ValidateTopicName topic)) (\<lambda>_.
        if len payload > MaxMessage then gfail (payload_over payload)
        else gbind (write_request (WritePublishNoAck bufio_write topic payload)) (\<lambda>_.
          flush_async closing)) c)"

definition Client_Subscribe :: "net \<Rightarrow> gostring \<Rightarrow> (client, gerror, unit) go" where
  "Client_Subscribe net topic c =
     (if cl_closed c then (fail_with ErrClientClosed, c)
      else if cl_streaming c then (fail_with ErrStreaming, c)
      else gbind (glift (ValidateTopicName topic)) (\<lambda>_.
        gbind (roundTripWriteLocked net OpSubscribe (WriteFrame bufio_write OpSubscribe topic)) (\<lambda>_ c.
          (Ok (), c\<lparr>cl_streaming := True\<rparr>))) c)"

text \<open>\<open>Close\<close>, where \<open>err\<close> is what the connection's \<open>Close\<close> returns if it is called.\<close>

definition Client_Close :: "gerror option \<Rightarrow> client \<Rightarrow> gerror option \<times> client" where
  "Client_Close err c =
     (let c = (if cl_closed c then c else c\<lparr>cl_closed := True, cl_closeErr := err\<rparr>) in
      (cl_closeErr c, c))"

section \<open>Pushed messages\<close>

definition Subscription_Read :: "(client, gerror, message) go" where
  "Subscription_Read c =
     (if cl_closed c then (fail_with ErrClientClosed, c)
      else case ReadFrame (cl_in c) of
        (Fail e, i) \<Rightarrow> (opErr c (Fail e), c\<lparr>cl_in := i\<rparr>)
      | (Panic, i) \<Rightarrow> (Panic, c\<lparr>cl_in := i\<rparr>)
      | (Ok (op, body), i) \<Rightarrow>
          ((if op = OpMessage
            then obind (in_response ''network: pushed message'' (DecodeMessage body))
              (\<lambda>(off, payload). Ok \<lparr>Offset = off, Payload = payload\<rparr>)
            else if op = OpError then error_frame body
            else Fail (unexpected_opcode op)), c\<lparr>cl_in := i\<rparr>))"

text \<open>
  \<open>buffered\<close> is \<open>br.Buffered()\<close>, which depends on how the bytes arrived. The loop goes on while it
  is positive, and stops at the first error without reporting it.
\<close>

function read_more ::
    "(instream \<Rightarrow> nat) \<Rightarrow> int \<Rightarrow> message list \<Rightarrow> (client, gerror, message list) go" where
  "read_more buffered mx out c =
     (if len out < mx \<and> buffered (cl_in c) > 0
      then (case Subscription_Read c of
          (Ok m, c) \<Rightarrow> read_more buffered mx (out @ [m]) c
        | (Fail e, c) \<Rightarrow> (Ok out, c)
        | (Panic, c) \<Rightarrow> (Panic, c))
      else (Ok out, c))"
  by pat_completeness auto
termination
  by (relation "measure (\<lambda>(buffered, mx, out, c). nat (mx - len out))") auto

declare read_more.simps [simp del]

text \<open>\<open>alloc\<close> says which capacities \<open>make\<close> can give a slice of messages.\<close>

definition ReadBatch ::
    "(int \<Rightarrow> bool) \<Rightarrow> (instream \<Rightarrow> nat) \<Rightarrow> int \<Rightarrow> (client, gerror, message list) go" where
  "ReadBatch alloc buffered mx =
     (let mx = (if mx \<le> 0 then 1 else mx) in
      gbind Subscription_Read (\<lambda>first.
      if \<not> alloc mx then glift Panic else read_more buffered mx [first]))"

end
