(* ===== verification/Net_Batcher.thy ===== *)
theory Net_Batcher
  imports Net_Client "HOL-Library.Multiset"
begin

text \<open>
  The \<open>Batcher\<close> of \<open>network/client.go\<close>: it collects payloads and publishes them in batches. It calls
  one method of the client, \<open>c.PublishBatch(topic, batch)\<close>, the argument \<open>pub\<close> of the operations;
  what the batcher relies on is the locale \<open>publisher\<close>, kept by \<open>Client_PublishBatch\<close>.

  \<open>Flush\<close> and \<open>Add\<close> release the batcher's lock while they publish, so each is several critical
  sections; they are definitions of their own, which the theory \<open>Net_Batcher_Steps\<close> interleaves.
  \<open>Batcher_Flush\<close>, \<open>Batcher_Add\<close> and \<open>Batcher_Close\<close> compose them as one goroutine runs them when nobody else
  uses the batcher and no timer fires in between. \<open>Add\<close> arms a timer when \<open>maxDelay\<close> is positive, and the
  \<open>Flush\<close> of its goroutine is a step of \<open>Net_Batcher_Steps\<close> and of \<open>Demo_Publisher\<close>, which runs the demo's
  batcher with its timer; what is stated of the compositions alone is for \<open>maxDelay\<close> \<open>\<le>\<close> 0.
\<close>

section \<open>State and operations\<close>

record batcher =
  ba_maxBatch :: int
  ba_maxDelay :: int
  ba_buf :: "bytes list"
  ba_timer :: bool
  ba_err :: "gerror option"
  ba_closed :: bool

definition NewBatcher :: "int \<Rightarrow> int \<Rightarrow> batcher" where
  "NewBatcher maxBatch maxDelay =
     (let maxBatch = (if maxBatch \<le> 0 then 1 else maxBatch) in
      \<lparr>ba_maxBatch = maxBatch, ba_maxDelay = maxDelay, ba_buf = [], ba_timer = False,
       ba_err = None, ba_closed = False\<rparr>)"

text \<open>The two critical sections of \<open>Flush\<close>: take the batch, and keep the error of its publication.\<close>

definition Flush_take :: "batcher \<Rightarrow> bytes list \<times> batcher" where
  "Flush_take b =
     (let b = (if ba_timer b then b\<lparr>ba_timer := False\<rparr> else b) in
      if ba_buf b = [] then ([], b) else (ba_buf b, b\<lparr>ba_buf := []\<rparr>))"

definition Flush_record :: "i64 result \<Rightarrow> batcher \<Rightarrow> batcher" where
  "Flush_record r b = (case r of Fail e \<Rightarrow> b\<lparr>ba_err := Some e\<rparr> | _ \<Rightarrow> b)"

definition Batcher_Flush ::
    "(bytes list \<Rightarrow> ('c, gerror, i64) go) \<Rightarrow> (batcher \<times> 'c, gerror, i64 \<times> nat \<times> gerror option) go" where
  "Batcher_Flush pub = (\<lambda>(b, c).
     case Flush_take b of (batch, b) \<Rightarrow>
       if batch = [] then (Ok (0, 0, ba_err b), (b, c))
       else case pub batch c of (r, c) \<Rightarrow>
         let b = Flush_record r b in
         (case r of
            Ok base \<Rightarrow> (Ok (base, length batch, None), (b, c))
          | Fail e \<Rightarrow> (Ok (0, length batch, Some e), (b, c))
          | Panic \<Rightarrow> (Panic, (b, c))))"

text \<open>The critical section of \<open>Add\<close>; \<open>True\<close> when the batch is full and has to be flushed.\<close>

definition Add_enter :: "bytes \<Rightarrow> (batcher, gerror, bool) go" where
  "Add_enter payload b =
     (if ba_closed b then (fail_with ErrClientClosed, b)
      else case ba_err b of
        Some e \<Rightarrow> (Fail e, b)
      | None \<Rightarrow>
          (let b = b\<lparr>ba_buf := ba_buf b @ [payload]\<rparr> in
           if len (ba_buf b) \<ge> ba_maxBatch b then (Ok True, b)
           else (Ok False, if \<not> ba_timer b \<and> ba_maxDelay b > 0 then b\<lparr>ba_timer := True\<rparr> else b)))"

definition flush_error ::
    "(bytes list \<Rightarrow> ('c, gerror, i64) go) \<Rightarrow> (batcher \<times> 'c, gerror, unit) go" where
  "flush_error pub =
     gbind (Batcher_Flush pub) (\<lambda>(base, n, err). case err of None \<Rightarrow> greturn () | Some e \<Rightarrow> gfail e)"

definition Batcher_Add ::
    "(bytes list \<Rightarrow> ('c, gerror, i64) go) \<Rightarrow> bytes \<Rightarrow> (batcher \<times> 'c, gerror, unit) go" where
  "Batcher_Add pub payload = (\<lambda>(b, c).
     case Add_enter payload b of
       (Ok full, b) \<Rightarrow> if full then flush_error pub (b, c) else (Ok (), (b, c))
     | (Fail e, b) \<Rightarrow> (Fail e, (b, c))
     | (Panic, b) \<Rightarrow> (Panic, (b, c)))"

definition Batcher_Close ::
    "(bytes list \<Rightarrow> ('c, gerror, i64) go) \<Rightarrow> (batcher \<times> 'c, gerror, unit) go" where
  "Batcher_Close pub = (\<lambda>(b, c). flush_error pub (b\<lparr>ba_closed := True\<rparr>, c))"

section \<open>What the batcher relies on\<close>

text \<open>
  Publishing a batch puts its encoding on the connection, all of it when it succeeds, a part of
  it when it fails.
\<close>

locale publisher =
  fixes pub :: "bytes list \<Rightarrow> ('c, gerror, i64) go"
    and sent :: "'c \<Rightarrow> bytes"
    and encode :: "bytes list \<Rightarrow> bytes"
    and ready :: "'c \<Rightarrow> bool"
  assumes pub_ok: "ready c \<Longrightarrow> pub batch c = (Ok base, c') \<Longrightarrow> sent c' = sent c @ encode batch \<and> ready c'"
    and pub_fail: "ready c \<Longrightarrow> pub batch c = (Fail e, c') \<Longrightarrow> \<exists>k. sent c' = sent c @ take k (encode batch)"
    and pub_no_panic: "fst (pub batch c) \<noteq> Panic"

text \<open>Adding payloads one by one, until one is refused.\<close>

fun add_all ::
    "(bytes list \<Rightarrow> ('c, gerror, i64) go) \<Rightarrow> bytes list \<Rightarrow> (batcher \<times> 'c, gerror, unit) go" where
  "add_all pub [] = greturn ()"
| "add_all pub (p # ps) = gbind (Batcher_Add pub p) (\<lambda>_. add_all pub ps)"

text \<open>The payloads cut into batches of \<open>n\<close>, the last one shorter; \<open>pend\<close> is what is collected already.\<close>

fun chunks :: "nat \<Rightarrow> bytes list \<Rightarrow> bytes list \<Rightarrow> bytes list list" where
  "chunks n pend [] = (if pend = [] then [] else [pend])"
| "chunks n pend (p # ps) =
     (if Suc (length pend) \<ge> n then (pend @ [p]) # chunks n [] ps else chunks n (pend @ [p]) ps)"

text \<open>Without a delay no timer is ever armed, so nobody but the callers flushes.\<close>

lemma Batcher_Add_no_timer:
  assumes "ba_maxDelay b \<le> 0" and "\<not> ba_timer b" and "Batcher_Add pub p (b, c) = (r, (b', c'))"
  shows "ba_maxDelay b' \<le> 0 \<and> \<not> ba_timer b'"
  using assms
  by (auto simp: Batcher_Add_def Add_enter_def flush_error_def Batcher_Flush_def Flush_take_def Flush_record_def gbind_def
      Let_def split: if_splits option.splits prod.splits outcome.splits)

lemma add_all_no_timer:
  assumes "ba_maxDelay b \<le> 0" and "\<not> ba_timer b"
  shows "\<not> ba_timer (fst (snd (add_all pub ps (b, c))))"
  using assms
proof (induction ps arbitrary: b c)
  case (Cons p ps)
  obtain r b' c' where add: "Batcher_Add pub p (b, c) = (r, (b', c'))" by (metis prod.exhaust)
  note t = Batcher_Add_no_timer [OF Cons.prems add]
  show ?case using Cons.IH [of b' c'] t add by (cases r) (simp_all add: gbind_def)
qed simp

text \<open>
  The outcome of a session, from what was sent before and after it: all the bytes \<open>bs\<close>, or an
  error that sticks and a part of them.
\<close>

definition session_sent :: "unit result \<Rightarrow> batcher \<Rightarrow> bytes \<Rightarrow> bytes \<Rightarrow> bytes \<Rightarrow> bool" where
  "session_sent r b' before after bs \<longleftrightarrow>
     (case r of
        Ok _ \<Rightarrow> after = before @ bs
      | Fail e \<Rightarrow> (\<exists>k. after = before @ take k bs) \<and> ba_err b' = Some e \<and> ba_buf b' = []
      | Panic \<Rightarrow> False)"

lemma session_sent_simps [simp]:
  "session_sent (Ok u) b' x y bs \<longleftrightarrow> y = x @ bs"
  "session_sent (Fail e) b' x y bs \<longleftrightarrow>
     (\<exists>k. y = x @ take k bs) \<and> ba_err b' = Some e \<and> ba_buf b' = []"
  "\<not> session_sent Panic b' x y bs"
  by (simp_all add: session_sent_def)

lemma concat_chunks: "concat (chunks n pend ps) = pend @ ps"
  by (induction n pend ps rule: chunks.induct) auto

lemma chunks_length:
  "length pend < n \<Longrightarrow> \<forall>b\<in>set (chunks n pend ps). b \<noteq> [] \<and> length b \<le> n"
  by (induction n pend ps rule: chunks.induct) (auto split: if_splits)

lemma Flush_take_eq:
  "Flush_take b = (ba_buf b, b\<lparr>ba_timer := False, ba_buf := []\<rparr>)"
  by (cases b) (auto simp: Flush_take_def Let_def)

section \<open>A session publishes the batches in order\<close>

text \<open>What a session comes to: publishing one batch after the other, until one fails.\<close>

primrec publish_all ::
    "(bytes list \<Rightarrow> ('c, gerror, i64) go) \<Rightarrow> bytes list list \<Rightarrow> ('c, gerror, unit) go" where
  "publish_all pub [] = greturn ()"
| "publish_all pub (batch # batches) = gbind (pub batch) (\<lambda>_. publish_all pub batches)"

lemma flush_error_eq:
  assumes "ba_err b = None"
  shows "flush_error pub (b, c) =
    (let b' = b\<lparr>ba_timer := False, ba_buf := []\<rparr> in
     if ba_buf b = [] then (Ok (), (b', c))
     else case pub (ba_buf b) c of
         (Ok base, c) \<Rightarrow> (Ok (), (b', c))
       | (Fail e, c) \<Rightarrow> (Fail e, (b'\<lparr>ba_err := Some e\<rparr>, c))
       | (Panic, c) \<Rightarrow> (Panic, (b', c)))"
  using assms
  by (auto simp: flush_error_def Batcher_Flush_def Flush_take_eq gbind_def Flush_record_def Let_def
      split: prod.split outcome.split)

lemma session_publishes:
  assumes "ba_err b = None" and "\<not> ba_closed b" and "len (ba_buf b) < ba_maxBatch b"
    and "gbind (add_all pub ps) (\<lambda>_. Batcher_Close pub) (b, c) = (r, (b', c'))"
  shows "publish_all pub (chunks (nat (ba_maxBatch b)) (ba_buf b) ps) c = (r, c') \<and>
    (\<forall>e. r = Fail e \<longrightarrow> ba_err b' = Some e \<and> ba_buf b' = [])"
  using assms
proof (induction ps arbitrary: b c)
  case Nil
  then show ?case
    by (auto simp: gbind_def Batcher_Close_def flush_error_eq Let_def split: if_splits prod.splits outcome.splits)
next
  case (Cons p ps)
  define b1 where "b1 = b\<lparr>ba_buf := ba_buf b @ [p]\<rparr>"
  have b1: "ba_err b1 = None" "ba_buf b1 = ba_buf b @ [p]" "ba_maxBatch b1 = ba_maxBatch b" "\<not> ba_closed b1"
    using Cons.prems by (simp_all add: b1_def)
  show ?case
  proof (cases "len (ba_buf b1) \<ge> ba_maxBatch b")
    case True
    then have full: "Add_enter p b = (Ok True, b1)"
      using Cons.prems by (simp add: Add_enter_def b1_def)
    have ch: "chunks (nat (ba_maxBatch b)) (ba_buf b) (p # ps) = ba_buf b1 # chunks (nat (ba_maxBatch b)) [] ps"
      using True by (simp add: b1 nat_le_iff)
    let ?b2 = "b1\<lparr>ba_timer := False, ba_buf := []\<rparr>"
    obtain q c2 where q: "pub (ba_buf b1) c = (q, c2)" by force
    note defs = gbind_def Batcher_Add_def flush_error_eq Let_def
    show ?thesis
    proof (cases q)
      case (Ok base)
      then have "gbind (add_all pub ps) (\<lambda>_. Batcher_Close pub) (?b2, c2) = (r, (b', c'))"
        using Cons.prems(4) full b1 q by (simp add: defs)
      from Cons.IH [OF _ _ _ this] b1 Cons.prems(3) Ok q show ?thesis
        unfolding ch by (simp add: gbind_def)
    qed (use Cons.prems(4) full b1 q in \<open>auto simp: defs ch simp del: chunks.simps\<close>)
  next
    case False
    define b2 where "b2 = (if \<not> ba_timer b1 \<and> ba_maxDelay b1 > 0 then b1\<lparr>ba_timer := True\<rparr> else b1)"
    have b2: "ba_buf b2 = ba_buf b1" "ba_err b2 = None" "\<not> ba_closed b2" "ba_maxBatch b2 = ba_maxBatch b"
      using b1 by (auto simp: b2_def)
    have "Add_enter p b = (Ok False, b2)"
      using Cons.prems False by (auto simp: Add_enter_def b1_def b2_def Let_def)
    then have "gbind (add_all pub ps) (\<lambda>_. Batcher_Close pub) (b2, c) = (r, (b', c'))"
      using Cons.prems(4) by (simp add: gbind_def Batcher_Add_def)
    from Cons.IH [OF b2(2,3) _ this] False b1 b2 show ?thesis by (simp add: nat_le_iff not_le)
  qed
qed

context publisher
begin

lemma publish_all_sent:
  assumes "ready c" and "publish_all pub batches c = (r, c')"
  shows "case r of
      Ok _ \<Rightarrow> sent c' = sent c @ concat (map encode batches) \<and> ready c'
    | Fail e \<Rightarrow> (\<exists>k. sent c' = sent c @ take k (concat (map encode batches)))
    | Panic \<Rightarrow> False"
  using assms
proof (induction batches arbitrary: c)
  case (Cons batch batches)
  obtain q c1 where q: "pub batch c = (q, c1)" by force
  show ?case
  proof (cases q)
    case (Ok base)
    with q pub_ok [OF Cons.prems(1)] have c1: "sent c1 = sent c @ encode batch" "ready c1" by auto
    have "publish_all pub batches c1 = (r, c')" using Cons.prems(2) q Ok by (simp add: gbind_def)
    from Cons.IH [OF c1(2) this] c1(1) show ?thesis
      by (cases r) (auto intro: exI [of _ "length (encode batch) + k" for k])
  next
    case (Fail e)
    then have "r = Fail e" "c' = c1" using Cons.prems(2) q by (simp_all add: gbind_def)
    moreover obtain k where "sent c1 = sent c @ take k (encode batch)"
      using pub_fail [OF Cons.prems(1)] q Fail by blast
    ultimately show ?thesis
      by (auto intro!: exI [of _ "min k (length (encode batch))"] simp: min_def)
  next
    case Panic
    with q pub_no_panic [of batch c] show ?thesis by simp
  qed
qed auto

text \<open>
  A session of a batcher that nobody else flushes: what it puts on the connection are the encodings
  of the batches of \<open>chunks\<close>, in order; up to the failure when a batch fails.
\<close>

lemma session:
  assumes "ready c" and "ba_err b = None" and "\<not> ba_closed b" and "len (ba_buf b) < ba_maxBatch b"
    and "gbind (add_all pub ps) (\<lambda>_. Batcher_Close pub) (b, c) = (r, (b', c'))"
  shows "session_sent r b' (sent c) (sent c')
    (concat (map encode (chunks (nat (ba_maxBatch b)) (ba_buf b) ps)))"
proof -
  note p = session_publishes [OF assms(2-5)]
  from publish_all_sent [OF assms(1) conjunct1 [OF p]] p show ?thesis by (cases r) auto
qed

end

end
