(* ===== verification/Net_Client_Facts.thy ===== *)
theory Net_Client_Facts
  imports Net_Batcher Broker_Facts
begin

text \<open>
  What the client's operations put on the connection and what they make of the response; and
  \<open>Client_PublishBatch\<close> as the publisher of a batcher.
\<close>

section \<open>Bytes sent\<close>

text \<open>Everything a client has written: on the connection, and held back in its writer.\<close>

definition client_sent :: "client \<Rightarrow> bytes" where
  "client_sent c = bufw_sent (cl_bw c)"

definition flushed :: "client \<Rightarrow> bool" where
  "flushed c \<longleftrightarrow> bw_buf (cl_bw c) = []"

text \<open>The outcome of a request whose bytes are \<open>bs\<close>.\<close>

definition sends :: "client \<Rightarrow> bytes \<Rightarrow> 'a result \<times> client \<Rightarrow> bool" where
  "sends c bs rc \<longleftrightarrow>
     (case rc of
        (Ok _, c') \<Rightarrow> client_sent c' = client_sent c @ bs \<and> flushed c'
      | (Fail _, c') \<Rightarrow> \<exists>k. client_sent c' = client_sent c @ take k bs
      | (Panic, c') \<Rightarrow> False)"

lemma sends_simps [simp]:
  "sends c bs (Ok a, c') \<longleftrightarrow> client_sent c' = client_sent c @ bs \<and> flushed c'"
  "sends c bs (Fail e, c') \<longleftrightarrow> (\<exists>k. client_sent c' = client_sent c @ take k bs)"
  "\<not> sends c bs (Panic, c')"
  by (simp_all add: sends_def)

lemma sends_fail_here [simp]: "sends c bs (Fail e, c)"
  by (auto intro: exI [of _ 0])

lemma error_frame_no_panic [simp]: "error_frame body \<noteq> Panic"
  using decoders_truncated_or_ok(5) [of body]
  by (auto simp: error_frame_def truncated_or_ok_def split: outcome.splits)

lemma in_response_no_panic [simp]: "in_response what r = Panic \<longleftrightarrow> r = Panic"
  by (simp add: in_response_def split: outcome.splits)

lemma in_response_eq_Ok [simp]: "in_response what r = Ok a \<longleftrightarrow> r = Ok a"
  by (simp add: in_response_def split: outcome.splits)

lemma read_response_cases:
  obtains r i where "read_response op c = (r, c\<lparr>cl_in := i\<rparr>)" "r \<noteq> Panic"
proof -
  obtain r i where "ReadFrame (cl_in c) = (r, i)" by force
  then show thesis
  proof (cases r)
    case (Ok ob)
    with \<open>ReadFrame (cl_in c) = (r, i)\<close> show thesis
      by (cases ob) (auto simp: read_response_def intro!: that split: if_splits)
  qed (auto simp: read_response_def intro: that)
qed

lemma sends_roundTrip:
  assumes e: "bufio.emits write bs"
  shows "sends c bs (roundTripWriteLocked net op write c)"
proof -
  obtain r w where w: "write (cl_bw c) = (r, w)" by force
  show ?thesis
  proof (cases r)
    case (Ok u)
    then have sent: "bufw_sent w = bufw_sent (cl_bw c) @ bs"
      using bufio.emits_ok [OF e] w by blast
    let ?c = "c\<lparr>cl_bw := w\<rparr>"
    have wr: "write_request write c = (Ok (), ?c)" using w Ok by (simp add: write_request_def)
    show ?thesis
    proof (cases w rule: bufio_flush_cases)
      case (ok w')
      obtain i cl where net: "net (drop (length (co_sent (bw_conn (cl_bw c)))) (co_sent (bw_conn w'))) = (i, cl)"
        by force
      let ?c2 = "?c\<lparr>cl_bw := w', cl_in := cl_in c @ i, cl_closed := cl_closed c \<or> cl\<rparr>"
      have ex: "exchange net (length (co_sent (bw_conn (cl_bw c)))) ?c = (Ok (), ?c2)"
        using ok(1) net by (simp add: exchange_def Let_def)
      obtain q j where rd: "read_response op ?c2 = (q, ?c2\<lparr>cl_in := j\<rparr>)" "q \<noteq> Panic"
        by (rule read_response_cases)
      have "bufw_sent w' = bufw_sent w" using bufio_flush_sent [of w] ok(1) by simp
      then have full: "client_sent (?c2\<lparr>cl_in := j\<rparr>) = client_sent c @ bs" "flushed (?c2\<lparr>cl_in := j\<rparr>)"
        using sent ok(4) by (simp_all add: client_sent_def flushed_def)
      have "roundTripWriteLocked net op write c = (q, ?c2\<lparr>cl_in := j\<rparr>)"
        using wr ex rd(1) by (simp add: roundTripWriteLocked_def gbind_def)
      with full rd(2) show ?thesis by (cases q) (auto intro: exI [of _ "length bs"])
    next
      case (fail e' w')
      have "bufw_sent w' = bufw_sent w" using bufio_flush_sent [of w] fail(1) by simp
      with fail wr sent show ?thesis
        by (auto simp: roundTripWriteLocked_def gbind_def exchange_def Let_def client_sent_def
            intro!: exI [of _ "length bs"])
    qed
  next
    case (Fail e')
    then obtain k where "bufw_sent w = bufw_sent (cl_bw c) @ take k bs"
      using bufio.emits_fail [OF e] w by blast
    with Fail w show ?thesis
      by (auto simp: roundTripWriteLocked_def gbind_def write_request_def client_sent_def)
  next
    case Panic
    with w bufio.emits_no_panic [OF e, of "cl_bw c"] show ?thesis by simp
  qed
qed

lemma sends_roundTripWrite:
  "bufio.emits write bs \<Longrightarrow> sends c bs (roundTripWrite net op write c)"
  by (simp add: roundTripWrite_def sends_roundTrip)

text \<open>What is done with the response does not change what was sent.\<close>

lemma sends_bind:
  assumes "sends c bs (m c)" and "\<And>a c'. sends c bs (Ok a, c') \<Longrightarrow> \<exists>r. f a c' = (r, c') \<and> r \<noteq> Panic"
  shows "sends c bs (gbind m f c)"
proof (cases rule: gbind_cases [of m c f])
  case (ok a c')
  with assms(1) have s: "sends c bs (Ok a, c')" by simp
  from assms(2) [OF this] obtain r where r: "f a c' = (r, c')" "r \<noteq> Panic" by blast
  with ok s show ?thesis by (cases r) (auto intro: exI [of _ "length bs"])
qed (use assms(1) in auto)

lemma sends_validate:
  assumes "sends c bs (m c)"
  shows "sends c bs (gbind (glift (ValidateTopicName name)) (\<lambda>_. m) c)"
  using assms ValidateTopicName_no_panic [of name] by (cases "ValidateTopicName name") (auto simp: gbind_def)

section \<open>Publishing a batch\<close>

lemma check_payloads_no_panic [simp]: "check_payloads i ps \<noteq> Panic"
  by (induction i ps rule: check_payloads.induct) auto

lemma emits_publish_batch:
  assumes "len (EncodePublishBatch topic payloads) \<le> MaxPayload"
  shows "bufio.emits (WritePublishBatch bufio_write topic payloads)
    (frame_bytes OpPublishBatch (EncodePublishBatch topic payloads))"
  by (rule bufio.emits_WritePublishBatch [OF assms])

text \<open>A batch too large for one frame is refused before anything is written.\<close>

lemma roundTrip_refused:
  assumes "\<And>w. write w = (Fail e, w)"
  shows "\<exists>e'. roundTripWrite net op write c = (Fail e', c)"
  using assms
  by (auto simp: roundTripWrite_def roundTripWriteLocked_def write_request_def gbind_def)

lemma sends_publish_batch:
  "sends c (frame_bytes OpPublishBatch (EncodePublishBatch topic payloads))
     (roundTripWrite net OpPublishBatch (WritePublishBatch bufio_write topic payloads) c)"
proof (cases "len (EncodePublishBatch topic payloads) \<le> MaxPayload")
  case True
  then show ?thesis by (intro sends_roundTripWrite emits_publish_batch)
next
  case False
  then have "WritePublishBatch bufio_write topic payloads w = (fail_with ErrTooLarge, w)" for w
    by (intro WritePublishBatch_refused) simp
  from roundTrip_refused [OF this, where net = net and op = OpPublishBatch and c = c]
  show ?thesis by auto
qed

lemma sends_Client_PublishBatch:
  "sends c (frame_bytes OpPublishBatch (EncodePublishBatch topic payloads))
     (Client_PublishBatch net topic payloads c)"
proof -
  let ?bs = "frame_bytes OpPublishBatch (EncodePublishBatch topic payloads)"
  let ?ack = "\<lambda>body. gbind (glift (in_response ''network: publish-batch ack'' (DecodePublishAck body))) (\<lambda>(base, count).
        if count \<noteq> len payloads then gfail (ack_count_error count (length payloads)) else greturn base)"
  have "\<exists>r. ?ack body c' = (r, c') \<and> r \<noteq> Panic" for body c'
    using decoders_truncated_or_ok(7) [of body]
    by (cases "DecodePublishAck body") (auto simp: in_response_def truncated_or_ok_def gbind_def)
  then have req: "sends c ?bs (gbind (roundTripWrite net OpPublishBatch
      (WritePublishBatch bufio_write topic payloads)) ?ack c)"
    by (intro sends_bind sends_publish_batch)
  have "sends c ?bs (gbind (glift (check_payloads 0 payloads)) (\<lambda>_.
      gbind (roundTripWrite net OpPublishBatch (WritePublishBatch bufio_write topic payloads)) ?ack) c)"
    by (cases "check_payloads 0 payloads") (use req in \<open>auto simp: gbind_def\<close>)
  then show ?thesis
    unfolding Client_PublishBatch_def by (simp add: sends_validate)
qed

interpretation client_pub: publisher "Client_PublishBatch net topic" client_sent
    "\<lambda>batch. frame_bytes OpPublishBatch (EncodePublishBatch topic batch)" flushed
  for net and topic
proof
  fix c batch base c' e
  note s = sends_Client_PublishBatch [of c topic batch net]
  show "Client_PublishBatch net topic batch c = (Ok base, c') \<Longrightarrow>
      client_sent c' = client_sent c @ frame_bytes OpPublishBatch (EncodePublishBatch topic batch) \<and> flushed c'"
    using s by simp
  show "Client_PublishBatch net topic batch c = (Fail e, c') \<Longrightarrow>
      \<exists>k. client_sent c' = client_sent c @ take k (frame_bytes OpPublishBatch (EncodePublishBatch topic batch))"
    using s by simp
  show "fst (Client_PublishBatch net topic batch c) \<noteq> Panic"
    using s by (cases "Client_PublishBatch net topic batch c") auto
qed

end
