(* ===== verification/Net_Rpc.thy ===== *)
theory Net_Rpc
  imports Net_Handler Net_Client_Facts
begin

text \<open>
  A client and a server at the two ends of a connection: an error keeps the sentinel \<open>errors.Is\<close>
  finds in it when it crosses the wire as a code, and a request of the client has the result
  of the broker's operation it stands for.
\<close>

section \<open>Errors across the wire\<close>

text \<open>The sentinels that have a code of their own.\<close>

definition coded :: "sentinel option \<Rightarrow> bool" where
  "coded s \<longleftrightarrow> s \<in> Some ` {ErrClosed, ErrTopicExists, ErrTopicNotFound, ErrTopicNameEmpty,
     ErrTopicNameTooLong, ErrInvalidTopicName, ErrTooManyTopics, ErrTooLarge}"

lemma error_code_roundtrip:
  "error_root (remoteError (errorCode e) msg) = (if coded (error_root e) then error_root e else None)"
proof (cases "error_root e")
  case None
  then show ?thesis by (simp add: errorCode_def errors_is_root remoteError_def code_defs coded_def)
next
  case (Some s)
  then show ?thesis
    by (cases s) (simp_all add: errorCode_def errors_is_root remoteError_def code_defs coded_def)
qed

section \<open>One request and its response\<close>

text \<open>What the client makes of the server's result.\<close>

definition transport :: "(gostring \<Rightarrow> gostring) \<Rightarrow> 'a result \<Rightarrow> 'a result" where
  "transport quote r =
     (case r of
        Ok a \<Rightarrow> Ok a
      | Fail e \<Rightarrow> Fail (remoteError (errorCode e) (error_text quote e))
      | Panic \<Rightarrow> Panic)"

lemma transport_simps [simp]:
  "transport quote (Ok a) = Ok a"
  "transport quote (Fail e) = Fail (remoteError (errorCode e) (error_text quote e))"
  by (simp_all add: transport_def)

lemma read_response_response:
  assumes "r \<noteq> Panic" and "op \<noteq> OpError" and "frame_fits (response_of quote op r)"
    and "cl_in c = stream_of (case_prod frame_bytes (response_of quote op r)) @ i"
  shows "read_response op c = (transport quote r, c\<lparr>cl_in := i\<rparr>)"
proof (cases r)
  case (Ok body)
  with assms show ?thesis
    by (simp add: read_response_def response_of_def frame_fits_def ReadFrame_frame)
next
  case (Fail e)
  let ?p = "EncodeError (errorCode e) (error_text quote e)"
  have p: "len ?p \<le> MaxPayload" using assms(3) Fail by (simp add: frame_fits_def response_of_def)
  then have "encodable (error_text quote e)"
    by (simp add: EncodeError_def Let_def encodable_def MaxPayload_def)
  then have "DecodeError ?p = Ok (errorCode e, error_text quote e)"
    using DecodeError_eq_Ok by (metis append_Nil2)
  with Fail assms(4) p show ?thesis
    by (simp add: read_response_def response_of_def ReadFrame_frame error_frame_def)
qed (use assms in simp)

text \<open>A client in its request phase, on a connection without faults and with nothing left to read.\<close>

definition idle :: "client \<Rightarrow> bool" where
  "idle c \<longleftrightarrow> \<not> cl_closed c \<and> \<not> cl_streaming c \<and> cl_in c = [] \<and> healthy (cl_bw c) \<and> flushed c"

text \<open>
  The network that brings the client's bytes to the server's handler of connection \<open>h\<close> and brings
  back what the handler sends.
\<close>

definition loopback ::
    "(gostring \<Rightarrow> gostring) \<Rightarrow> 'x store_ops \<Rightarrow> server \<Rightarrow> hconn \<Rightarrow> 'x broker \<Rightarrow> net" where
  "loopback quote fops s h b bytes =
     (case handleConn quote fops s (h\<lparr>h_in := stream_of bytes\<rparr>, b) of
        (_, (h', _)) \<Rightarrow> (stream_of (drop (length (on_wire h)) (on_wire h')), False))"

lemma loopback_serves:
  assumes "sound h" and "is_rpc op" and "len p \<le> MaxPayload" and "rpc fops op p b = (r, b')"
    and "r \<noteq> Panic" and "frame_fits (response_of quote op r)"
  shows "loopback quote fops s h b (frame_bytes op p) =
    (stream_of (case_prod frame_bytes (response_of quote op r)), False)"
proof -
  let ?h = "h\<lparr>h_in := stream_of (frame_bytes op p)\<rparr>"
  have "\<exists>c'. handleConn quote fops s (?h, b) = (Ok Stop, (c', b')) \<and> sound c' \<and> h_in c' = [] \<and>
      on_wire c' = on_wire ?h @ frames_bytes [response_of quote op r]"
    using assms by (intro handleConn_serves [where qs = "[(op, p)]"]) (simp_all add: frame_fits_def)
  then show ?thesis by (auto simp: loopback_def)
qed

text \<open>A request that is sent completely reads its response from what arrives.\<close>

lemma roundTrip_arrives:
  assumes idle: "idle c" and e: "bufio.emits write bs" and ok: "succeeds healthy write"
    and net: "net bs = (i, False)"
  obtains c' where "roundTripWrite net op write c = read_response op (c'\<lparr>cl_in := i\<rparr>)" "idle c'"
    "client_sent c' = client_sent c @ bs"
proof -
  have h: "healthy (cl_bw c)" "cl_in c = []" "\<not> cl_closed c" "\<not> cl_streaming c" "bw_buf (cl_bw c) = []"
    using idle by (auto simp: idle_def flushed_def)
  obtain w where w: "write (cl_bw c) = (Ok (), w)" "healthy w"
    using succeedsD [OF ok h(1)] by blast
  obtain w' where w': "bufio_flush w = (Ok (), w')" "healthy w'"
    using succeedsD [OF succeeds_bufio(2) w(2)] by blast
  have sent: "bufw_sent w = co_sent (bw_conn (cl_bw c)) @ bs"
    using bufio.emits_ok [OF e w(1)] h(5) by (simp add: bufw_sent_def)
  have fl: "co_sent (bw_conn w') = bufw_sent w" "bw_buf w' = []" using bufio_flush_Ok [OF w'(1)] by auto
  let ?c = "c\<lparr>cl_bw := w'\<rparr>"
  have "exchange net (length (co_sent (bw_conn (cl_bw c)))) (c\<lparr>cl_bw := w\<rparr>) = (Ok (), ?c\<lparr>cl_in := i\<rparr>)"
    using w'(1) fl sent net h by (simp add: exchange_def)
  then have "roundTripWrite net op write c = read_response op (?c\<lparr>cl_in := i\<rparr>)"
    using h w(1) by (simp add: roundTripWrite_def roundTripWriteLocked_def write_request_def gbind_def)
  then show thesis
    using h w'(2) fl sent
    by (intro that [of ?c]) (simp_all add: idle_def flushed_def client_sent_def bufw_sent_def)
qed

lemma roundTrip_idle:
  assumes idle: "idle c" and e: "bufio.emits write bs" and ok: "succeeds healthy write"
    and net: "net bs = (stream_of (case_prod frame_bytes (response_of quote op r)), False)"
    and r: "r \<noteq> Panic" "op \<noteq> OpError" "frame_fits (response_of quote op r)"
  obtains c' where "roundTripWrite net op write c = (transport quote r, c')" "idle c'"
    "client_sent c' = client_sent c @ bs"
proof -
  let ?f = "stream_of (case_prod frame_bytes (response_of quote op r))"
  obtain c' where c': "roundTripWrite net op write c = read_response op (c'\<lparr>cl_in := ?f\<rparr>)" "idle c'"
    "client_sent c' = client_sent c @ bs"
    by (rule roundTrip_arrives [where net = net, OF idle e ok net])
  have "read_response op (c'\<lparr>cl_in := ?f\<rparr>) = (transport quote r, c'\<lparr>cl_in := ?f\<rparr>\<lparr>cl_in := []\<rparr>)"
    by (rule read_response_response [OF r]) simp
  moreover have "c'\<lparr>cl_in := ?f\<rparr>\<lparr>cl_in := []\<rparr> = c'" using c'(2) by (simp add: idle_def)
  ultimately show thesis using c' by (intro that [of c']) simp_all
qed

text \<open>So a request over the loopback returns the broker's result, its error as transported.\<close>

lemma roundTrip_loopback:
  assumes "idle c" and "sound h" and "bufio.emits write (frame_bytes op p)" and "succeeds healthy write"
    and "is_rpc op" and "len p \<le> MaxPayload" and "rpc fops op p b = (r, b')"
    and "r \<noteq> Panic" and "frame_fits (response_of quote op r)"
  obtains c' where "roundTripWrite (loopback quote fops s h b) op write c = (transport quote r, c')" "idle c'"
    "client_sent c' = client_sent c @ frame_bytes op p"
proof -
  have ne: "op \<noteq> OpError" using assms(5) by (auto simp: is_rpc_def opcode_defs)
  show thesis
    by (rule roundTrip_idle [where net = "loopback quote fops s h b", OF assms(1,3,4) loopback_serves [OF assms(2,5-9), of s] assms(8) ne assms(9)])
      (rule that)
qed

section \<open>The client's operations are the broker's\<close>

text \<open>The rendering of names in errors is that of \<open>strconv.Quote\<close>: at most four bytes for each, and two.\<close>

definition quote_bound :: "(gostring \<Rightarrow> gostring) \<Rightarrow> bool" where
  "quote_bound quote \<longleftrightarrow> (\<forall>name. length (quote name) \<le> 4 * length name + 2)"

lemma answer_transport:
  "r \<noteq> Panic \<Longrightarrow> \<forall>e. r = Fail e \<longrightarrow> coded (error_root e) \<Longrightarrow> answer (transport quote r) = answer r"
  by (cases r) (auto simp: error_code_roundtrip)

lemma answer_map_ok: "answer (map_ok f r) = (case answer r of Ok a \<Rightarrow> Ok (f a) | Fail e \<Rightarrow> Fail e | Panic \<Rightarrow> Panic)"
  by (cases r) simp_all

text \<open>The errors a request with a valid name can meet are short and have a code.\<close>

definition wire_error :: "(gostring \<Rightarrow> gostring) \<Rightarrow> gerror \<Rightarrow> bool" where
  "wire_error quote e \<longleftrightarrow> coded (error_root e) \<and> length (error_text quote e) \<le> 2000"

lemma sentinel_text_short:
  assumes "s \<in> {ErrClosed, ErrTopicExists, ErrTopicNotFound, ErrTopicNameEmpty,
     ErrTopicNameTooLong, ErrInvalidTopicName, ErrTooManyTopics, ErrTooLarge}"
  shows "length (sentinel_text s) \<le> 60"
  using assms by auto

lemma wire_error_sentinel:
  "s \<in> {ErrClosed, ErrTopicExists, ErrTopicNotFound, ErrTopicNameEmpty,
     ErrTopicNameTooLong, ErrInvalidTopicName, ErrTooManyTopics, ErrTooLarge} \<Longrightarrow>
   wire_error quote (Sentinel s)"
  using sentinel_text_short [of s] by (auto simp: wire_error_def coded_def)

lemma wire_error_topic:
  assumes q: "quote_bound quote" and v: "valid_name name" and w: "length what \<le> 100"
    and s: "s \<in> {ErrClosed, ErrTopicExists, ErrTopicNotFound, ErrTopicNameEmpty,
     ErrTopicNameTooLong, ErrInvalidTopicName, ErrTooManyTopics, ErrTooLarge}"
  shows "wire_error quote (Wrap (AtTopic what name) (Sentinel s))"
proof -
  have "length (quote name) \<le> 4 * 255 + 2"
  proof -
    have "length (quote name) \<le> 4 * length name + 2" using q by (simp add: quote_bound_def)
    moreover have "length name \<le> 255" using v by (simp add: valid_name_def)
    ultimately show ?thesis by linarith
  qed
  then show ?thesis
    using sentinel_text_short [OF s] w s by (auto simp: wire_error_def coded_def)
qed

lemma response_fits_wire:
  assumes "\<forall>e. r = Fail e \<longrightarrow> wire_error quote e" and "\<forall>body. r = Ok body \<longrightarrow> len body \<le> MaxPayload"
  shows "frame_fits (response_of quote op r)"
  using assms
  by (cases r) (auto simp: frame_fits_def response_of_def wire_error_def Encode_eqs EncodeError_def Let_def
      MaxPayload_def)

text \<open>Composing an exchange with what the client does around it.\<close>

definition responds :: "(gostring \<Rightarrow> gostring) \<Rightarrow> bytes result \<Rightarrow> bool" where
  "responds quote r \<longleftrightarrow>
     (case r of Ok body \<Rightarrow> len body \<le> MaxPayload | Fail e \<Rightarrow> wire_error quote e | Panic \<Rightarrow> False)"

lemma roundTrip_responds:
  assumes "idle c" and "sound h" and "bufio.emits write (frame_bytes op p)" and "succeeds healthy write"
    and "is_rpc op" and "len p \<le> MaxPayload" and "responds quote (fst (rpc fops op p b))"
  obtains c' where "roundTripWrite (loopback quote fops s h b) op write c =
    (transport quote (fst (rpc fops op p b)), c')" "idle c'" "client_sent c' = client_sent c @ frame_bytes op p"
proof -
  obtain r b' where r: "rpc fops op p b = (r, b')" by force
  have "r \<noteq> Panic" "frame_fits (response_of quote op r)"
    using assms(7) r by (auto simp: responds_def split: outcome.splits intro!: response_fits_wire)
  from roundTrip_loopback [OF assms(1-6) r this, where s = s] r that show thesis by auto
qed

text \<open>The server takes the payload \<open>p\<close> of a request to the broker, which it leaves as \<open>b'\<close>, and can answer.\<close>

definition serves ::
    "(gostring \<Rightarrow> gostring) \<Rightarrow> 'x store_ops \<Rightarrow> opcode \<Rightarrow> bytes \<Rightarrow> 'x broker \<Rightarrow> 'x broker \<Rightarrow> bool" where
  "serves quote fops op p b b' \<longleftrightarrow> is_rpc op \<and> len p \<le> MaxPayload \<and>
     responds quote (fst (rpc fops op p b)) \<and> snd (rpc fops op p b) = b'"

lemma responds_map_ok:
  assumes "r \<noteq> Panic" and "\<forall>e. r = Fail e \<longrightarrow> wire_error quote e" and "\<forall>a. len (f a) \<le> MaxPayload"
  shows "responds quote (map_ok f r)"
  using assms by (cases r) (auto simp: responds_def)

lemma wire_error_transport:
  assumes "r \<noteq> Panic" and "\<forall>e. r = Fail e \<longrightarrow> wire_error quote e"
  shows "answer (transport quote (map_ok f r)) = answer (map_ok f r)"
  using assms by (intro answer_transport) (cases r; auto simp: wire_error_def)+

lemma CreateTopic_wire_error:
  assumes ok: "broker_ok finv flog b" and mem: "b_newStore b = Some memory_factory"
    and q: "quote_bound quote" and v: "valid_name name" and r: "CreateTopic name b = (Fail e, b')"
  shows "wire_error quote e"
  using ok
proof (cases rule: CreateTopic_cases [where name = name])
  case (nil f)
  with mem show ?thesis by (simp add: memory_factory_def)
qed (use r v in \<open>auto intro!: wire_error_topic [OF q v] wire_error_sentinel\<close>)

context reliable_user_store
begin

lemma publish_wire_error:
  assumes b: "serving finv flog (length ps) b" and q: "quote_bound quote" and v: "valid_name name"
    and r: "Broker_PublishBatch fops name ps b = (Fail e, b')"
  shows "wire_error quote e"
proof -
  have bk: "bok b" "spec_fits (length ps) (abs_broker flog b)" using b by (auto simp: serving_def)
  from bk(1) show ?thesis
  proof (cases rule: at_topic_cases [where what = "ascii ''publish to''" and name = name and
        m = "Partition_PublishBatch (dispatch fops) ps"])
    case (found t x p)
    have "topic_logs flog b name = Some (store_log flog (p_store (b_parts b ! t)))"
      using found by (simp add: topic_logs_eq)
    then show ?thesis
      using Broker_PublishBatch_refines [OF bk r] found(1)
      by (simp add: spec_append_def abs_broker_open)
  qed (use r in \<open>auto simp: Broker_PublishBatch_def intro!: wire_error_topic [OF q v] wire_error_sentinel\<close>)
qed

lemma publish_one_wire_error:
  assumes b: "serving finv flog 1 b" and q: "quote_bound quote" and v: "valid_name name"
    and r: "Broker_Publish fops name p b = (Fail e, b')"
  shows "wire_error quote e"
proof -
  have bk: "bok b" "spec_fits 1 (abs_broker flog b)" using b by (auto simp: serving_def)
  from bk(1) show ?thesis
  proof (cases rule: at_topic_cases [where what = "ascii ''publish to''" and name = name and
        m = "Partition_Publish (dispatch fops) p"])
    case (found t x q)
    have "topic_logs flog b name = Some (store_log flog (p_store (b_parts b ! t)))"
      using found by (simp add: topic_logs_eq)
    then show ?thesis
      using Broker_Publish_refines [OF bk r] found(1)
      by (simp add: spec_append_def abs_broker_open)
  qed (use r in \<open>auto simp: Broker_Publish_def intro!: wire_error_topic [OF q v] wire_error_sentinel\<close>)
qed

lemma Client_CreateTopic_loopback:
  assumes c: "idle c" and h: "sound h" and b: "serving finv flog 0 b" and q: "quote_bound quote"
    and v: "valid_name name"
  obtains c' where "Client_CreateTopic (loopback quote fops s h b) name c =
      (transport quote (fst (CreateTopic name b)), c')" "idle c'"
    "client_sent c' = client_sent c @ frame_bytes OpCreateTopic name"
    "serves quote fops OpCreateTopic name b (snd (CreateTopic name b))"
proof -
  obtain r b' where r: "CreateTopic name b = (r, b')" by force
  have bk: "bok b" "b_newStore b = Some memory_factory" using b by (auto simp: serving_def)
  have np: "r \<noteq> Panic" using CreateTopic_effect [OF b r] by simp
  have we: "\<forall>e. r = Fail e \<longrightarrow> wire_error quote e"
    using CreateTopic_wire_error [OF bk q v] r by auto
  have rpc: "snd (rpc fops OpCreateTopic name b) = b'"
    "fst (rpc fops OpCreateTopic name b) = map_ok (\<lambda>_. []) r"
    using r by (simp_all add: rpc_def)
  have len: "len name \<le> MaxPayload" using v by (simp add: valid_name_def MaxPayload_def)
  have resp: "responds quote (fst (rpc fops OpCreateTopic name b))"
    unfolding rpc(2) by (rule responds_map_ok [OF np we]) (simp add: MaxPayload_def)
  have vt: "ValidateTopicName name = Ok ()" using v ValidateTopicName_eq_Ok by simp
  have cl: "\<not> cl_closed c" using c by (simp add: idle_def)
  obtain c' where c': "roundTripWrite (loopback quote fops s h b) OpCreateTopic
      (WriteFrame bufio_write OpCreateTopic name) c = (transport quote (map_ok (\<lambda>_. []) r), c')" "idle c'"
    "client_sent c' = client_sent c @ frame_bytes OpCreateTopic name"
    using roundTrip_responds [OF c h bufio.emits_WriteFrame [OF len]
        succeeds_WriteFrame [where wr = bufio_write, OF succeeds_bufio(1) len] _ len resp, of s]
    by (auto simp: is_rpc_def rpc(2))
  have "Client_CreateTopic (loopback quote fops s h b) name c = (transport quote r, c')"
    using c'(1) vt cl np
    by (cases r) (simp_all add: Client_CreateTopic_def roundTrip_def gbind_def)
  moreover have "serves quote fops OpCreateTopic name b b'"
    using resp len rpc(1) by (simp add: serves_def is_rpc_def)
  ultimately show thesis using c'(2,3) r that by simp
qed

lemma Client_Publish_loopback:
  assumes c: "idle c" and h: "sound h" and b: "serving finv flog 1 b" and q: "quote_bound quote"
    and v: "valid_name topic" and sz: "len (EncodePublish topic payload) \<le> MaxPayload"
    and small: "len payload \<le> MaxMessage"
  obtains c' where "Client_Publish (loopback quote fops s h b) topic payload c =
      (transport quote (fst (Broker_Publish fops topic payload b)), c')" "idle c'"
    "client_sent c' = client_sent c @ frame_bytes OpPublish (EncodePublish topic payload)"
    "serves quote fops OpPublish (EncodePublish topic payload) b (snd (Broker_Publish fops topic payload b))"
proof -
  obtain r b' where r: "Broker_Publish fops topic payload b = (r, b')" by force
  have np: "r \<noteq> Panic" using Broker_Publish_effect [OF b r] by simp
  have we: "\<forall>e. r = Fail e \<longrightarrow> wire_error quote e"
    using publish_one_wire_error [OF b q v] r by auto
  have "encodable topic" "encodable payload"
    using v small by (simp_all add: valid_name_def encodable_def MaxMessage_def MaxPayload_def)
  then have "DecodePublish (EncodePublish topic payload) = Ok (topic, payload)"
    using DecodePublish_eq_Ok by (metis append_Nil2)
  then have rpc: "snd (rpc fops OpPublish (EncodePublish topic payload) b) = b'"
    "fst (rpc fops OpPublish (EncodePublish topic payload) b) = map_ok MarshalOffset r"
    using r small by (simp_all add: rpc_def opcode_defs)
  have resp: "responds quote (fst (rpc fops OpPublish (EncodePublish topic payload) b))"
    unfolding rpc(2) by (rule responds_map_ok [OF np we]) (simp add: MarshalOffset_def MaxPayload_def)
  have vt: "ValidateTopicName topic = Ok ()" using v ValidateTopicName_eq_Ok by simp
  have cl: "\<not> cl_closed c" using c by (simp add: idle_def)
  obtain c' where c': "roundTripWrite (loopback quote fops s h b) OpPublish
      (WritePublish bufio_write topic payload) c = (transport quote (map_ok MarshalOffset r), c')" "idle c'"
    "client_sent c' = client_sent c @ frame_bytes OpPublish (EncodePublish topic payload)"
    using roundTrip_responds [OF c h bufio.emits_writePublishOp [OF sz]
        succeeds_writePublishOp [where wr = bufio_write, OF succeeds_bufio(1) sz] _ sz resp, of s]
    by (auto simp: is_rpc_def rpc(2) WritePublish_def)
  have "UnmarshalOffset (MarshalOffset off) = Ok off" for off
    using UnmarshalOffset_eq_Ok [of "MarshalOffset off" off] by auto
  then have "Client_Publish (loopback quote fops s h b) topic payload c = (transport quote r, c')"
    using c'(1) vt cl np small
    by (cases r) (simp_all add: Client_Publish_def gbind_def in_response_def)
  moreover have "serves quote fops OpPublish (EncodePublish topic payload) b b'"
    using resp sz rpc(1) by (simp add: serves_def is_rpc_def)
  ultimately show thesis using c'(2,3) r that by simp
qed

lemma Client_PublishBatch_loopback:
  assumes c: "idle c" and h: "sound h" and b: "serving finv flog (length payloads) b" and q: "quote_bound quote"
    and v: "valid_name topic" and sz: "len (EncodePublishBatch topic payloads) \<le> MaxPayload"
    and ne: "payloads \<noteq> []"
  obtains c' where "Client_PublishBatch (loopback quote fops s h b) topic payloads c =
      (transport quote (fst (Broker_PublishBatch fops topic payloads b)), c')" "idle c'"
    "client_sent c' = client_sent c @ frame_bytes OpPublishBatch (EncodePublishBatch topic payloads)"
    "serves quote fops OpPublishBatch (EncodePublishBatch topic payloads) b (snd (Broker_PublishBatch fops topic payloads b))"
proof -
  obtain r b' where r: "Broker_PublishBatch fops topic payloads b = (r, b')" by force
  have np: "r \<noteq> Panic" using Broker_PublishBatch_effect [OF b r] by simp
  have we: "\<forall>e. r = Fail e \<longrightarrow> wire_error quote e"
    using publish_wire_error [OF b q v] r by auto
  have small: "\<forall>p\<in>set payloads. len p \<le> MaxMessage"
    using sz message_in_blocks by (fastforce simp: Encode_eqs counted_def MaxMessage_def)
  have cnt: "4 * len payloads \<le> MaxPayload"
    using sz length_blocks [of payloads] by (simp add: Encode_eqs counted_def)
  have "encodable topic" "encodable_list payloads"
    using v small cnt
    by (auto simp: valid_name_def encodable_list_def encodable_def MaxMessage_def MaxPayload_def)
  then have dec: "DecodePublishBatch (EncodePublishBatch topic payloads) = Ok (topic, payloads)"
    using DecodePublishBatch_eq_Ok by (metis append_Nil2)
  let ?ack = "\<lambda>base. EncodePublishAck base (len payloads)"
  have "publishBatch fops topic payloads b = (r, b')"
    using r small by (auto simp: publishBatch_def list_ex_iff)
  then have rpc: "snd (rpc fops OpPublishBatch (EncodePublishBatch topic payloads) b) = b'"
    "fst (rpc fops OpPublishBatch (EncodePublishBatch topic payloads) b) = map_ok ?ack r"
    using dec by (simp_all add: rpc_def opcode_defs)
  have resp: "responds quote (fst (rpc fops OpPublishBatch (EncodePublishBatch topic payloads) b))"
    unfolding rpc(2) by (rule responds_map_ok [OF np we]) (simp add: EncodePublishAck_def MaxPayload_def)
  have vt: "ValidateTopicName topic = Ok ()" using v ValidateTopicName_eq_Ok by simp
  have cl: "\<not> cl_closed c" using c by (simp add: idle_def)
  obtain c' where c': "roundTripWrite (loopback quote fops s h b) OpPublishBatch
      (WritePublishBatch bufio_write topic payloads) c = (transport quote (map_ok ?ack r), c')" "idle c'"
    "client_sent c' = client_sent c @ frame_bytes OpPublishBatch (EncodePublishBatch topic payloads)"
    using roundTrip_responds [OF c h bufio.emits_WritePublishBatch [OF sz]
        succeeds_WritePublishBatch [where wr = bufio_write, OF succeeds_bufio(1) sz] _ sz resp, of s]
    by (auto simp: is_rpc_def rpc(2))
  have ack: "DecodePublishAck (?ack base) = Ok (base, len payloads)" for base
    using DecodePublishAck_eq_Ok [of "?ack base" base "len payloads"] cnt by (auto simp: MaxPayload_def)
  have "check_payloads i payloads = Ok ()" for i
    using small by (induction payloads arbitrary: i) auto
  then have "Client_PublishBatch (loopback quote fops s h b) topic payloads c = (transport quote r, c')"
    using c'(1) vt cl np ne ack
    by (cases r) (simp_all add: Client_PublishBatch_def gbind_def in_response_def)
  moreover have "serves quote fops OpPublishBatch (EncodePublishBatch topic payloads) b b'"
    using resp sz rpc(1) by (simp add: serves_def is_rpc_def)
  ultimately show thesis using c'(2,3) r that by simp
qed

end

end
