(* ===== verification/Net_Stream.thy ===== *)
theory Net_Stream
  imports Net_Handler Net_Client_Facts "HOL-Library.Sublist"
begin

text \<open>
  The stream of a subscription, from the server's \<open>stream\<close> to the client's \<open>Subscription.Read\<close>: the
  bytes a stream puts on its connection are the frames of the messages it read, in order, and
  the client reads back those messages.
\<close>

section \<open>What the server pushes\<close>

text \<open>A connection whose faults are those of a network, not the program's own ErrTooLarge.\<close>

definition net_faults :: "conn_out \<Rightarrow> bool" where
  "net_faults w \<longleftrightarrow> (case co_fault w of None \<Rightarrow> True | Some (n, e) \<Rightarrow> e \<noteq> ErrTooLarge)"

lemma conn_write_net_faults:
  assumes "conn_write b w = (r, w')" and "net_faults w"
  shows "net_faults w' \<and> (\<forall>e. r = Fail e \<longrightarrow> \<not> errors_is e ErrTooLarge)"
  using assms by (auto simp: conn_write_def net_faults_def split: option.splits if_splits)

lemma write_buffers_net_faults:
  "write_buffers conn_write bs w = (r, w') \<Longrightarrow> net_faults w \<Longrightarrow>
     net_faults w' \<and> (\<forall>e. r = Fail e \<longrightarrow> \<not> errors_is e ErrTooLarge)"
proof (induction bs arbitrary: w)
  case (Cons b bs)
  obtain q v where q: "conn_write b w = (q, v)" by force
  with Cons.prems Cons.IH [of v] conn_write_net_faults [OF q] show ?case
    by (cases q) (auto simp: gbind_def)
qed auto

text \<open>The outcome of pushing: all of the messages' frames, or the end of the connection after a part.\<close>

definition pushes :: "hconn \<Rightarrow> bytes \<Rightarrow> verdict result \<times> (hconn \<times> header_pool) \<Rightarrow> bool" where
  "pushes c bs out \<longleftrightarrow>
     pool_ok (snd (snd out)) \<and> net_faults (bw_conn (h_bw (fst (snd out)))) \<and>
     (if fst out = Ok Continue then on_wire (fst (snd out)) = on_wire c @ bs
      else fst out = Ok Stop \<and> (\<exists>k. on_wire (fst (snd out)) = on_wire c @ take k bs))"

lemma pushes_append:
  assumes "on_wire c1 = on_wire c @ a" and "pushes c1 bs out"
  shows "pushes c (a @ bs) out"
proof (cases "fst out = Ok Continue")
  case False
  with assms obtain k where "on_wire (fst (snd out)) = on_wire c @ take (length a + k) (a @ bs)"
    by (auto simp: pushes_def)
  with False assms(2) show ?thesis by (auto simp: pushes_def simp del: take_append)
qed (use assms in \<open>simp add: pushes_def\<close>)

lemma pushes_prefix:
  assumes "pushes c a out" and "fst out \<noteq> Ok Continue"
  shows "pushes c (a @ bs) out"
proof -
  from assms obtain k where "on_wire (fst (snd out)) = on_wire c @ take k a"
    by (auto simp: pushes_def)
  then have "on_wire (fst (snd out)) = on_wire c @ take (min k (length a)) (a @ bs)"
    by (simp add: min_def)
  with assms show ?thesis by (auto simp: pushes_def simp del: take_append)
qed

lemma pushes_push_batch:
  assumes pool: "pool_ok pool" and net: "net_faults (bw_conn (h_bw c))"
    and small: "\<forall>m\<in>set ms. len (Payload m) \<le> MaxMessage"
  shows "pushes c (messages_bytes ms) (push_batch quote s ms (c, pool))"
proof (cases "armWrite s c")
  case False
  then show ?thesis using pool net by (auto simp: push_batch_def pushes_def intro: exI [of _ 0])
next
  case True
  let ?bufs = "message_bufs (map Offset ms) (map Payload ms)" and ?w = "bw_conn (h_bw c)"
  obtain r w where w: "write_buffers conn_write ?bufs ?w = (r, w)" by force
  have "\<not> (\<exists>p\<in>set (map Payload ms). len p > MaxMessage)" using small by auto
  then obtain pool' where pool': "pool_ok pool'"
    "WriteMessageBatch conn_write (map Offset ms) (map Payload ms) (?w, pool) = (r, (w, pool'))"
    using WriteMessageBatch_eq [of "map Offset ms" "map Payload ms" pool conn_write ?w] pool w by auto
  note e = conn.emits_write_buffers [of ?bufs, unfolded concat_bufs_messages]
  note f = write_buffers_net_faults [OF w net]
  show ?thesis
  proof (cases r)
    case (Ok u)
    then have "co_sent w = co_sent ?w @ messages_bytes ms" using conn.emits_ok [OF e, of ?w u w] w by simp
    with Ok True pool' f show ?thesis
      by (simp add: push_batch_def pushes_def on_wire_def Let_def)
  next
    case (Fail er)
    then obtain k where "co_sent w = co_sent ?w @ take k (messages_bytes ms)"
      using conn.emits_fail [OF e, of ?w er w] w by auto
    with Fail True pool' f show ?thesis
      by (auto simp: push_batch_def pushes_def on_wire_def Let_def)
  next
    case Panic
    with conn.emits_no_panic [OF e, of ?w] w show ?thesis by simp
  qed
qed

lemma pushes_stream:
  assumes "pool_ok pool" and "net_faults (bw_conn (h_bw c))"
    and "\<forall>ms\<in>set mss. \<forall>m\<in>set ms. len (Payload m) \<le> MaxMessage"
  shows "pushes c (messages_bytes (concat mss)) (stream quote s (map Ok mss) (c, pool))"
  using assms
proof (induction mss arbitrary: c pool)
  case Nil
  then show ?case by (simp add: pushes_def)
next
  case (Cons ms mss)
  have p: "pushes c (messages_bytes ms) (push_batch quote s ms (c, pool))"
    using Cons.prems by (intro pushes_push_batch) auto
  obtain v c1 pool1 where v: "push_batch quote s ms (c, pool) = (v, (c1, pool1))" by (metis prod.collapse)
  show ?case
  proof (cases "v = Ok Continue")
    case True
    have "on_wire c1 = on_wire c @ messages_bytes ms" "pool_ok pool1" "net_faults (bw_conn (h_bw c1))"
      using p True by (simp_all add: v pushes_def)
    with Cons.IH [of pool1 c1] Cons.prems(3) show ?thesis
      using v True by (auto intro: pushes_append)
  next
    case False
    then have "v = Ok Stop" using p by (simp add: v pushes_def)
    then have "stream quote s (map Ok (ms # mss)) (c, pool) = push_batch quote s ms (c, pool)"
      using v by simp
    moreover have "pushes c (messages_bytes ms @ messages_bytes (concat mss)) (push_batch quote s ms (c, pool))"
      by (rule pushes_prefix [OF p]) (simp add: v False)
    ultimately show ?thesis by simp
  qed
qed

section \<open>What the client reads\<close>

lemma Subscription_Read_message:
  assumes "\<not> cl_closed c" and "cl_in c = stream_of (message_bytes m) @ i" and "len (Payload m) \<le> MaxMessage"
  shows "Subscription_Read c = (Ok m, c\<lparr>cl_in := i\<rparr>)"
proof -
  have sz: "len (EncodeMessage (Offset m) (Payload m)) \<le> MaxPayload"
    using assms(3) by (simp add: EncodeMessage_pieces MaxMessage_def)
  have "encodable (Payload m)" using assms(3) by (simp add: encodable_def MaxMessage_def MaxPayload_def)
  then have "DecodeMessage (EncodeMessage (Offset m) (Payload m)) = Ok (Offset m, Payload m)"
    using DecodeMessage_eq_Ok by (metis append_Nil2)
  then show ?thesis
    using assms sz
    by (simp add: Subscription_Read_def message_bytes_def message_frame_def ReadFrame_frame in_response_def)
qed

text \<open>Reading one message after the other until an error; \<open>n\<close> bounds the number of calls.\<close>

primrec read_all :: "nat \<Rightarrow> client \<Rightarrow> message list \<times> client" where
  "read_all 0 c = ([], c)"
| "read_all (Suc n) c =
     (case Subscription_Read c of
        (Ok m, c) \<Rightarrow> (case read_all n c of (ms, c) \<Rightarrow> (m # ms, c))
      | (_, c) \<Rightarrow> ([], c))"

lemma read_all_messages:
  assumes "\<not> cl_closed c" and "cl_in c = stream_of (messages_bytes ms) @ i"
    and "\<forall>m\<in>set ms. len (Payload m) \<le> MaxMessage"
  shows "read_all (length ms) c = (ms, c\<lparr>cl_in := i\<rparr>)"
  using assms
proof (induction ms arbitrary: c)
  case (Cons m ms)
  have "Subscription_Read c = (Ok m, c\<lparr>cl_in := stream_of (messages_bytes ms) @ i\<rparr>)"
    using Cons.prems by (intro Subscription_Read_message) auto
  moreover have "read_all (length ms) (c\<lparr>cl_in := stream_of (messages_bytes ms) @ i\<rparr>) =
      (ms, (c\<lparr>cl_in := stream_of (messages_bytes ms) @ i\<rparr>)\<lparr>cl_in := i\<rparr>)"
    using Cons.prems by (intro Cons.IH) auto
  ultimately show ?case by simp
qed simp

text \<open>
  When the connection ends within a message, the messages before it are still read: a part of a frame
  is not a frame.
\<close>

lemma ReadFrame_cut:
  assumes "len p \<le> MaxPayload" and "k < length (frame_bytes op p)"
  shows "ReadFrame (stream_of (take k (frame_bytes op p))) \<noteq> (Ok r, i)"
proof
  assume a: "ReadFrame (stream_of (take k (frame_bytes op p))) = (Ok r, i)"
  obtain op' p' where r: "r = (op', p')" by force
  let ?rest = "stream_of (drop k (frame_bytes op p))"
  have "stream_of (frame_bytes op p) = stream_of (take k (frame_bytes op p)) @ ?rest"
    by (metis append_take_drop_id map_append)
  also have "\<dots> = stream_of (frame_bytes op' p') @ i @ ?rest"
    using a r by (simp add: ReadFrame_eq_Ok)
  finally have eq: "stream_of (frame_bytes op p) = stream_of (frame_bytes op' p') @ i @ ?rest" .
  have le: "len p' \<le> MaxPayload" using a r by (simp add: ReadFrame_eq_Ok)
  from eq have "ReadFrame (stream_of (frame_bytes op p)) = (Ok (op', p'), i @ ?rest)"
    using ReadFrame_frame [OF le] by metis
  moreover have "ReadFrame (stream_of (frame_bytes op p)) = (Ok (op, p), [])"
    using ReadFrame_frame [OF assms(1), of op "[]"] by simp
  ultimately have "drop k (frame_bytes op p) = []" by (metis prod.inject append_is_Nil_conv map_is_Nil_conv)
  with assms(2) show False by (simp del: length_frame_bytes)
qed

lemma Subscription_Read_no_frame:
  assumes "\<And>r i. ReadFrame (cl_in c) \<noteq> (Ok r, i)"
  shows "fst (Subscription_Read c) \<noteq> Ok m"
  using assms
  by (cases "ReadFrame (cl_in c)"; cases "fst (ReadFrame (cl_in c))") (auto simp: Subscription_Read_def)

lemma ReadFrame_Nil: "ReadFrame [] \<noteq> (Ok r, i)"
  by (cases r) (auto simp: ReadFrame_eq_Ok frame_bytes_def header_bytes_def)

lemma read_all_stops: "\<forall>m. fst (Subscription_Read c) \<noteq> Ok m \<Longrightarrow> fst (read_all n c) = []"
  by (cases n; cases "Subscription_Read c"; cases "fst (Subscription_Read c)") auto

lemma Subscription_Read_cut:
  assumes "cl_in c = stream_of (take k (message_bytes m))" and "k < length (message_bytes m)"
    and "len (Payload m) \<le> MaxMessage"
  shows "fst (Subscription_Read c) \<noteq> Ok n"
proof -
  have "len (EncodeMessage (Offset m) (Payload m)) \<le> MaxPayload"
    using assms(3) by (simp add: EncodeMessage_pieces MaxMessage_def)
  then have no: "ReadFrame (cl_in c) \<noteq> (Ok r, i)" for r i
    using ReadFrame_cut assms(1,2) by (metis message_bytes_def message_frame_def)
  then show ?thesis by (rule Subscription_Read_no_frame)
qed

lemma read_all_cut:
  assumes "\<not> cl_closed c" and "cl_in c = stream_of (take k (messages_bytes ms))"
    and "\<forall>m\<in>set ms. len (Payload m) \<le> MaxMessage"
  shows "prefix (fst (read_all n c)) ms"
  using assms
proof (induction ms arbitrary: c k n)
  case Nil
  then have "\<forall>m. fst (Subscription_Read c) \<noteq> Ok m"
    by (intro allI Subscription_Read_no_frame) (simp add: ReadFrame_Nil)
  then show ?case by (simp add: read_all_stops)
next
  case (Cons m ms)
  show ?case
  proof (cases n)
    case (Suc j)
    show ?thesis
    proof (cases "length (message_bytes m) \<le> k")
      case True
      let ?i = "stream_of (take (k - length (message_bytes m)) (messages_bytes ms))"
      have "Subscription_Read c = (Ok m, c\<lparr>cl_in := ?i\<rparr>)"
        using Cons.prems True by (intro Subscription_Read_message) auto
      moreover have "prefix (fst (read_all j (c\<lparr>cl_in := ?i\<rparr>))) ms"
        by (rule Cons.IH) (use Cons.prems in auto)
      ultimately show ?thesis using Suc by (simp add: split_beta)
    next
      case False
      then have "cl_in c = stream_of (take k (message_bytes m))" using Cons.prems(2) by simp
      from Subscription_Read_cut [OF this] False Cons.prems(3)
      have "\<forall>x. fst (Subscription_Read c) \<noteq> Ok x" by simp
      then show ?thesis by (simp add: read_all_stops)
    qed
  qed simp
qed

text \<open>
  \<open>ReadBatch\<close> returns a non-empty prefix of the messages that were pushed, of at most \<open>max\<close>
  messages, and leaves the rest to be read.
\<close>

lemma read_more_messages:
  assumes "\<not> cl_closed c" and "cl_in c = stream_of (messages_bytes ms)"
    and "\<forall>m\<in>set ms. len (Payload m) \<le> MaxMessage" and "len out \<le> mx"
    and b0: "\<And>j. buffered j \<le> length j"
  shows "\<exists>k\<le>length ms. len out + int k \<le> mx \<and> read_more buffered mx out c =
    (Ok (out @ take k ms), c\<lparr>cl_in := stream_of (messages_bytes (drop k ms))\<rparr>)"
  using assms(1-4)
proof (induction ms arbitrary: out c)
  case Nil
  then have "cl_in c = []" by simp
  moreover from this have "buffered (cl_in c) = 0" using b0 [of "cl_in c"] by simp
  ultimately show ?case using Nil by (simp add: read_more.simps [of buffered mx out c])
next
  case (Cons m ms)
  show ?case
  proof (cases "len out < mx \<and> buffered (cl_in c) > 0")
    case True
    let ?c = "c\<lparr>cl_in := stream_of (messages_bytes ms)\<rparr>"
    have "Subscription_Read c = (Ok m, ?c)"
      using Cons.prems by (intro Subscription_Read_message) auto
    then have step: "read_more buffered mx out c = read_more buffered mx (out @ [m]) ?c"
      using True by (simp add: read_more.simps [of buffered mx out c])
    have "\<exists>k\<le>length ms. len (out @ [m]) + int k \<le> mx \<and> read_more buffered mx (out @ [m]) ?c =
        (Ok ((out @ [m]) @ take k ms), ?c\<lparr>cl_in := stream_of (messages_bytes (drop k ms))\<rparr>)"
      using Cons.prems True by (intro Cons.IH) auto
    then obtain k where "k \<le> length ms" "len (out @ [m]) + int k \<le> mx"
      "read_more buffered mx (out @ [m]) ?c =
        (Ok ((out @ [m]) @ take k ms), ?c\<lparr>cl_in := stream_of (messages_bytes (drop k ms))\<rparr>)" by blast
    then show ?thesis unfolding step by (intro exI [of _ "Suc k"]) simp
  next
    case False
    then show ?thesis
      using Cons.prems
      by (intro exI [of _ 0]) (auto simp: read_more.simps [of buffered mx out c])
  qed
qed

lemma ReadBatch_messages:
  assumes "\<not> cl_closed c" and "cl_in c = stream_of (messages_bytes ms)" and "ms \<noteq> []"
    and "\<forall>m\<in>set ms. len (Payload m) \<le> MaxMessage" and "alloc (if mx \<le> 0 then 1 else mx)"
    and b0: "\<And>j. buffered j \<le> length j"
  shows "\<exists>k. 0 < k \<and> k \<le> length ms \<and> int k \<le> (if mx \<le> 0 then 1 else mx) \<and>
    ReadBatch alloc buffered mx c = (Ok (take k ms), c\<lparr>cl_in := stream_of (messages_bytes (drop k ms))\<rparr>)"
proof -
  obtain m ns where ms: "ms = m # ns" using assms(3) by (cases ms) auto
  let ?mx = "if mx \<le> 0 then 1 else mx" and ?c = "c\<lparr>cl_in := stream_of (messages_bytes ns)\<rparr>"
  have first: "Subscription_Read c = (Ok m, ?c)"
    using assms(1,2,4) ms by (intro Subscription_Read_message) auto
  have "\<exists>k\<le>length ns. len [m] + int k \<le> ?mx \<and> read_more buffered ?mx [m] ?c =
      (Ok ([m] @ take k ns), ?c\<lparr>cl_in := stream_of (messages_bytes (drop k ns))\<rparr>)"
    using assms(1,4) ms by (intro read_more_messages b0) auto
  then obtain k where "k \<le> length ns" "len [m] + int k \<le> ?mx" "read_more buffered ?mx [m] ?c =
      (Ok ([m] @ take k ns), ?c\<lparr>cl_in := stream_of (messages_bytes (drop k ns))\<rparr>)" by blast
  with first assms(5) show ?thesis
    by (intro exI [of _ "Suc k"]) (auto simp: ms ReadBatch_def Let_def gbind_def)
qed

end
