(* ===== verification/Net_Lifecycle.thy ===== *)
theory Net_Lifecycle
  imports Net_Server
begin

text \<open>
  Admission and shutdown of the server under any interleaving of accepted connections, ending
  handlers and the steps of \<open>Close\<close>.
\<close>

section \<open>Configuration\<close>

lemma NewServer_eq:
  "NewServer opts =
     (let s = fold (\<lambda>opt. opt) opts \<lparr>sv_closed = False, sv_conns = [], sv_running = [], sv_cancelled = [],
        sv_shutdown = NotClosing, sv_readTimeout = defaultReadTimeout,
        sv_writeTimeout = defaultWriteTimeout, sv_maxConns = 0,
        sv_readBuffer = defaultSocketBuffer, sv_writeBuffer = defaultSocketBuffer\<rparr> in
      s\<lparr>sv_readTimeout := max 0 (sv_readTimeout s), sv_writeTimeout := max 0 (sv_writeTimeout s),
        sv_maxConns := max 0 (sv_maxConns s), sv_readBuffer := max 0 (sv_readBuffer s),
        sv_writeBuffer := max 0 (sv_writeBuffer s)\<rparr>)"
  unfolding NewServer_def Let_def by (rule server.equality) (auto simp: max_def)

text \<open>The options the package offers, as data.\<close>

datatype server_setting =
    ReadTimeout int | WriteTimeout int | MaxConns int | ReadBuffer int | WriteBuffer int

primrec setting :: "server_setting \<Rightarrow> server_option" where
  "setting (ReadTimeout d) = WithReadTimeout d"
| "setting (WriteTimeout d) = WithWriteTimeout d"
| "setting (MaxConns n) = WithMaxConns n"
| "setting (ReadBuffer n) = WithReadBuffer n"
| "setting (WriteBuffer n) = WithWriteBuffer n"

lemma setting_keeps [simp]:
  "sv_closed (setting x s) = sv_closed s" "sv_conns (setting x s) = sv_conns s"
  "sv_running (setting x s) = sv_running s" "sv_cancelled (setting x s) = sv_cancelled s"
  "sv_shutdown (setting x s) = sv_shutdown s"
  by (cases x; simp add: WithReadTimeout_def WithWriteTimeout_def WithMaxConns_def WithReadBuffer_def
      WithWriteBuffer_def)+

lemma settings_keep [simp]:
  "sv_closed (fold (\<lambda>opt. opt) (map setting xs) s) = sv_closed s"
  "sv_conns (fold (\<lambda>opt. opt) (map setting xs) s) = sv_conns s"
  "sv_running (fold (\<lambda>opt. opt) (map setting xs) s) = sv_running s"
  "sv_cancelled (fold (\<lambda>opt. opt) (map setting xs) s) = sv_cancelled s"
  "sv_shutdown (fold (\<lambda>opt. opt) (map setting xs) s) = sv_shutdown s"
  by (induction xs arbitrary: s) auto

section \<open>The invariant\<close>

definition shutdown_ok :: "server \<Rightarrow> bool" where
  "shutdown_ok s \<longleftrightarrow>
     (case sv_shutdown s of
        NotClosing \<Rightarrow> \<not> sv_closed s \<and> set (sv_conns s) \<inter> set (sv_cancelled s) = {}
      | Cancelling cs \<Rightarrow> sv_closed s \<and> set (sv_conns s) \<subseteq> set cs \<union> set (sv_cancelled s)
      | Closed \<Rightarrow> sv_closed s \<and> sv_running s = [])"

definition server_ok :: "server \<Rightarrow> bool" where
  "server_ok s \<longleftrightarrow>
     distinct (sv_conns s) \<and> set (sv_conns s) \<subseteq> set (sv_running s) \<and>
     (sv_maxConns s > 0 \<longrightarrow> len (sv_conns s) \<le> sv_maxConns s) \<and> shutdown_ok s"

lemma server_ok_New: "server_ok (NewServer (map setting xs))"
  by (auto simp: NewServer_eq Let_def server_ok_def shutdown_ok_def max_def)

lemma server_step_ok:
  assumes "server_step s s'" and ok: "server_ok s"
  shows "server_ok s'"
  using assms(1)
proof cases
  case (accept conn out a out')
  then show ?thesis
    using ok by (auto simp: Serve_conn_def server_ok_def shutdown_ok_def split: if_splits shutdown.splits)
next
  case (remove conn)
  have le: "len (removeAll conn (sv_conns s)) \<le> len (sv_conns s)"
    by (simp add: removeAll_filter_not_eq)
  have "sv_maxConns s > 0 \<longrightarrow> len (removeAll conn (sv_conns s)) \<le> sv_maxConns s"
    using le ok by (simp add: server_ok_def del: of_nat_le_iff) (meson le order_trans)
  then show ?thesis
    using remove ok
    by (auto simp: removeConn_def server_ok_def shutdown_ok_def distinct_removeAll split: shutdown.splits)
next
  case (finish conn)
  then show ?thesis
    using ok by (auto simp: handler_done_def server_ok_def shutdown_ok_def split: shutdown.splits)
next
  case begin_close
  then show ?thesis using ok by (auto simp: Close_begin_def server_ok_def shutdown_ok_def)
next
  case (cancel conn conns)
  then show ?thesis using ok by (auto simp: Close_cancel_def server_ok_def shutdown_ok_def)
next
  case end_close
  then show ?thesis using ok by (auto simp: Close_end_def server_ok_def shutdown_ok_def)
qed

lemma reachable_server_ok: "server_reachable (map setting xs) s \<Longrightarrow> server_ok s"
  by (induction rule: server_reachable.induct) (auto simp: server_ok_New server_step_ok)

text \<open>Once \<open>Close\<close> has begun no handler is started, and a finished \<open>Close\<close> is final.\<close>

lemma server_step_closed:
  assumes "server_step s s'" and "server_ok s" and "sv_closed s"
  shows "sv_closed s' \<and> set (sv_running s') \<subseteq> set (sv_running s) \<and>
    (sv_shutdown s = Closed \<longrightarrow> sv_shutdown s' = Closed)"
  using assms
  by cases (auto simp: Serve_conn_def removeConn_def handler_done_def Close_begin_def Close_cancel_def
      Close_end_def server_ok_def shutdown_ok_def split: if_splits)

text \<open>
  Progress of \<open>Close\<close>: while it is not done there is a step that brings it closer, as long as the
  handlers of cancelled connections end.
\<close>

lemma Close_progress:
  assumes "server_ok s" and "sv_shutdown s = Cancelling cs"
  shows "(\<exists>s'. server_step s s' \<and> sv_shutdown s' = Closed) \<or>
    (\<exists>s'. server_step s s' \<and> sv_shutdown s' = Cancelling (tl cs) \<and> cs \<noteq> []) \<or>
    (cs = [] \<and> set (sv_conns s) \<subseteq> set (sv_cancelled s) \<and>
       (\<exists>conn s'. server_step s s' \<and> (s' = removeConn conn s \<and> conn \<in> set (sv_conns s) \<or>
          s' = handler_done conn s \<and> conn \<in> set (sv_running s))))"
proof (cases cs)
  case (Cons c cs')
  then have "server_step s (Close_cancel s)" using assms(2) cancel by blast
  moreover have "sv_shutdown (Close_cancel s) = Cancelling cs'"
    using assms(2) Cons by (simp add: Close_cancel_def)
  ultimately show ?thesis using Cons by auto
next
  case Nil
  show ?thesis
  proof (cases "sv_running s")
    case Nil
    then have "server_step s (Close_end s)" using assms(2) \<open>cs = []\<close> end_close by blast
    then show ?thesis by (auto simp: Close_end_def)
  next
    case (Cons conn conns)
    have "set (sv_conns s) \<subseteq> set (sv_cancelled s)"
      using assms \<open>cs = []\<close> by (simp add: server_ok_def shutdown_ok_def)
    moreover have "server_step s (removeConn conn s)" if "conn \<in> set (sv_conns s)"
      using Cons by (intro remove) simp
    moreover have "server_step s (handler_done conn s)" if "conn \<notin> set (sv_conns s)"
      using Cons that by (intro finish) simp_all
    ultimately show ?thesis using \<open>cs = []\<close> Cons by (cases "conn \<in> set (sv_conns s)") auto
  qed
qed

end
