(* ===== verification/Props_Network.thy ===== *)
theory Props_Network
  imports Net_Rpc Net_Stream Net_Lifecycle
begin

text \<open>
  The properties of requests over a connection: they have the results of the broker's operations, whatever
  bytes arrive the handler stands, pipelined requests are answered in order, and errors keep their
  meaning. The client, connection and broker of the witnesses are here too.
\<close>

section \<open>A client and a server, for the witnesses\<close>

definition test_client :: client where
  "test_client = \<lparr>cl_in = [], cl_bw = new_bufw (new_conn_out None), cl_streaming = False, cl_closed = False,
     cl_closeErr = None, cl_readTimeout = 0, cl_writeTimeout = 0, cl_readBuffer = 0, cl_writeBuffer = 0\<rparr>"

definition test_conn :: hconn where
  "test_conn = \<lparr>h_in = [], h_bw = new_bufw (new_conn_out None), h_open = True\<rparr>"

definition test_broker :: "memoryLog broker" where
  "test_broker = snd (CreateTopic [97] (New [WithMaxTopics 3]))"

lemma test_client_idle: "idle test_client"
  by (simp add: idle_def test_client_def healthy_def flushed_def new_bufw_def new_conn_out_def)

lemma test_conn_sound: "sound test_conn"
  by (simp add: sound_def test_conn_def healthy_def new_bufw_def new_conn_out_def)

lemma valid_a: "valid_name [97]"
  by (simp add: valid_name_def control_def)

lemma test_broker_eq:
  "test_broker = \<lparr>b_closed = False, b_topics = [([97], 0)], b_newStore = Some memory_factory, b_calls = 1,
      b_maxTopics = 3, b_parts = [newPartition (MemLog newMemoryLog)]\<rparr>"
  by (simp add: test_broker_def New_def WithMaxTopics_def CreateTopic_def ValidateTopicName_def MaxTopicNameLen_def
      call_factory_def memory_factory_def gbind_def)

lemma test_broker_serving:
  assumes "fits_int64 n"
  shows "serving memoryLog_inv memoryLog_log n test_broker"
proof -
  have "broker_ok memoryLog_inv memoryLog_log (New [WithMaxTopics 3])" by (rule New_shape) auto
  then have "broker_ok memoryLog_inv memoryLog_log test_broker"
    unfolding test_broker_def using broker_ok_CreateTopic [OF _ prod.collapse [symmetric]] by blast
  moreover have "abs_broker memoryLog_log test_broker = Some [[97] \<mapsto> []]"
    by (auto simp: test_broker_eq abs_broker_def topic_logs_def newPartition_def)
  ultimately show ?thesis
    using assms by (auto simp: serving_def test_broker_eq spec_fits_def split: if_splits)
qed

lemma quote_bound_id: "quote_bound (\<lambda>name. name)"
  by (simp add: quote_bound_def)

section \<open>Requests over a connection\<close>

text \<open>
  C10: For a valid topic name and a payload within MaxMessage and MaxPayload, a client's \<open>Publish\<close> over a connection
  to the server has the result of the broker's \<open>Publish\<close>: the same offset, or an error in which \<open>errors.Is\<close>
  finds the same sentinel. Other arguments the client refuses by itself (C2).
\<close>

theorem client_publish_is_broker_publish:
  assumes "idle c" and "sound h" and "serving memoryLog_inv memoryLog_log 1 b" and "quote_bound quote"
    and "valid_name topic" and "len (EncodePublish topic payload) \<le> MaxPayload" and "len payload \<le> MaxMessage"
  shows "answer (fst (Client_Publish (loopback quote memoryLog_ops s h b) topic payload c)) =
    answer (fst (Broker_Publish memoryLog_ops topic payload b))"
proof -
  obtain c' where c': "Client_Publish (loopback quote memoryLog_ops s h b) topic payload c =
      (transport quote (fst (Broker_Publish memoryLog_ops topic payload b)), c')"
    using mem_rel.Client_Publish_loopback [OF assms] by blast
  obtain r b' where r: "Broker_Publish memoryLog_ops topic payload b = (r, b')" by force
  have "r \<noteq> Panic" using mem_rel.Broker_Publish_effect [OF assms(3) r] by simp
  moreover have "wire_error quote e" if "r = Fail e" for e
    using mem_rel.publish_one_wire_error [OF assms(3-5)] r that by auto
  ultimately show ?thesis
    using c' r by (cases r) (simp_all add: error_code_roundtrip wire_error_def)
qed

theorem client_publish_is_broker_publish_witness:
  "answer (fst (Client_Publish (loopback (\<lambda>name. name) memoryLog_ops (NewServer []) test_conn test_broker) [97] [1, 2] test_client)) =
    answer (fst (Broker_Publish memoryLog_ops [97] [1, 2] test_broker))"
  by (rule client_publish_is_broker_publish [OF test_client_idle test_conn_sound test_broker_serving quote_bound_id valid_a])
    (simp_all add: fits_int64_def EncodePublish_pieces MaxPayload_def MaxMessage_def)

text \<open>
  C13: An error keeps the sentinel that \<open>errors.Is\<close> finds in it when it crosses the wire as a code and a text,
  for exactly the sentinels that have a code; any other error arrives without one.
\<close>

theorem error_codes_keep_sentinels:
  "error_root (remoteError (errorCode e) msg) = (if coded (error_root e) then error_root e else None)"
  by (rule error_code_roundtrip)

section \<open>The handler of a connection\<close>

text \<open>
  C9: Whatever bytes arrive on a connection, with any faults of the connection: the handler does not panic,
  keeps the broker well formed, and its whole effect on the broker is that of the API calls encoded by a
  prefix of the frames on the connection; what it stores can be pushed to a subscriber in one frame.
\<close>

theorem handler_effect:
  assumes "serving memoryLog_inv memoryLog_log (length (h_in c)) b" and "fits_int64 (length (h_in c))"
    and "pushable (abs_broker memoryLog_log b)"
    and "handleConn quote memoryLog_ops s (c, b) = (r, (c', b'))"
  shows "r \<noteq> Panic \<and> broker_ok memoryLog_inv memoryLog_log b' \<and> pushable (abs_broker memoryLog_log b') \<and>
    (\<exists>k. abs_broker memoryLog_log b' =
       effect_of (b_maxTopics b) (take k (frames_in (h_in c))) (abs_broker memoryLog_log b))"
  using mem_rel.handleConn_ok [OF assms(1,2), of quote s] assms(3,4) pushable_effect
  by (auto simp: conn_ok_def)

definition noise :: bytes where
  "noise = frame_bytes OpPublish (EncodePublish [97] [7]) @ frame_bytes 99 [] @ [0x51, 0x4D, 2]"

theorem handler_effect_witness:
  "let out = handleConn (\<lambda>name. name) memoryLog_ops (NewServer []) (test_conn\<lparr>h_in := stream_of noise\<rparr>, test_broker) in
    fst out \<noteq> Panic \<and> broker_ok memoryLog_inv memoryLog_log (snd (snd out)) \<and>
    pushable (abs_broker memoryLog_log (snd (snd out))) \<and>
    (\<exists>k. abs_broker memoryLog_log (snd (snd out)) =
       effect_of (b_maxTopics test_broker) (take k (frames_in (h_in (test_conn\<lparr>h_in := stream_of noise\<rparr>))))
         (abs_broker memoryLog_log test_broker))"
  unfolding Let_def
proof (rule handler_effect)
  have n: "fits_int64 (length (h_in (test_conn\<lparr>h_in := stream_of noise\<rparr>)))"
    by (simp add: noise_def EncodePublish_pieces fits_int64_def)
  then show "serving memoryLog_inv memoryLog_log (length (h_in (test_conn\<lparr>h_in := stream_of noise\<rparr>))) test_broker"
    by (rule test_broker_serving)
  show "fits_int64 (length (h_in (test_conn\<lparr>h_in := stream_of noise\<rparr>)))" by (rule n)
  show "pushable (abs_broker memoryLog_log test_broker)"
    by (auto simp: pushable_def test_broker_eq abs_broker_def topic_logs_def newPartition_def split: if_splits)
qed (simp add: prod_eq_iff)

text \<open>
  C14: Pipelined requests on a sound connection are answered in order, one frame for each, and each answer is
  the result of the broker's operation in the state its predecessors left.
\<close>

theorem requests_answered_in_order:
  assumes "sound c" and "h_in c = stream_of (frames_bytes qs)"
    and "list_all (\<lambda>q. is_rpc (fst q) \<and> frame_fits q) qs" and "\<not> serve_panics fops qs b"
    and "serve_all quote fops qs b = (fs, b')" and "list_all frame_fits fs"
  shows "\<exists>c'. handleConn quote fops s (c, b) = (Ok Stop, (c', b')) \<and> sound c' \<and> h_in c' = [] \<and>
    on_wire c' = on_wire c @ frames_bytes fs"
  by (rule handleConn_serves [OF assms(1,2) _ assms(4,5)]) (use assms(3,6) in \<open>auto simp: list_all_iff\<close>)

theorem requests_answered_in_order_witness:
  "\<exists>c'. handleConn (\<lambda>name. name) memoryLog_ops (NewServer [])
      (test_conn\<lparr>h_in := stream_of (frames_bytes [(OpCreateTopic, [98]), (OpCreateTopic, [98])])\<rparr>, test_broker) =
      (Ok Stop, (c', snd (serve_all (\<lambda>name. name) memoryLog_ops [(OpCreateTopic, [98]), (OpCreateTopic, [98])] test_broker))) \<and>
    sound c' \<and> h_in c' = [] \<and>
    on_wire c' = on_wire (test_conn\<lparr>h_in := stream_of (frames_bytes [(OpCreateTopic, [98]), (OpCreateTopic, [98])])\<rparr>) @
      frames_bytes (fst (serve_all (\<lambda>name. name) memoryLog_ops [(OpCreateTopic, [98]), (OpCreateTopic, [98])] test_broker))"
proof -
  have r: "rpc memoryLog_ops OpCreateTopic [98] test_broker = (Ok [], snd (CreateTopic [98] test_broker))"
    "rpc memoryLog_ops OpCreateTopic [98] (snd (CreateTopic [98] test_broker)) =
      (fail_with ErrTopicExists, snd (CreateTopic [98] test_broker))"
    by (simp_all add: rpc_def test_broker_eq CreateTopic_def ValidateTopicName_def MaxTopicNameLen_def
        call_factory_def memory_factory_def gbind_def)
  show ?thesis
    by (rule requests_answered_in_order [where qs = "[(OpCreateTopic, [98]), (OpCreateTopic, [98])]"])
      (simp_all add: test_conn_sound r is_rpc_def frame_fits_def response_of_def MaxPayload_def
        EncodeError_def Let_def)
qed

end
