(* ===== verification/Net_Connection.thy ===== *)
theory Net_Connection
  imports Net_Handler
begin

text \<open>
  The life of a connection at the server: the handler, and what is done when it returns. A connection
  holds a subscription only while it streams, and gives it back whatever ends it.
\<close>

section \<open>The end of a connection\<close>

text \<open>The deferred calls of \<open>handleConn\<close>: the subscription of a stream is closed, and the connection.\<close>

definition end_connection :: "verdict result \<Rightarrow> hconn \<times> 'x broker \<Rightarrow> hconn \<times> 'x broker" where
  "end_connection v = (\<lambda>(c, b).
     case v of
       Ok (Streaming t sid) \<Rightarrow> (c\<lparr>h_open := False\<rparr>, snd (on_part t (Subscription_Close sid) b))
     | _ \<Rightarrow> (c\<lparr>h_open := False\<rparr>, b))"

section \<open>An invariant rule for the handler's loop\<close>

lemma handleConn_rule:
  assumes "P b"
    and more: "\<And>op p c b c1 b1. P b \<Longrightarrow>
      handle_frame quote fops s op p (c, b) = (Ok Continue, (c1, b1)) \<Longrightarrow> P b1"
    and last: "\<And>op p c b v c1 b1. P b \<Longrightarrow> v \<noteq> Ok Continue \<Longrightarrow>
      handle_frame quote fops s op p (c, b) = (v, (c1, b1)) \<Longrightarrow> Q v b1"
    and stop: "\<And>b. P b \<Longrightarrow> Q (Ok Stop) b"
    and "handleConn quote fops s (c, b) = (v, (c', b'))"
  shows "Q v b'"
  using assms(1,5)
proof (induction "length (h_in c)" arbitrary: c b rule: less_induct)
  case less
  obtain r i where rd: "ReadFrame (h_in c) = (r, i)" by force
  show ?case
  proof (cases "armRead s c")
    case False
    with less.prems stop show ?thesis by (simp add: handleConn.simps [of quote fops s c])
  next
    case True
    show ?thesis
    proof (cases r)
      case (Fail e)
      with True rd less.prems stop show ?thesis
        by (simp add: handleConn.simps [of quote fops s c] Let_def split: if_splits)
    next
      case Panic
      with rd show ?thesis by simp
    next
      case (Ok f)
      obtain op p where f: "f = (op, p)" by force
      obtain u c1 b1 where u: "handle_frame quote fops s op p (c\<lparr>h_in := i\<rparr>, b) = (u, (c1, b1))"
        by (metis prod.collapse)
      have "length (h_in c1) < length (h_in c)"
        using handle_frame_in [of quote fops s op p "(c\<lparr>h_in := i\<rparr>, b)"] u ReadFrame_shorter rd Ok by simp
      moreover have "handleConn quote fops s (c, b) =
          (if u = Ok Continue then handleConn quote fops s (c1, b1) else (u, (c1, b1)))"
        using True rd Ok f u
        by (cases u rule: outcome.exhaust; cases "\<exists>x. u = Ok x")
          (auto simp: handleConn.simps [of quote fops s c] split: verdict.splits)
      ultimately show ?thesis
        using less.hyps [of c1 b1] less.prems more [OF less.prems(1)] last [OF less.prems(1) _ u] u
        by (cases "u = Ok Continue") auto
    qed
  qed
qed

section \<open>Live subscriptions\<close>

definition live :: "'x broker \<Rightarrow> (nat \<times> nat) set" where
  "live b = {(t, sid). t < length (b_parts b) \<and> sid \<in> set (p_subs (b_parts b ! t))}"

definition subs_ok :: "'x broker \<Rightarrow> bool" where
  "subs_ok b \<longleftrightarrow> (\<forall>p\<in>set (b_parts b). \<forall>sid\<in>set (p_subs p). sid < length (p_heap p))"

definition holds :: "verdict result \<Rightarrow> (nat \<times> nat) set" where
  "holds v = (case v of Ok (Streaming t sid) \<Rightarrow> {(t, sid)} | _ \<Rightarrow> {})"

lemma holds_simps [simp]:
  "holds (Ok (Streaming t sid)) = {(t, sid)}" "holds (Ok Continue) = {}" "holds (Ok Stop) = {}"
  "holds (Fail e) = {}" "holds Panic = {}"
  by (simp_all add: holds_def)

lemma subs_okD: "subs_ok b \<Longrightarrow> t < length (b_parts b) \<Longrightarrow> sid \<in> set (p_subs (b_parts b ! t)) \<Longrightarrow>
    sid < length (p_heap (b_parts b ! t))"
  by (auto simp: subs_ok_def)

text \<open>Operations that keep the registered subscribers of every partition.\<close>

definition same_subs :: "'x broker \<Rightarrow> 'x broker \<Rightarrow> bool" where
  "same_subs b b' \<longleftrightarrow> live b' = live b \<and> (subs_ok b \<longrightarrow> subs_ok b')"

lemma same_subs_refl [simp]: "same_subs b b"
  by (simp add: same_subs_def)

lemma same_subs_part:
  assumes "p_subs p = p_subs (b_parts b ! t)" and "length (p_heap p) = length (p_heap (b_parts b ! t))"
  shows "same_subs b (b\<lparr>b_parts := (b_parts b)[t := p]\<rparr>)"
proof (cases "t < length (b_parts b)")
  case True
  then have "b_parts b ! t \<in> set (b_parts b)" by simp
  then have "subs_ok (b\<lparr>b_parts := (b_parts b)[t := p]\<rparr>)" if "subs_ok b"
    using that assms unfolding subs_ok_def by (auto dest!: set_update_subset_insert [THEN subsetD])
  moreover have "live (b\<lparr>b_parts := (b_parts b)[t := p]\<rparr>) = live b"
    using assms(1) True by (auto simp: live_def nth_list_update split: if_splits)
  ultimately show ?thesis by (simp add: same_subs_def)
qed (simp add: list_update_beyond)

lemma same_subs_CreateTopic: "same_subs b (snd (CreateTopic name b))"
proof -
  have "same_subs b (b\<lparr>b_calls := n, b_topics := ts, b_parts := b_parts b @ [newPartition st]\<rparr>)" for n ts st
    by (auto simp: same_subs_def live_def subs_ok_def newPartition_def nth_append split: if_splits)
  moreover have "same_subs b (b\<lparr>b_calls := n\<rparr>)" for n
    by (simp add: same_subs_def live_def subs_ok_def)
  ultimately show ?thesis
    by (auto simp: CreateTopic_def call_factory_def gbind_def split: outcome.splits option.splits prod.splits)
qed

lemma same_subs_at_topic:
  assumes "\<And>p. p_subs (snd (m p)) = p_subs p" and "\<And>p. length (p_heap (snd (m p))) = length (p_heap p)"
  shows "same_subs b (snd (at_topic what name m b))"
  using assms same_subs_part [of "snd (m (b_parts b ! t))" b t for t]
  by (auto simp: at_topic_def on_part_def split: outcome.splits prod.splits) (metis snd_conv)+

lemma Partition_Publish_subs:
  "p_subs (snd (Partition_Publish ops payload p)) = p_subs p"
  "length (p_heap (snd (Partition_Publish ops payload p))) = length (p_heap p)"
  "p_subs (snd (Partition_PublishBatch ops payloads p)) = p_subs p"
  "length (p_heap (snd (Partition_PublishBatch ops payloads p))) = length (p_heap p)"
  by (auto simp: Partition_Publish_def Partition_PublishBatch_def Let_def split: prod.splits outcome.splits)

lemma same_subs_publish:
  "same_subs b (snd (Broker_Publish fops name payload b))"
  "same_subs b (snd (Broker_PublishBatch fops name payloads b))"
  unfolding Broker_Publish_def Broker_PublishBatch_def
  by (rule same_subs_at_topic; rule Partition_Publish_subs)+

section \<open>Frames and subscriptions\<close>

lemma live_Subscription_Close:
  "live (snd (on_part t (Subscription_Close sid) b)) = live b - {(t, sid)}"
proof (cases "t < length (b_parts b)")
  case True
  let ?p = "b_parts b ! t"
  have "p_subs (snd (Subscription_Close sid ?p)) = removeAll sid (p_subs ?p)"
    by (auto simp: Subscription_Close_def unsubscribe_def delete_sub_def close_done_def gbind_def
        split: outcome.splits prod.splits)
  with True show ?thesis
    by (auto simp: on_part_def live_def nth_list_update split: prod.splits if_splits)
next
  case False
  then show ?thesis by (auto simp: on_part_def live_def)
qed

lemma subs_ok_Subscription_Close:
  assumes "subs_ok b"
  shows "subs_ok (snd (on_part t (Subscription_Close sid) b))"
proof (cases "t < length (b_parts b)")
  case True
  let ?p = "b_parts b ! t"
  have "set (p_subs (snd (Subscription_Close sid ?p))) \<subseteq> set (p_subs ?p)"
    "length (p_heap (snd (Subscription_Close sid ?p))) = length (p_heap ?p)"
    by (auto simp: Subscription_Close_def unsubscribe_def delete_sub_def close_done_def gbind_def
        split: outcome.splits prod.splits)
  moreover have "?p \<in> set (b_parts b)" using True by simp
  ultimately show ?thesis
    using assms True unfolding subs_ok_def
    by (auto simp: on_part_def split: prod.splits dest!: set_update_subset_insert [THEN subsetD])
qed (use assms in \<open>simp add: on_part_def\<close>)

lemma Broker_Subscribe_live:
  assumes "subs_ok b" and "Broker_Subscribe name b = (r, b')"
  shows "subs_ok b' \<and> (case r of
     Ok (t, sid) \<Rightarrow> live b' = insert (t, sid) (live b) \<and> (t, sid) \<notin> live b | _ \<Rightarrow> live b' = live b)"
proof (cases "\<exists>t. lookup_topic name b = Ok t \<and> t < length (b_parts b) \<and> \<not> p_closed (b_parts b ! t)")
  case True
  then obtain t where t: "lookup_topic name b = Ok t" "t < length (b_parts b)" "\<not> p_closed (b_parts b ! t)"
    by blast
  let ?p = "b_parts b ! t"
  let ?q = "?p\<lparr>p_heap := p_heap ?p @ [\<lparr>s_offset = 0, s_ready = False, s_done = False\<rparr>],
    p_subs := p_subs ?p @ [length (p_heap ?p)]\<rparr>"
  have r: "r = Ok (t, length (p_heap ?p))" "b' = b\<lparr>b_parts := (b_parts b)[t := ?q]\<rparr>"
    using assms(2) t by (simp_all add: Broker_Subscribe_def on_part_def gbind_def Partition_Subscribe_def Let_def)
  have old: "sid < length (p_heap ?p)" if "sid \<in> set (p_subs ?p)" for sid
    using subs_okD [OF assms(1) t(2) that] .
  have "set (b_parts b') \<subseteq> insert ?q (set (b_parts b))" by (simp add: r set_update_subset_insert)
  then have "subs_ok b'" using assms(1) old unfolding subs_ok_def by fastforce
  moreover have "live b' = insert (t, length (p_heap ?p)) (live b)"
    using t(2) unfolding r by (auto simp: live_def nth_list_update split: if_splits)
  moreover have "(t, length (p_heap ?p)) \<notin> live b" using old by (auto simp: live_def)
  ultimately show ?thesis using r by simp
next
  case False
  then have "b' = b" and "\<not> (\<exists>x. r = Ok x)"
    using assms(2)
    by (auto simp: Broker_Subscribe_def on_part_def gbind_def Partition_Subscribe_def lookup_topic_def
        split: outcome.splits if_splits option.splits)
  with assms(1) show ?thesis by (cases r) auto
qed

lemma reply_subs [simp]: "snd (snd (reply quote s op err body st)) = snd st"
  by (rule reply_broker)

lemma holds_reply [simp]: "holds (fst (reply quote s op err body st)) = {}"
  by (cases rule: reply_cases [where st = st and quote = quote and s = s and op = op and err = err and body = body])
    simp_all

text \<open>A frame leaves the subscriptions as they were, but for the one of a stream it starts.\<close>

definition keeps_subs :: "'x broker \<Rightarrow> verdict result \<times> (hconn \<times> 'x broker) \<Rightarrow> bool" where
  "keeps_subs b out \<longleftrightarrow> subs_ok (snd (snd out)) \<and>
     live (snd (snd out)) = live b \<union> holds (fst out) \<and> live b \<inter> holds (fst out) = {}"

lemma keeps_subs_result:
  assumes "subs_ok b" and "same_subs b b'"
  shows "keeps_subs b (reply_result quote s op r body (c, b'))"
  using assms by (cases r) (auto simp: keeps_subs_def reply_result_def same_subs_def)

lemma keeps_subs_reply:
  "subs_ok b \<Longrightarrow> keeps_subs b (reply quote s op err body (c, b))"
  by (simp add: keeps_subs_def)

lemma keeps_subs_subscribe:
  assumes "subs_ok b"
  shows "keeps_subs b (handle_subscribe quote s payload (c, b))"
proof -
  obtain r b1 where r: "Broker_Subscribe payload b = (r, b1)" by force
  note sub = Broker_Subscribe_live [OF assms r]
  show ?thesis
  proof (cases r)
    case (Ok tsid)
    obtain t sid where ts: "tsid = (t, sid)" by force
    obtain r2 b2 where r2: "on_part t (Subscription_Close sid) b1 = (r2, b2)" by force
    have b2: "subs_ok b2" "live b2 = live b"
      using sub subs_ok_Subscription_Close [of b1 t sid] live_Subscription_Close [of t sid b1] r2 Ok ts by auto
    show ?thesis
    proof (cases rule: reply_cases [where st = "(c, b1)" and quote = quote and s = s and op = OpSubscribe and
          err = None and body = "[]"])
      case (sent c')
      with r Ok ts sub show ?thesis by (simp add: handle_subscribe_def keeps_subs_def)
    next
      case (broken e c')
      with r Ok ts r2 b2 show ?thesis
        by (cases r2) (auto simp: handle_subscribe_def keeps_subs_def)
    qed
  next
    case (Fail e)
    with r sub show ?thesis by (simp add: handle_subscribe_def keeps_subs_def)
  next
    case Panic
    with r sub show ?thesis by (simp add: handle_subscribe_def keeps_subs_def)
  qed
qed

lemma handle_frame_subs:
  assumes ok: "subs_ok b"
  shows "keeps_subs b (handle_frame quote fops s op payload (c, b))"
proof -
  have silent: "keeps_subs b (v, (c, b'))" if "same_subs b b'" "holds v = {}" for v b'
    using that ok by (auto simp: keeps_subs_def same_subs_def)
  have "keeps_subs b (handle_create quote s payload (c, b))"
    using keeps_subs_result [OF ok same_subs_CreateTopic [of b payload]]
    by (simp add: handle_create_def split_beta)
  moreover have "keeps_subs b (handle_publish quote fops s payload (c, b))"
    using keeps_subs_result [OF ok same_subs_publish(1)] keeps_subs_reply [OF ok] silent [of b Panic]
    by (auto simp: handle_publish_def split_beta split: outcome.splits)
  moreover have "same_subs b (snd (publishBatch fops topic ms b))" for topic ms
    using same_subs_publish(2) by (auto simp: publishBatch_def)
  then have "keeps_subs b (handle_publish_batch quote fops s payload (c, b))"
    using keeps_subs_reply [OF ok] silent [of b Panic]
    by (auto simp: handle_publish_batch_def split_beta split: outcome.splits intro: keeps_subs_result [OF ok])
  moreover have "keeps_subs b (handle_publish_no_ack fops payload (c, b))"
    using silent same_subs_publish(1) [of b fops]
    by (auto simp: handle_publish_no_ack_def split: outcome.splits prod.splits) (metis snd_conv holds_simps)+
  moreover have "keeps_subs b (handle_list quote s (c, b))"
    using keeps_subs_reply [OF ok] silent [of b Panic]
    by (auto simp: handle_list_def Let_def split: outcome.splits)
  ultimately show ?thesis
    using keeps_subs_subscribe [OF ok] silent [of b "Ok Continue"]
    by (simp add: handle_frame_def)
qed

lemma handleConn_subs:
  assumes "subs_ok b" and "handleConn quote fops s (c, b) = (v, (c', b'))"
  shows "subs_ok b' \<and> live b' = live b \<union> holds v \<and> live b \<inter> holds v = {}"
proof (rule handleConn_rule [where P = "\<lambda>b'. subs_ok b' \<and> live b' = live b" and
      Q = "\<lambda>v b'. subs_ok b' \<and> live b' = live b \<union> holds v \<and> live b \<inter> holds v = {}", OF _ _ _ _ assms(2)])
  show "subs_ok b \<and> live b = live b" using assms(1) by simp
  fix op p c b0 v c1 b1
  assume b0: "subs_ok b0 \<and> live b0 = live b" and f: "handle_frame quote fops s op p (c, b0) = (v, (c1, b1))"
  have "keeps_subs b0 (v, (c1, b1))" using handle_frame_subs [of b0 quote fops s op p c] b0 f by simp
  then show "subs_ok b1 \<and> live b1 = live b \<union> holds v \<and> live b \<inter> holds v = {}"
    using b0 by (simp add: keeps_subs_def)
next
  fix op p c b0 c1 b1
  assume b0: "subs_ok b0 \<and> live b0 = live b" and f: "handle_frame quote fops s op p (c, b0) = (Ok Continue, (c1, b1))"
  have "keeps_subs b0 (Ok Continue, (c1, b1))" using handle_frame_subs [of b0 quote fops s op p c] b0 f by simp
  then show "subs_ok b1 \<and> live b1 = live b" using b0 by (simp add: keeps_subs_def)
qed simp

lemma end_connection_live: "live (snd (end_connection v (c, b))) = live b - holds v"
  by (auto simp: end_connection_def live_Subscription_Close holds_def split: outcome.splits verdict.splits)

end
