(* ===== verification/Net_Requests.thy ===== *)
theory Net_Requests
  imports Net_Rpc Net_Lifecycle
begin

text \<open>
  The phases of a client and of its connection: requests that are refused without a byte sent,
  what becomes of a request whose response is late or comes from a server that has no room,
  publishing without an acknowledgement, and listing the topics.
\<close>

section \<open>Configuration\<close>

text \<open>The options the package offers, as data.\<close>

datatype client_setting =
    ClientReadTimeout int | ClientWriteTimeout int | ClientReadBuffer int | ClientWriteBuffer int

primrec client_set :: "client_setting \<Rightarrow> client_option" where
  "client_set (ClientReadTimeout d) = WithClientReadTimeout d"
| "client_set (ClientWriteTimeout d) = WithClientWriteTimeout d"
| "client_set (ClientReadBuffer n) = WithClientReadBuffer n"
| "client_set (ClientWriteBuffer n) = WithClientWriteBuffer n"

lemma client_set_keeps [simp]:
  "cl_in (client_set x c) = cl_in c" "cl_bw (client_set x c) = cl_bw c"
  "cl_streaming (client_set x c) = cl_streaming c" "cl_closed (client_set x c) = cl_closed c"
  "cl_closeErr (client_set x c) = cl_closeErr c"
  by (cases x; simp add: WithClientReadTimeout_def WithClientWriteTimeout_def WithClientReadBuffer_def
      WithClientWriteBuffer_def)+

lemma client_sets_keep [simp]:
  "cl_in (fold (\<lambda>opt. opt) (map client_set xs) c) = cl_in c"
  "cl_bw (fold (\<lambda>opt. opt) (map client_set xs) c) = cl_bw c"
  "cl_streaming (fold (\<lambda>opt. opt) (map client_set xs) c) = cl_streaming c"
  "cl_closed (fold (\<lambda>opt. opt) (map client_set xs) c) = cl_closed c"
  "cl_closeErr (fold (\<lambda>opt. opt) (map client_set xs) c) = cl_closeErr c"
  by (induction xs arbitrary: c) auto

lemma client_tuneConn_eq:
  "client_tuneConn c =
    (if 0 < cl_readBuffer c then Some (cl_readBuffer c) else None,
     if 0 < cl_writeBuffer c then Some (cl_writeBuffer c) else None)"
  by (auto simp: client_tuneConn_def)

lemma normalise_client_eq:
  "normalise_client c = c\<lparr>cl_readTimeout := max 0 (cl_readTimeout c), cl_writeTimeout := max 0 (cl_writeTimeout c),
     cl_readBuffer := max 0 (cl_readBuffer c), cl_writeBuffer := max 0 (cl_writeBuffer c)\<rparr>"
  unfolding normalise_client_def Let_def by (rule client.equality) (auto simp: max_def)

lemma DialTimeout_eq_Ok:
  assumes "DialTimeout dial timeout opts = Ok (c, tuned)"
  obtains conn c0 where "dial (max 0 timeout) = Ok conn" "c = normalise_client (fold (\<lambda>opt. opt) opts c0)"
    "cl_bw c0 = new_bufw conn" "cl_in c0 = []" "\<not> cl_closed c0" "\<not> cl_streaming c0" "tuned = client_tuneConn c"
proof -
  have "(if timeout < 0 then 0 else timeout) = max 0 timeout" by simp
  then show thesis
    using assms unfolding DialTimeout_def Let_def by (auto simp: obind_eq_Ok intro!: that)
qed

section \<open>The sizes of a batch\<close>

lemma check_payloads_eq_Ok: "check_payloads i ps = Ok () \<longleftrightarrow> (\<forall>p\<in>set ps. len p \<le> MaxMessage)"
  by (induction ps arbitrary: i) auto

section \<open>Responses\<close>

text \<open>What an open client makes of the bytes that arrive after a request.\<close>

definition response_in :: "opcode \<Rightarrow> instream \<Rightarrow> bytes result \<times> instream" where
  "response_in op i =
     (case ReadFrame i of
        (Fail e, j) \<Rightarrow> (Fail e, j)
      | (Panic, j) \<Rightarrow> (Panic, j)
      | (Ok (respOp, body), j) \<Rightarrow>
          ((if respOp = OpError then error_frame body
            else if respOp = op then Ok body
            else Fail (unexpected_opcode respOp)), j))"

lemma read_response_open:
  assumes "\<not> cl_closed c"
  shows "read_response op c = (fst (response_in op (cl_in c)), c\<lparr>cl_in := snd (response_in op (cl_in c))\<rparr>)"
  using assms by (auto simp: read_response_def response_in_def split: prod.splits outcome.splits)

lemma response_in_frame:
  assumes "len body \<le> MaxPayload"
  shows "response_in op (stream_of (frame_bytes respOp body) @ i) =
    ((if respOp = OpError then error_frame body
      else if respOp = op then Ok body else Fail (unexpected_opcode respOp)), i)"
  using assms by (simp add: response_in_def ReadFrame_frame)

lemma response_in_fault:
  assumes "e \<noteq> EOF" and "e \<noteq> ErrUnexpectedEOF"
  shows "response_in op (Fault e # i) = (fail_with e, i)"
  using assms
  by (simp add: response_in_def ReadFrame_def ReadHeader_def HeaderLen_def gbind_def gtry_def eval_nat_numeral)

lemma error_frame_EncodeError:
  assumes "encodable msg"
  shows "error_frame (EncodeError code msg) = Fail (remoteError code msg)"
proof -
  have "DecodeError (EncodeError code msg) = Ok (code, msg)"
    using DecodeError_eq_Ok [of "EncodeError code msg" code msg] assms by auto
  then show ?thesis by (simp add: error_frame_def)
qed

lemma roundTrip_response:
  assumes "idle c" and "bufio.emits write bs" and "succeeds healthy write" and "net bs = (i, False)"
  obtains c' where "roundTripWrite net op write c = (fst (response_in op i), c'\<lparr>cl_in := snd (response_in op i)\<rparr>)"
    "idle c'" "client_sent c' = client_sent c @ bs"
proof -
  obtain c' where c': "roundTripWrite net op write c = read_response op (c'\<lparr>cl_in := i\<rparr>)" "idle c'"
    "client_sent c' = client_sent c @ bs"
    by (rule roundTrip_arrives [where net = net, OF assms])
  then show thesis
    by (intro that [of c']) (simp_all add: read_response_open idle_def)
qed

lemma Client_Publish_response:
  assumes c: "idle c" and v: "valid_name topic" and sz: "len (EncodePublish topic payload) \<le> MaxPayload"
    and small: "len payload \<le> MaxMessage"
    and net: "net (frame_bytes OpPublish (EncodePublish topic payload)) = (i, False)"
  obtains c' where "Client_Publish net topic payload c =
      (obind (fst (response_in OpPublish i)) (\<lambda>body. in_response ''network: publish response'' (UnmarshalOffset body)),
       c'\<lparr>cl_in := snd (response_in OpPublish i)\<rparr>)" "idle c'"
proof -
  have vt: "ValidateTopicName topic = Ok ()" using v ValidateTopicName_eq_Ok by simp
  obtain c' where c': "roundTripWrite net OpPublish (WritePublish bufio_write topic payload) c =
      (fst (response_in OpPublish i), c'\<lparr>cl_in := snd (response_in OpPublish i)\<rparr>)" "idle c'"
    using roundTrip_response [where net = net and op = OpPublish, OF c bufio.emits_writePublishOp [OF sz]
        succeeds_writePublishOp [where wr = bufio_write, OF succeeds_bufio(1) sz] net]
    by (auto simp: WritePublish_def)
  have "Client_Publish net topic payload c =
      (obind (fst (response_in OpPublish i)) (\<lambda>body. in_response ''network: publish response'' (UnmarshalOffset body)),
       c'\<lparr>cl_in := snd (response_in OpPublish i)\<rparr>)"
    using c'(1) c vt small
    by (cases "fst (response_in OpPublish i)") (simp_all add: Client_Publish_def gbind_def idle_def)
  with c'(2) that show thesis by simp
qed

lemma Client_CreateTopic_response:
  assumes c: "idle c" and v: "valid_name name" and net: "net (frame_bytes OpCreateTopic name) = (i, False)"
  obtains c' where "Client_CreateTopic net name c =
      (obind (fst (response_in OpCreateTopic i)) (\<lambda>_. Ok ()), c'\<lparr>cl_in := snd (response_in OpCreateTopic i)\<rparr>)"
    "idle c'"
proof -
  have vt: "ValidateTopicName name = Ok ()" using v ValidateTopicName_eq_Ok by simp
  have len: "len name \<le> MaxPayload" using v by (simp add: valid_name_def MaxPayload_def)
  obtain c' where c': "roundTripWrite net OpCreateTopic (WriteFrame bufio_write OpCreateTopic name) c =
      (fst (response_in OpCreateTopic i), c'\<lparr>cl_in := snd (response_in OpCreateTopic i)\<rparr>)" "idle c'"
    using roundTrip_response [where net = net and op = OpCreateTopic, OF c bufio.emits_WriteFrame [OF len]
        succeeds_WriteFrame [where wr = bufio_write, OF succeeds_bufio(1) len] net] by blast
  have "Client_CreateTopic net name c =
      (obind (fst (response_in OpCreateTopic i)) (\<lambda>_. Ok ()), c'\<lparr>cl_in := snd (response_in OpCreateTopic i)\<rparr>)"
    using c'(1) c vt
    by (cases "fst (response_in OpCreateTopic i)") (simp_all add: Client_CreateTopic_def roundTrip_def gbind_def idle_def)
  with c'(2) that show thesis by simp
qed

lemma Client_PublishBatch_response:
  assumes c: "idle c" and v: "valid_name topic" and sz: "len (EncodePublishBatch topic payloads) \<le> MaxPayload"
    and ne: "payloads \<noteq> []" and small: "\<forall>p\<in>set payloads. len p \<le> MaxMessage"
    and net: "net (frame_bytes OpPublishBatch (EncodePublishBatch topic payloads)) = (i, False)"
    and err: "fst (response_in OpPublishBatch i) = Fail e"
  shows "fst (Client_PublishBatch net topic payloads c) = Fail e"
proof -
  have vt: "ValidateTopicName topic = Ok ()" "check_payloads 0 payloads = Ok ()"
    using v ValidateTopicName_eq_Ok small by (simp_all add: check_payloads_eq_Ok)
  obtain c' where "roundTripWrite net OpPublishBatch (WritePublishBatch bufio_write topic payloads) c =
      (fst (response_in OpPublishBatch i), c'\<lparr>cl_in := snd (response_in OpPublishBatch i)\<rparr>)"
    using roundTrip_response [where net = net and op = OpPublishBatch, OF c bufio.emits_WritePublishBatch [OF sz]
        succeeds_WritePublishBatch [where wr = bufio_write, OF succeeds_bufio(1) sz] net] by blast
  then show ?thesis
    using c vt ne err by (simp add: Client_PublishBatch_def gbind_def idle_def)
qed

lemma Client_ListTopics_response:
  assumes c: "idle c" and net: "net (frame_bytes OpListTopics []) = (i, False)"
  obtains c' where "Client_ListTopics net c =
      (obind (fst (response_in OpListTopics i)) (\<lambda>body. in_response ''network: list topics response'' (DecodeTopics body)),
       c'\<lparr>cl_in := snd (response_in OpListTopics i)\<rparr>)" "idle c'"
    "client_sent c' = client_sent c @ frame_bytes OpListTopics []"
proof -
  have len: "len ([] :: bytes) \<le> MaxPayload" by (simp add: MaxPayload_def)
  obtain c' where c': "roundTripWrite net OpListTopics (WriteFrame bufio_write OpListTopics []) c =
      (fst (response_in OpListTopics i), c'\<lparr>cl_in := snd (response_in OpListTopics i)\<rparr>)" "idle c'"
    "client_sent c' = client_sent c @ frame_bytes OpListTopics []"
    using roundTrip_response [where net = net and op = OpListTopics, OF c bufio.emits_WriteFrame [OF len]
        succeeds_WriteFrame [where wr = bufio_write, OF succeeds_bufio(1) len] net] by blast
  have "Client_ListTopics net c =
      (obind (fst (response_in OpListTopics i)) (\<lambda>body. in_response ''network: list topics response'' (DecodeTopics body)),
       c'\<lparr>cl_in := snd (response_in OpListTopics i)\<rparr>)"
    using c'(1) c
    by (cases "fst (response_in OpListTopics i)") (simp_all add: Client_ListTopics_def roundTrip_def gbind_def idle_def)
  with c'(2,3) that show thesis by simp
qed

lemma Client_Subscribe_response:
  assumes c: "idle c" and v: "valid_name topic" and net: "net (frame_bytes OpSubscribe topic) = (i, False)"
  obtains c' where "Client_Subscribe net topic c =
      (obind (fst (response_in OpSubscribe i)) (\<lambda>_. Ok ()),
       c'\<lparr>cl_in := snd (response_in OpSubscribe i),
          cl_streaming := (\<exists>body. fst (response_in OpSubscribe i) = Ok body)\<rparr>)" "idle c'"
    "client_sent c' = client_sent c @ frame_bytes OpSubscribe topic"
proof -
  have vt: "ValidateTopicName topic = Ok ()" using v ValidateTopicName_eq_Ok by simp
  have len: "len topic \<le> MaxPayload" using v by (simp add: valid_name_def MaxPayload_def)
  have open': "\<not> cl_closed c" "\<not> cl_streaming c" using c by (auto simp: idle_def)
  obtain c' where c': "roundTripWrite net OpSubscribe (WriteFrame bufio_write OpSubscribe topic) c =
      (fst (response_in OpSubscribe i), c'\<lparr>cl_in := snd (response_in OpSubscribe i)\<rparr>)" "idle c'"
    "client_sent c' = client_sent c @ frame_bytes OpSubscribe topic"
    using roundTrip_response [where net = net and op = OpSubscribe, OF c bufio.emits_WriteFrame [OF len]
        succeeds_WriteFrame [where wr = bufio_write, OF succeeds_bufio(1) len] net] by blast
  then have off: "\<not> cl_streaming c'" by (simp add: idle_def)
  have "Client_Subscribe net topic c =
      (obind (fst (response_in OpSubscribe i)) (\<lambda>_. Ok ()),
       c'\<lparr>cl_in := snd (response_in OpSubscribe i),
          cl_streaming := (\<exists>body. fst (response_in OpSubscribe i) = Ok body)\<rparr>)"
    using c'(1) open' vt off
    by (cases "fst (response_in OpSubscribe i)") (simp_all add: Client_Subscribe_def gbind_def roundTripWrite_def)
  with c'(2,3) that show thesis by blast
qed

lemma Client_Subscribe_accepted:
  assumes c: "idle c" and v: "valid_name topic"
    and net: "net (frame_bytes OpSubscribe topic) = (stream_of (frame_bytes OpSubscribe []) @ i, False)"
  obtains c' where "Client_Subscribe net topic c = (Ok (), c')" "\<not> cl_closed c'" "cl_streaming c'" "cl_in c' = i"
proof -
  have "response_in OpSubscribe (stream_of (frame_bytes OpSubscribe []) @ i) = (Ok [], i)"
    by (simp add: response_in_frame MaxPayload_def opcode_defs)
  then obtain c' where "Client_Subscribe net topic c = (Ok (), c'\<lparr>cl_in := i, cl_streaming := True\<rparr>)" "idle c'"
    using Client_Subscribe_response [where net = net, OF assms] by auto
  then show thesis by (intro that) (auto simp: idle_def)
qed

section \<open>A server without room\<close>

definition overloaded_text :: gostring where
  "overloaded_text = ascii ''network: too many connections''"

lemma Serve_conn_overloaded:
  assumes "\<not> sv_closed s" and "0 < sv_maxConns s" and "sv_maxConns s \<le> len (sv_conns s)"
  shows "Serve_conn conn (new_conn_out None) s =
    (Refused_overloaded, \<lparr>co_sent = frame_bytes OpError (EncodeError CodeOverloaded overloaded_text), co_fault = None\<rparr>,
     s\<lparr>sv_cancelled := conn # sv_cancelled s\<rparr>)"
proof -
  have "len (EncodeError CodeOverloaded overloaded_text) \<le> MaxPayload"
    by (simp add: EncodeError_def Let_def overloaded_text_def MaxPayload_def)
  then show ?thesis
    using assms by (simp add: Serve_conn_def WriteFrame_eq conn_write_def new_conn_out_def overloaded_text_def)
qed

lemma overloaded_response:
  "response_in op (stream_of (frame_bytes OpError (EncodeError CodeOverloaded overloaded_text))) =
    (Fail (remoteError CodeOverloaded overloaded_text), [])"
  using response_in_frame [of "EncodeError CodeOverloaded overloaded_text" op OpError "[]"]
    error_frame_EncodeError [of overloaded_text CodeOverloaded]
  by (simp add: EncodeError_def Let_def overloaded_text_def MaxPayload_def encodable_def)

section \<open>A late response\<close>

text \<open>
  The read of a response fails, say by a timeout, and the client stays open: what arrives next is
  taken for the response of the next request.
\<close>

lemma late_response:
  assumes c: "idle c" and v: "valid_name topic"
    and sz: "len (EncodePublish topic p1) \<le> MaxPayload" "len p1 \<le> MaxMessage"
      "len (EncodePublish topic p2) \<le> MaxPayload" "len p2 \<le> MaxMessage"
    and net1: "net1 (frame_bytes OpPublish (EncodePublish topic p1)) = ([Fault (IOError n)], False)"
    and net2: "net2 (frame_bytes OpPublish (EncodePublish topic p2)) =
      (stream_of (frame_bytes OpPublish (MarshalOffset off1) @ frame_bytes OpPublish (MarshalOffset off2)), False)"
  obtains c1 c2 where "Client_Publish net1 topic p1 c = (fail_with (IOError n), c1)" "idle c1"
    "Client_Publish net2 topic p2 c1 = (Ok off1, c2)"
proof -
  obtain c1 where c1: "Client_Publish net1 topic p1 c =
      (obind (fst (response_in OpPublish [Fault (IOError n)]))
        (\<lambda>body. in_response ''network: publish response'' (UnmarshalOffset body)),
       c1\<lparr>cl_in := snd (response_in OpPublish [Fault (IOError n)])\<rparr>)" "idle c1"
    by (rule Client_Publish_response [where net = net1, OF c v sz(1,2) net1])
  have "c1\<lparr>cl_in := []\<rparr> = c1" using c1(2) by (simp add: idle_def)
  then have r1: "Client_Publish net1 topic p1 c = (fail_with (IOError n), c1)"
    using c1(1) by (simp add: response_in_fault)
  have off: "UnmarshalOffset (MarshalOffset off1) = Ok off1"
    using UnmarshalOffset_eq_Ok [of "MarshalOffset off1" off1] by auto
  let ?i = "stream_of (frame_bytes OpPublish (MarshalOffset off1) @ frame_bytes OpPublish (MarshalOffset off2))"
  obtain c2 where "Client_Publish net2 topic p2 c1 =
      (obind (fst (response_in OpPublish ?i)) (\<lambda>body. in_response ''network: publish response'' (UnmarshalOffset body)),
       c2\<lparr>cl_in := snd (response_in OpPublish ?i)\<rparr>)"
    by (rule Client_Publish_response [where net = net2, OF c1(2) v sz(3,4) net2])
  moreover have "len (MarshalOffset off1) \<le> MaxPayload" by (simp add: MarshalOffset_def MaxPayload_def)
  then have "fst (response_in OpPublish ?i) = Ok (MarshalOffset off1)"
    by (simp add: response_in_frame opcode_defs)
  ultimately show thesis using r1 c1(2) off that by (simp add: in_response_def)
qed

section \<open>Publishing without an acknowledgement\<close>

lemma PublishAsync_sends:
  assumes c: "idle c" and v: "valid_name topic" and sz: "len (EncodePublish topic payload) \<le> MaxPayload"
    and small: "len payload \<le> MaxMessage"
  obtains c' where "PublishAsync closing topic payload c =
      (if closing then fail_with ErrClientClosed else Ok (), c')"
    "client_sent c' = client_sent c @ frame_bytes OpPublishNoAck (EncodePublish topic payload)" "cl_in c' = cl_in c"
    "\<not> closing \<Longrightarrow> idle c'"
proof -
  have vt: "ValidateTopicName topic = Ok ()" using v ValidateTopicName_eq_Ok by simp
  have h: "healthy (cl_bw c)" "\<not> cl_closed c" "\<not> cl_streaming c" using c by (auto simp: idle_def)
  let ?req = "WritePublishNoAck bufio_write topic payload"
  obtain w where w: "?req (cl_bw c) = (Ok (), w)" "healthy w"
    using succeedsD [OF succeeds_writePublishOp [where wr = bufio_write, OF succeeds_bufio(1) sz] h(1)]
    by (auto simp: WritePublishNoAck_def)
  obtain w' where w': "bufio_flush w = (Ok (), w')" "healthy w'" using succeedsD [OF succeeds_bufio(2) w(2)] by blast
  have "bufw_sent w = bufw_sent (cl_bw c) @ frame_bytes OpPublishNoAck (EncodePublish topic payload)"
    using bufio.emits_ok [OF bufio.emits_writePublishOp [OF sz]] w(1) by (auto simp: WritePublishNoAck_def)
  moreover have "bufw_sent w' = bufw_sent w" "bw_buf w' = []"
    using bufio_flush_sent [of w] bufio_flush_Ok [OF w'(1)] w' by simp_all
  moreover have "PublishAsync closing topic payload c =
      (if closing then fail_with ErrClientClosed else Ok (), c\<lparr>cl_bw := w', cl_closed := cl_closed c \<or> closing\<rparr>)"
    using h vt small w(1) w'
    by (simp add: PublishAsync_def write_request_def flush_async_def gbind_def opErr_def)
  ultimately show thesis
    using c w'(2)
    by (intro that [of "c\<lparr>cl_bw := w', cl_closed := cl_closed c \<or> closing\<rparr>"])
      (simp_all add: client_sent_def idle_def flushed_def)
qed

context reliable_user_store
begin

lemma handleConn_no_ack:
  assumes h: "sound h" and hin: "h_in h = stream_of (frame_bytes OpPublishNoAck (EncodePublish topic payload))"
    and b: "serving finv flog 1 b" and v: "valid_name topic"
    and sz: "len (EncodePublish topic payload) \<le> MaxPayload" and small: "len payload \<le> MaxMessage"
  shows "\<exists>h'. handleConn quote fops s (h, b) = (Ok Stop, (h', snd (Broker_Publish fops topic payload b))) \<and>
    on_wire h' = on_wire h \<and> sound h'"
proof -
  obtain r b' where r: "Broker_Publish fops topic payload b = (r, b')" by force
  have np: "r \<noteq> Panic" using Broker_Publish_effect [OF b r] by simp
  have "encodable topic" "encodable payload"
    using v small by (simp_all add: valid_name_def encodable_def MaxMessage_def MaxPayload_def)
  then have "DecodePublish (EncodePublish topic payload) = Ok (topic, payload)"
    using DecodePublish_eq_Ok by (metis append_Nil2)
  then have "handle_frame quote fops s OpPublishNoAck (EncodePublish topic payload) (h\<lparr>h_in := []\<rparr>, b) =
      (Ok Continue, (h\<lparr>h_in := []\<rparr>, b'))"
    using r np small by (cases r) (simp_all add: handle_frame_def opcode_defs handle_publish_no_ack_def)
  then have "handleConn quote fops s (h, b) = handleConn quote fops s (h\<lparr>h_in := []\<rparr>, b')"
    using hin by (intro handleConn_step [OF h _ sz]) auto
  also have "\<dots> = (Ok Stop, (h\<lparr>h_in := []\<rparr>, b'))" by (rule handleConn_eof) (use h in auto)
  finally show ?thesis using r h by auto
qed

end

section \<open>Listing the topics\<close>

lemma wire_error_list:
  "wire_error quote topics_too_large"
  "wire_error quote (Wrap (Prefix (ascii ''broker: list topics'')) (Sentinel ErrClosed))"
  by (simp_all add: wire_error_def coded_def topics_too_large_def MaxPayload_def decimal.simps)

definition list_result :: "'x broker \<Rightarrow> gostring list result" where
  "list_result b =
     (case ListTopics b of
        Ok names \<Rightarrow> if len (EncodeTopics names) > MaxPayload then Fail topics_too_large else Ok names
      | Fail e \<Rightarrow> Fail e
      | Panic \<Rightarrow> Panic)"

lemma list_result_cases:
  obtains (ok) names where "list_result b = Ok names" "len (EncodeTopics names) \<le> MaxPayload"
      "ListTopics b = Ok names"
  | (fail) e where "list_result b = Fail e" "\<And>quote. wire_error quote e"
proof (cases "b_closed b")
  case True
  then have "list_result b = Fail (Wrap (Prefix (ascii ''broker: list topics'')) (Sentinel ErrClosed))"
    by (simp add: list_result_def ListTopics_def)
  then show thesis by (rule fail) (rule wire_error_list(2))
next
  case False
  then have l: "ListTopics b = Ok (sort (map fst (b_topics b)))" by (simp add: ListTopics_def)
  show thesis
  proof (cases "len (EncodeTopics (sort (map fst (b_topics b)))) \<le> MaxPayload")
    case True
    with l show thesis by (intro ok) (simp_all add: list_result_def)
  next
    case False
    with l have "list_result b = Fail topics_too_large" by (simp add: list_result_def)
    then show thesis by (rule fail) (rule wire_error_list(1))
  qed
qed

lemma rpc_list: "rpc fops OpListTopics [] b = (map_ok EncodeTopics (list_result b), b)"
  by (cases "ListTopics b") (auto simp: rpc_def list_result_def opcode_defs)

lemma EncodeTopics_encodable:
  assumes "len (EncodeTopics names) \<le> MaxPayload"
  shows "encodable_list names"
proof -
  have "len n + 4 \<le> MaxPayload" if "n \<in> set names" for n
    using assms message_in_blocks [OF that] by (simp add: Encode_eqs counted_def)
  moreover have "4 * len names \<le> MaxPayload"
    using assms length_blocks [of names] by (simp add: Encode_eqs counted_def)
  ultimately show ?thesis
    by (fastforce simp: encodable_list_def encodable_def MaxPayload_def)
qed

lemma Client_ListTopics_loopback:
  assumes c: "idle c" and h: "sound h"
  obtains c' where "Client_ListTopics (loopback quote fops s h b) c = (transport quote (list_result b), c')" "idle c'"
    "client_sent c' = client_sent c @ frame_bytes OpListTopics []" "serves quote fops OpListTopics [] b b"
proof -
  let ?r = "map_ok EncodeTopics (list_result b)" and ?net = "loopback quote fops s h b"
  let ?i = "stream_of (case_prod frame_bytes (response_of quote OpListTopics ?r))"
  have r: "?r \<noteq> Panic" by (cases rule: list_result_cases [of b]) auto
  have fits: "frame_fits (response_of quote OpListTopics ?r)"
    by (cases rule: list_result_cases [of b]) (auto intro!: response_fits_wire)
  have net: "?net (frame_bytes OpListTopics []) = (?i, False)"
    by (rule loopback_serves [OF h _ _ rpc_list r fits]) (simp_all add: is_rpc_def MaxPayload_def)
  obtain c' where c': "Client_ListTopics ?net c =
      (obind (fst (response_in OpListTopics ?i)) (\<lambda>body. in_response ''network: list topics response'' (DecodeTopics body)),
       c'\<lparr>cl_in := snd (response_in OpListTopics ?i)\<rparr>)" "idle c'"
    "client_sent c' = client_sent c @ frame_bytes OpListTopics []"
    by (rule Client_ListTopics_response [where net = ?net, OF c net])
  have "read_response OpListTopics (c'\<lparr>cl_in := ?i\<rparr>) = (transport quote ?r, c'\<lparr>cl_in := ?i\<rparr>\<lparr>cl_in := []\<rparr>)"
    by (rule read_response_response [OF r _ fits]) (simp_all add: opcode_defs)
  then have i: "fst (response_in OpListTopics ?i) = transport quote ?r"
    "c'\<lparr>cl_in := snd (response_in OpListTopics ?i)\<rparr> = c'\<lparr>cl_in := []\<rparr>"
    using c'(2) by (simp_all add: read_response_open idle_def)
  have "c'\<lparr>cl_in := []\<rparr> = c'" using c'(2) by (simp add: idle_def)
  moreover have "obind (transport quote ?r) (\<lambda>body. in_response ''network: list topics response'' (DecodeTopics body)) =
      transport quote (list_result b)"
  proof (cases rule: list_result_cases [of b])
    case (ok names)
    then have "DecodeTopics (EncodeTopics names) = Ok names"
      using DecodeTopics_eq_Ok EncodeTopics_encodable by (metis append_Nil2)
    with ok show ?thesis by (simp add: in_response_def)
  qed simp
  moreover have "serves quote fops OpListTopics [] b b"
    by (cases rule: list_result_cases [of b]) (auto simp: serves_def is_rpc_def rpc_list responds_def MaxPayload_def)
  ultimately show thesis using c' i by (intro that [of c']) simp_all
qed

end
