(* ===== verification/Props_Server.thy ===== *)
theory Props_Server
  imports Props_Network Net_Connection Net_Requests
begin

text \<open>
  The properties of the server apart from its requests: admission of connections and the limit on
  them, shutdown, what a refused client is told, the configuration, and that a connection does not
  leave a subscription behind.
\<close>

section \<open>Admission and shutdown\<close>

lemma server_step_maxConns: "server_step s s' \<Longrightarrow> sv_maxConns s' = sv_maxConns s"
  by (erule server_stepE)
    (auto simp: Serve_conn_def removeConn_def handler_done_def Close_begin_def Close_cancel_def Close_end_def
      split: if_splits shutdown.splits list.splits)

lemma reachable_maxConns: "server_reachable opts s \<Longrightarrow> sv_maxConns s = sv_maxConns (NewServer opts)"
  by (induction rule: server_reachable.induct) (simp_all add: server_step_maxConns)

lemma NewServer_nonneg:
  "0 \<le> sv_readTimeout (NewServer opts)" "0 \<le> sv_writeTimeout (NewServer opts)" "0 \<le> sv_maxConns (NewServer opts)"
  "0 \<le> sv_readBuffer (NewServer opts)" "0 \<le> sv_writeBuffer (NewServer opts)"
  by (simp_all add: NewServer_eq Let_def)

text \<open>
  C23: In every state that accepted connections, ending handlers and \<open>Close\<close> can reach, whatever the options:
  a registered connection has a running handler, their number is within \<open>maxConns\<close>, and how far
  \<open>Close\<close> has come is reflected: nothing is missed between its snapshot and its wait, and when it is done
  no handler runs.
\<close>

theorem server_admission_and_shutdown:
  assumes "server_reachable (map setting xs) s"
  shows "distinct (sv_conns s) \<and> set (sv_conns s) \<subseteq> set (sv_running s) \<and>
    (if sv_maxConns s = 0 then 0 \<le> len (sv_conns s) else len (sv_conns s) \<le> sv_maxConns s) \<and>
    (case sv_shutdown s of
       NotClosing \<Rightarrow> \<not> sv_closed s
     | Cancelling cs \<Rightarrow> sv_closed s \<and> set (sv_conns s) \<subseteq> set cs \<union> set (sv_cancelled s)
     | Closed \<Rightarrow> sv_closed s \<and> sv_conns s = [] \<and> sv_running s = [])"
proof -
  have ok: "server_ok s" by (rule reachable_server_ok [OF assms])
  have "0 \<le> sv_maxConns s" using reachable_maxConns [OF assms] NewServer_nonneg(3) by simp
  with ok show ?thesis by (auto simp: server_ok_def shutdown_ok_def split: shutdown.splits)
qed

definition limited :: server where
  "limited = NewServer (map setting [MaxConns 1])"

definition admitted :: server where
  "admitted = snd (snd (Serve_conn 7 (new_conn_out None) limited))"

lemma limited_eq: "limited = \<lparr>sv_closed = False, sv_conns = [], sv_running = [], sv_cancelled = [],
    sv_shutdown = NotClosing, sv_readTimeout = defaultReadTimeout, sv_writeTimeout = defaultWriteTimeout,
    sv_maxConns = 1, sv_readBuffer = defaultSocketBuffer, sv_writeBuffer = defaultSocketBuffer\<rparr>"
  by (simp add: limited_def NewServer_def WithMaxConns_def defaultReadTimeout_def defaultWriteTimeout_def
      defaultSocketBuffer_def Let_def)

lemma admitted_eq: "admitted = limited\<lparr>sv_conns := [7], sv_running := [7]\<rparr>"
  by (simp add: admitted_def limited_eq Serve_conn_def)

lemma admitted_reachable: "server_reachable (map setting [MaxConns 1]) admitted"
proof (rule server_reachable.step [OF server_reachable.start])
  show "server_step (NewServer (map setting [MaxConns 1])) admitted"
    unfolding limited_def [symmetric]
    by (rule server_step.accept [where conn = 7 and out = "new_conn_out None"])
      (simp_all add: limited_eq admitted_def Serve_conn_def)
qed

theorem server_admission_and_shutdown_witness:
  "distinct (sv_conns admitted) \<and> set (sv_conns admitted) \<subseteq> set (sv_running admitted) \<and>
    (if sv_maxConns admitted = 0 then 0 \<le> len (sv_conns admitted) else len (sv_conns admitted) \<le> sv_maxConns admitted) \<and>
    (case sv_shutdown admitted of
       NotClosing \<Rightarrow> \<not> sv_closed admitted
     | Cancelling cs \<Rightarrow> sv_closed admitted \<and> set (sv_conns admitted) \<subseteq> set cs \<union> set (sv_cancelled admitted)
     | Closed \<Rightarrow> sv_closed admitted \<and> sv_conns admitted = [] \<and> sv_running admitted = [])"
  by (rule server_admission_and_shutdown [OF admitted_reachable])

lemma server_steps_ok: "server_step\<^sup>*\<^sup>* s s' \<Longrightarrow> server_ok s \<Longrightarrow> server_ok s'"
  by (induction rule: rtranclp.induct) (auto intro: server_step_ok)

lemma server_steps_closed:
  assumes "server_step\<^sup>*\<^sup>* s s'" and "server_ok s" and "sv_closed s"
  shows "sv_closed s' \<and> set (sv_running s') \<subseteq> set (sv_running s) \<and>
    (sv_shutdown s = Closed \<longrightarrow> sv_shutdown s' = Closed)"
  using assms
proof (induction rule: rtranclp.induct)
  case (rtrancl_into_rtrancl a b c)
  then show ?case
    using server_step_closed [of b c] server_steps_ok [of a b] by auto
qed auto

text \<open>The rest of a \<open>Close\<close>: cancel the connections of the snapshot, let their handlers end, and return.\<close>

lemma Close_cancels:
  "sv_shutdown s = Cancelling cs \<Longrightarrow>
     \<exists>s'. server_step\<^sup>*\<^sup>* s s' \<and> sv_shutdown s' = Cancelling []"
proof (induction cs arbitrary: s)
  case (Cons c cs)
  have "server_step s (Close_cancel s)" using Cons.prems by (rule server_step.cancel)
  moreover have "sv_shutdown (Close_cancel s) = Cancelling cs" using Cons.prems by (simp add: Close_cancel_def)
  ultimately show ?case using Cons.IH by (meson converse_rtranclp_into_rtranclp)
qed auto

lemma handlers_end:
  "sv_shutdown s = Cancelling [] \<Longrightarrow>
     \<exists>s'. server_step\<^sup>*\<^sup>* s s' \<and> sv_shutdown s' = Cancelling [] \<and> sv_running s' = []"
proof (induction "length (sv_running s)" arbitrary: s rule: less_induct)
  case less
  show ?case
  proof (cases "sv_running s")
    case (Cons conn conns)
    let ?s1 = "removeConn conn s"
    let ?s2 = "handler_done conn ?s1"
    have "server_step s ?s1" using Cons by (intro server_step.remove) simp
    moreover have "server_step ?s1 ?s2"
      using Cons by (intro server_step.finish) (simp_all add: removeConn_def)
    moreover have "length (sv_running ?s2) < length (sv_running s)" "sv_shutdown ?s2 = Cancelling []"
      using Cons less.prems by (auto simp: removeConn_def handler_done_def le_imp_less_Suc)
    ultimately show ?thesis using less.hyps [of ?s2] by (meson converse_rtranclp_into_rtranclp)
  qed (use less.prems in auto)
qed

text \<open>
  C29: Once \<open>Close\<close> has begun no handler is started any more and a \<open>Close\<close> that is done stays done; and a
  \<open>Close\<close> can always be brought to its end from where it is, by its own steps and those of ending
  handlers.
\<close>

theorem close_is_final_and_can_finish:
  assumes "server_reachable (map setting xs) s" and "sv_closed s" and "server_step\<^sup>*\<^sup>* s s'"
  shows "sv_closed s' \<and> set (sv_running s') \<subseteq> set (sv_running s) \<and>
    (\<exists>s2. server_step\<^sup>*\<^sup>* s' s2 \<and> sv_shutdown s2 = Closed \<and> sv_running s2 = [])"
proof -
  have ok: "server_ok s" "server_ok s'"
    using reachable_server_ok [OF assms(1)] server_steps_ok [OF assms(3)] by auto
  have cl: "sv_closed s'" "set (sv_running s') \<subseteq> set (sv_running s)"
    using server_steps_closed [OF assms(3) ok(1) assms(2)] by auto
  have "\<exists>s2. server_step\<^sup>*\<^sup>* s' s2 \<and> sv_shutdown s2 = Closed \<and> sv_running s2 = []"
  proof (cases "sv_shutdown s'")
    case NotClosing
    then show ?thesis using ok(2) cl(1) by (simp add: server_ok_def shutdown_ok_def)
  next
    case (Cancelling cs)
    obtain s1 s2 where "server_step\<^sup>*\<^sup>* s' s1" "server_step\<^sup>*\<^sup>* s1 s2"
      and s2: "sv_shutdown s2 = Cancelling []" "sv_running s2 = []"
      using Close_cancels [OF Cancelling] handlers_end by blast
    moreover have "server_step s2 (Close_end s2)" using s2 by (rule server_step.end_close)
    ultimately show ?thesis using s2 by (intro exI [of _ "Close_end s2"]) (auto simp: Close_end_def)
  next
    case Closed
    then show ?thesis using ok(2) by (auto simp: server_ok_def shutdown_ok_def)
  qed
  with cl show ?thesis by simp
qed

theorem close_is_final_and_can_finish_witness:
  "sv_closed (Close_begin admitted) \<and> set (sv_running (Close_begin admitted)) \<subseteq> set (sv_running (Close_begin admitted)) \<and>
    (\<exists>s2. server_step\<^sup>*\<^sup>* (Close_begin admitted) s2 \<and> sv_shutdown s2 = Closed \<and> sv_running s2 = [])"
proof (rule close_is_final_and_can_finish)
  show "server_reachable (map setting [MaxConns 1]) (Close_begin admitted)"
    by (rule server_reachable.step [OF admitted_reachable], rule server_step.begin_close)
      (simp add: admitted_eq limited_eq)
qed (simp_all add: Close_begin_def)

section \<open>Refused connections\<close>

text \<open>
  C30: A connection over the limit is not registered and gets no handler; whichever of the five requests that
  wait for an answer its client sends, with arguments that pass the client's own checks, it is told by
  an error in which \<open>errors.Is\<close> finds ErrOverloaded. (\<open>PublishAsync\<close> waits for no answer.)
\<close>

theorem overloaded_client_is_told:
  assumes "\<not> sv_closed s" and "0 < sv_maxConns s" and "sv_maxConns s \<le> len (sv_conns s)"
    and "Serve_conn conn (new_conn_out None) s = (a, out, s')"
    and "idle c" and "valid_name topic" and "len (EncodePublish topic payload) \<le> MaxPayload" and "len payload \<le> MaxMessage"
    and "payloads \<noteq> []" and "list_all (\<lambda>p. len p \<le> MaxMessage) payloads"
    and "len (EncodePublishBatch topic payloads) \<le> MaxPayload"
  shows "a = Refused_overloaded \<and> sv_conns s' = sv_conns s \<and> sv_running s' = sv_running s \<and>
    answer (fst (Client_CreateTopic (\<lambda>bs. (stream_of (co_sent out), False)) topic c)) = Fail (Some ErrOverloaded) \<and>
    answer (fst (Client_Publish (\<lambda>bs. (stream_of (co_sent out), False)) topic payload c)) = Fail (Some ErrOverloaded) \<and>
    answer (fst (Client_PublishBatch (\<lambda>bs. (stream_of (co_sent out), False)) topic payloads c)) = Fail (Some ErrOverloaded) \<and>
    answer (fst (Client_Subscribe (\<lambda>bs. (stream_of (co_sent out), False)) topic c)) = Fail (Some ErrOverloaded) \<and>
    answer (fst (Client_ListTopics (\<lambda>bs. (stream_of (co_sent out), False)) c)) = Fail (Some ErrOverloaded)"
proof -
  let ?i = "stream_of (frame_bytes OpError (EncodeError CodeOverloaded overloaded_text))"
  let ?net = "\<lambda>bs. (?i, False)"
  have out: "a = Refused_overloaded" "co_sent out = frame_bytes OpError (EncodeError CodeOverloaded overloaded_text)"
    "sv_conns s' = sv_conns s" "sv_running s' = sv_running s"
    using Serve_conn_overloaded [OF assms(1-3)] assms(4) by auto
  have root: "error_root (remoteError CodeOverloaded overloaded_text) = Some ErrOverloaded"
    by (simp add: remoteError_def code_defs)
  have "answer (fst (Client_CreateTopic ?net topic c)) = Fail (Some ErrOverloaded)"
    by (rule Client_CreateTopic_response [where net = ?net, OF assms(5,6) HOL.refl]) (simp add: overloaded_response root)
  moreover have "answer (fst (Client_Publish ?net topic payload c)) = Fail (Some ErrOverloaded)"
    by (rule Client_Publish_response [where net = ?net, OF assms(5-8) HOL.refl]) (simp add: overloaded_response root)
  moreover have "fst (Client_PublishBatch ?net topic payloads c) = Fail (remoteError CodeOverloaded overloaded_text)"
    by (rule Client_PublishBatch_response [where net = ?net, OF assms(5,6,11,9) _ HOL.refl])
      (use assms(10) in \<open>simp_all add: overloaded_response list_all_iff\<close>)
  moreover have "answer (fst (Client_Subscribe ?net topic c)) = Fail (Some ErrOverloaded)"
    by (rule Client_Subscribe_response [where net = ?net, OF assms(5,6) HOL.refl]) (simp add: overloaded_response root)
  moreover have "answer (fst (Client_ListTopics ?net c)) = Fail (Some ErrOverloaded)"
    by (rule Client_ListTopics_response [where net = ?net, OF assms(5) HOL.refl]) (simp add: overloaded_response root)
  ultimately show ?thesis using out root by simp
qed

definition refused_out :: conn_out where
  "refused_out = fst (snd (Serve_conn 8 (new_conn_out None) admitted))"

theorem overloaded_client_is_told_witness:
  "Refused_overloaded = Refused_overloaded \<and>
    sv_conns (snd (snd (Serve_conn 8 (new_conn_out None) admitted))) = sv_conns admitted \<and>
    sv_running (snd (snd (Serve_conn 8 (new_conn_out None) admitted))) = sv_running admitted \<and>
    answer (fst (Client_CreateTopic (\<lambda>bs. (stream_of (co_sent refused_out), False)) [97] test_client)) = Fail (Some ErrOverloaded) \<and>
    answer (fst (Client_Publish (\<lambda>bs. (stream_of (co_sent refused_out), False)) [97] [1] test_client)) = Fail (Some ErrOverloaded) \<and>
    answer (fst (Client_PublishBatch (\<lambda>bs. (stream_of (co_sent refused_out), False)) [97] [[1], []] test_client)) =
      Fail (Some ErrOverloaded) \<and>
    answer (fst (Client_Subscribe (\<lambda>bs. (stream_of (co_sent refused_out), False)) [97] test_client)) = Fail (Some ErrOverloaded) \<and>
    answer (fst (Client_ListTopics (\<lambda>bs. (stream_of (co_sent refused_out), False)) test_client)) = Fail (Some ErrOverloaded)"
proof (rule overloaded_client_is_told [OF _ _ _ _ test_client_idle valid_a])
  show "Serve_conn 8 (new_conn_out None) admitted =
      (Refused_overloaded, refused_out, snd (snd (Serve_conn 8 (new_conn_out None) admitted)))"
    by (simp add: refused_out_def admitted_eq limited_eq Serve_conn_def)
qed (simp_all add: admitted_eq limited_eq EncodePublish_pieces Encode_eqs counted_def MaxPayload_def MaxMessage_def)

section \<open>Configuration\<close>

text \<open>
  C39: Whatever the options do, the timeouts, limits and buffer sizes a server or a client works with are not
  negative, a client starts open in its request phase, and only positive sizes are asked of the kernel.
\<close>

theorem configuration_is_normalised:
  assumes "DialTimeout dial timeout (map client_set ys) = Ok (c, tuned)"
  shows "0 \<le> sv_readTimeout (NewServer opts) \<and> 0 \<le> sv_writeTimeout (NewServer opts) \<and>
    0 \<le> sv_maxConns (NewServer opts) \<and> 0 \<le> sv_readBuffer (NewServer opts) \<and> 0 \<le> sv_writeBuffer (NewServer opts) \<and>
    0 \<le> cl_readTimeout c \<and> 0 \<le> cl_writeTimeout c \<and> 0 \<le> cl_readBuffer c \<and> 0 \<le> cl_writeBuffer c \<and>
    \<not> cl_closed c \<and> \<not> cl_streaming c \<and> cl_in c = [] \<and>
    tuned = (if cl_readBuffer c = 0 then None else Some (cl_readBuffer c),
             if cl_writeBuffer c = 0 then None else Some (cl_writeBuffer c)) \<and>
    dial (max 0 timeout) = Ok (bw_conn (cl_bw c))"
  using assms
proof (rule DialTimeout_eq_Ok)
  fix conn c0
  assume "dial (max 0 timeout) = Ok conn" "c = normalise_client (fold (\<lambda>opt. opt) (map client_set ys) c0)"
    "cl_bw c0 = new_bufw conn" "cl_in c0 = []" "\<not> cl_closed c0" "\<not> cl_streaming c0" "tuned = client_tuneConn c"
  then show ?thesis
    using NewServer_nonneg by (simp add: normalise_client_eq client_tuneConn_eq new_bufw_def)
qed

definition dialled :: "client \<times> (int option \<times> int option)" where
  "dialled = (case Dial (\<lambda>t. Ok (new_conn_out None)) (map client_set [ClientReadTimeout (- 5), ClientReadBuffer 0]) of
     Ok r \<Rightarrow> r | _ \<Rightarrow> undefined)"

theorem configuration_is_normalised_witness:
  "let c = fst dialled; opts = map setting [MaxConns (- 1)] in
    0 \<le> sv_readTimeout (NewServer opts) \<and> 0 \<le> sv_writeTimeout (NewServer opts) \<and>
    0 \<le> sv_maxConns (NewServer opts) \<and> 0 \<le> sv_readBuffer (NewServer opts) \<and> 0 \<le> sv_writeBuffer (NewServer opts) \<and>
    0 \<le> cl_readTimeout c \<and> 0 \<le> cl_writeTimeout c \<and> 0 \<le> cl_readBuffer c \<and> 0 \<le> cl_writeBuffer c \<and>
    \<not> cl_closed c \<and> \<not> cl_streaming c \<and> cl_in c = [] \<and>
    snd dialled = (if cl_readBuffer c = 0 then None else Some (cl_readBuffer c),
             if cl_writeBuffer c = 0 then None else Some (cl_writeBuffer c)) \<and>
    (Ok (new_conn_out None) :: conn_out result) = Ok (bw_conn (cl_bw c))"
  unfolding Let_def
proof (rule configuration_is_normalised [where dial = "\<lambda>t. Ok (new_conn_out None)"])
  show "DialTimeout (\<lambda>t. Ok (new_conn_out None)) defaultDialTimeout
      (map client_set [ClientReadTimeout (- 5), ClientReadBuffer 0]) = Ok (fst dialled, snd dialled)"
    by (simp add: dialled_def Dial_def DialTimeout_def Let_def)
qed

section \<open>Subscriptions of a connection\<close>

text \<open>
  C24: A connection holds a subscription only while it streams, and leaves none behind: whatever arrives
  and whatever store the broker has, the handler returns with the live subscriptions it found and, when
  it turns into a stream, that stream's new one, which the end of the connection removes, whatever
  others have done to the broker meanwhile.
\<close>

theorem connection_leaves_no_subscription:
  assumes "subs_ok b" and "handleConn quote fops s (c, b) = (v, (c1, b1))"
    and "end_connection v (c2, b2) = (c3, b3)"
  shows "live b1 = live b \<union> holds v \<and> live b \<inter> holds v = {} \<and> live b3 = live b2 - holds v \<and> \<not> h_open c3"
proof -
  have "\<not> h_open (fst (end_connection v (c2, b2)))"
    by (simp add: end_connection_def split: outcome.split verdict.split)
  then show ?thesis
    using handleConn_subs [OF assms(1,2)] end_connection_live [of v c2 b2] assms(3) by auto
qed

definition subscribing :: "verdict result \<times> (hconn \<times> memoryLog broker)" where
  "subscribing = handleConn (\<lambda>name. name) memoryLog_ops (NewServer [])
     (test_conn\<lparr>h_in := stream_of (frame_bytes OpSubscribe [97])\<rparr>, test_broker)"

theorem connection_leaves_no_subscription_witness:
  "live (snd (snd subscribing)) = live test_broker \<union> holds (fst subscribing) \<and>
    live test_broker \<inter> holds (fst subscribing) = {} \<and>
    live (snd (end_connection (fst subscribing) (snd subscribing))) = live (snd (snd subscribing)) - holds (fst subscribing) \<and>
    \<not> h_open (fst (end_connection (fst subscribing) (snd subscribing)))"
proof (rule connection_leaves_no_subscription)
  show "subs_ok test_broker" by (simp add: subs_ok_def test_broker_eq newPartition_def)
  show "handleConn (\<lambda>name. name) memoryLog_ops (NewServer [])
     (test_conn\<lparr>h_in := stream_of (frame_bytes OpSubscribe [97])\<rparr>, test_broker) =
     (fst subscribing, (fst (snd subscribing), snd (snd subscribing)))"
    by (simp add: subscribing_def)
  show "end_connection (fst subscribing) (fst (snd subscribing), snd (snd subscribing)) =
    (fst (end_connection (fst subscribing) (snd subscribing)), snd (end_connection (fst subscribing) (snd subscribing)))"
    by simp
qed

end
