(* ===== verification/Demo.thy ===== *)
theory Demo
  imports Net_Stream Net_Requests
begin

text \<open>
  \<open>cmd/demo/main.go\<close>: the subscribers that read every message. The times and the printing are left out;
  the number of messages is an argument, \<open>demo_total\<close> in the program. The publisher and its timer are in
  \<open>Demo_Publisher\<close>, \<open>run\<close> with its goroutines in \<open>Demo_Run\<close>.
\<close>

section \<open>The program\<close>

definition topicName :: gostring where "topicName = ascii ''greetings''"

definition demo_total :: nat where "demo_total = 100000"

record readerResult =
  rr_id :: int
  rr_last :: i64
  rr_bytes :: int

text \<open>The loop over the messages of a batch.\<close>

fun count_batch :: "message list \<Rightarrow> i64 \<times> int \<times> nat \<Rightarrow> i64 \<times> int \<times> nat" where
  "count_batch [] acc = acc"
| "count_batch (m # ms) (off, recvBytes, got) =
     count_batch ms (Offset m, recvBytes + len (Payload m), Suc got)"

lemma count_batch_got [simp]: "snd (snd (count_batch ms acc)) = snd (snd acc) + length ms"
  by (induction ms acc rule: count_batch.induct) auto

lemma read_more_length:
  assumes "read_more buffered mx out c = (Ok ms, c')"
  shows "length out \<le> length ms"
  using assms
proof (induction buffered mx out c rule: read_more.induct)
  case (1 buffered mx out c)
  then show ?case
    by (auto simp: read_more.simps [of buffered mx out] split: if_splits prod.splits outcome.splits)
qed

lemma ReadBatch_not_Nil: "ReadBatch alloc buffered mx c = (Ok ms, c') \<Longrightarrow> 0 < length ms"
  by (auto simp: ReadBatch_def Let_def gbind_eq_Ok split: if_splits dest!: read_more_length)

lemma ReadBatch_progress:
  assumes "(Ok ms, c') = ReadBatch alloc buffered mx c" and "got < n"
  shows "n - (got + length ms) < n - got"
proof -
  have "0 < length ms" by (rule ReadBatch_not_Nil [OF assms(1) [symmetric]])
  with assms(2) show ?thesis by linarith
qed

text \<open>The loop of \<open>consume\<close>; \<open>alloc\<close> and \<open>buffered\<close> are those of \<open>ReadBatch\<close>.\<close>

function consume_loop ::
    "(int \<Rightarrow> bool) \<Rightarrow> (instream \<Rightarrow> nat) \<Rightarrow> nat \<Rightarrow> i64 \<times> int \<times> nat \<Rightarrow> (client, gerror, i64 \<times> int) go" where
  "consume_loop alloc buffered cnt acc c =
     (if snd (snd acc) < cnt
      then (case ReadBatch alloc buffered 256 c of
          (Ok ms, c) \<Rightarrow> consume_loop alloc buffered cnt (count_batch ms acc) c
        | (Fail e, c) \<Rightarrow> (Fail e, c)
        | (Panic, c) \<Rightarrow> (Panic, c))
      else (Ok (fst acc, fst (snd acc)), c))"
  by pat_completeness auto
termination
  by (relation "measure (\<lambda>(alloc, buffered, cnt, acc, c). cnt - snd (snd acc))")
    (auto intro: ReadBatch_progress)

declare consume_loop.simps [simp del]

definition consume ::
    "(int \<Rightarrow> conn_out result) \<Rightarrow> net \<Rightarrow> (int \<Rightarrow> bool) \<Rightarrow> (instream \<Rightarrow> nat) \<Rightarrow> nat \<Rightarrow> int \<Rightarrow> readerResult result" where
  "consume dial net alloc buffered cnt ident =
     obind (Dial dial []) (\<lambda>(c, tuned).
       fst (gbind (Client_Subscribe net topicName) (\<lambda>_.
            gbind (consume_loop alloc buffered cnt (0, 0, 0)) (\<lambda>(last, recvBytes).
            greturn \<lparr>rr_id = ident, rr_last = last, rr_bytes = recvBytes\<rparr>)) c))"

section \<open>What the subscribers read\<close>

lemma count_batch_messages:
  "ms \<noteq> [] \<Longrightarrow> count_batch ms (last0, n, got) =
     (Offset (last ms), n + sum_list (map (\<lambda>m. len (Payload m)) ms), got + length ms)"
  by (induction ms arbitrary: last0 n got) (auto simp: neq_Nil_conv)

lemma consume_loop_messages:
  assumes "\<not> cl_closed c" and "cl_in c = stream_of (messages_bytes ms)"
    and "\<forall>m\<in>set ms. len (Payload m) \<le> MaxMessage" and "alloc 256"
    and b0: "\<And>j. buffered j \<le> length j" and "got + length ms = cnt"
  shows "fst (consume_loop alloc buffered cnt (last0, n, got) c) =
    Ok (if ms = [] then last0 else Offset (last ms), n + sum_list (map (\<lambda>m. len (Payload m)) ms))"
  using assms(1-4,6)
proof (induction "length ms" arbitrary: ms c last0 n got rule: less_induct)
  case less
  show ?case
  proof (cases "ms = []")
    case True
    with less.prems show ?thesis by (simp add: consume_loop.simps [of alloc])
  next
    case False
    obtain k where k: "0 < k" "k \<le> length ms"
      "ReadBatch alloc buffered 256 c = (Ok (take k ms), c\<lparr>cl_in := stream_of (messages_bytes (drop k ms))\<rparr>)"
      using ReadBatch_messages [OF less.prems(1,2) False less.prems(3) _ b0, of alloc 256] less.prems(4) by auto
    let ?c = "c\<lparr>cl_in := stream_of (messages_bytes (drop k ms))\<rparr>"
    let ?n = "n + sum_list (map (\<lambda>m. len (Payload m)) (take k ms))"
    have t: "take k ms \<noteq> []" "length (take k ms) = k" using False k by auto
    have "consume_loop alloc buffered cnt (last0, n, got) c =
        consume_loop alloc buffered cnt (Offset (last (take k ms)), ?n, got + k) ?c"
      using k less.prems(5) False
      by (subst consume_loop.simps) (simp add: count_batch_messages [OF t(1)] min_def)
    also have "fst \<dots> = Ok (if drop k ms = [] then Offset (last (take k ms)) else Offset (last (drop k ms)),
        ?n + sum_list (map (\<lambda>m. len (Payload m)) (drop k ms)))"
      using less.prems k by (intro less.hyps) (auto dest: in_set_dropD)
    also have "?n + sum_list (map (\<lambda>m. len (Payload m)) (drop k ms)) = n + sum_list (map (\<lambda>m. len (Payload m)) ms)"
      by (metis add.assoc append_take_drop_id map_append sum_list_append)
    also have "(if drop k ms = [] then Offset (last (take k ms)) else Offset (last (drop k ms))) = Offset (last ms)"
      using k by (auto simp: last_drop)
    finally show ?thesis using False by simp
  qed
qed

lemma Dial_eq:
  assumes "dial defaultDialTimeout = Ok conn"
  shows "\<exists>c tuned. Dial dial [] = Ok (c, tuned) \<and> cl_bw c = new_bufw conn \<and> cl_in c = [] \<and>
    \<not> cl_closed c \<and> \<not> cl_streaming c"
  using assms by (simp add: Dial_def DialTimeout_def normalise_client_eq Let_def defaultDialTimeout_def defaultClientTimeout_def
      clientSocketBuffer_def)

lemma valid_topicName: "valid_name topicName"
  by (simp add: valid_name_def topicName_def ascii_def control_def)

lemma consume_reads_all:
  assumes "dial defaultDialTimeout = Ok (new_conn_out None)"
    and "net (frame_bytes OpSubscribe topicName) =
      (stream_of (frame_bytes OpSubscribe []) @ stream_of (messages_bytes (messages ps)), False)"
    and "list_all (\<lambda>p. len p \<le> MaxMessage) ps" and "ps \<noteq> []" and "alloc 256"
    and "\<And>j. buffered j \<le> length j"
  shows "consume dial net alloc buffered (length ps) ident =
    Ok \<lparr>rr_id = ident, rr_last = int64 (length ps - 1), rr_bytes = len (concat ps)\<rparr>"
proof -
  let ?ms = "messages ps"
  obtain c tuned where c: "Dial dial [] = Ok (c, tuned)" "cl_bw c = new_bufw (new_conn_out None)" "cl_in c = []"
    "\<not> cl_closed c" "\<not> cl_streaming c"
    using Dial_eq [of dial, OF assms(1)] by blast
  then have "idle c" by (simp add: idle_def healthy_def flushed_def new_bufw_def new_conn_out_def)
  then obtain c' where c': "Client_Subscribe net topicName c = (Ok (), c')" "\<not> cl_closed c'"
    "cl_in c' = stream_of (messages_bytes ?ms)"
    by (rule Client_Subscribe_accepted [where net = net, OF _ valid_topicName assms(2)])
  have small: "\<forall>m\<in>set ?ms. len (Payload m) \<le> MaxMessage"
    using assms(3) by (auto simp: messages_def list_all_iff)
  have l: "Offset (last ?ms) = int64 (length ps - 1)" "?ms \<noteq> []"
    using assms(4) by (auto simp: last_conv_nth messages_def)
  have n: "sum_list (map (\<lambda>m. len (Payload m)) ?ms) = len (concat ps)"
    by (induction ps rule: rev_induct) (simp_all add: messages_snoc)
  have "fst (consume_loop alloc buffered (length ps) (0, 0, 0) c') =
      Ok (if ?ms = [] then 0 else Offset (last ?ms), 0 + sum_list (map (\<lambda>m. len (Payload m)) ?ms))"
    using consume_loop_messages [where alloc = alloc and buffered = buffered and cnt = "length ps" and ms = ?ms and
        c = c' and got = 0 and n = 0 and ?last0.0 = 0] c'(2,3) small assms(5,6) by simp
  then obtain c2 where "consume_loop alloc buffered (length ps) (0, 0, 0) c' =
      (Ok (int64 (length ps - 1), len (concat ps)), c2)"
    using l n by (cases "consume_loop alloc buffered (length ps) (0, 0, 0) c'") (simp add: that)
  with c c' show ?thesis by (simp add: consume_def gbind_def)
qed

end
