(* ===== verification/Demo_Run.thy ===== *)
theory Demo_Run
  imports Demo "HOL-Library.Multiset"
begin

text \<open>
  \<open>run\<close> of \<open>cmd/demo/main.go\<close>: the main goroutine and the two subscribers, which meet at three buffered
  channels and a wait group. What the parts return is an argument: the set-up (the listener, the
  publisher's connection and its topic), \<open>consume\<close> for each subscriber, and the publisher's loop. The
  printing of the results is the list \<open>dr_printed\<close>; times are left out.
\<close>

section \<open>The goroutines\<close>

text \<open>Where a subscriber is: not started, in \<open>consume\<close> before its signal, at the signal, reading, at its last send.\<close>

datatype sub_place = Unstarted | Connecting | Ready | Consuming | Sending | Ended

text \<open>
  Where \<open>run\<close> is: before the subscribers, waiting for \<open>n\<close> signals, publishing, at \<open>wg.Wait\<close>, printing, at
  the last \<open>select\<close>, returned.
\<close>

datatype main_place =
  Setting_up | Awaiting nat | Publishing | Waiting_all | Printing | Selecting | Run_returned "gerror option"

text \<open>Two subscribers; the channels \<open>ready\<close>, \<open>results\<close> and \<open>errCh\<close> hold two values each.\<close>

record demo_run =
  dr_main :: main_place
  dr_subs :: "nat \<Rightarrow> sub_place"
  dr_ready :: nat
  dr_results :: "readerResult list"
  dr_errs :: "gerror list"
  dr_printed :: "readerResult list"

definition chan_cap :: nat where "chan_cap = 2"

definition demo_start :: demo_run where
  "demo_start = \<lparr>dr_main = Setting_up, dr_subs = (\<lambda>_. Unstarted), dr_ready = 0, dr_results = [], dr_errs = [],
     dr_printed = []\<rparr>"

definition subscriber_error :: "nat \<Rightarrow> gerror \<Rightarrow> gerror" where
  "subscriber_error i e = Wrap (Prefix (ascii ''subscriber '' @ decimal i)) e"

definition sub_to :: "nat \<Rightarrow> sub_place \<Rightarrow> demo_run \<Rightarrow> demo_run" where
  "sub_to i x st = st\<lparr>dr_subs := (dr_subs st)(i := x)\<rparr>"

text \<open>The goroutine of subscriber \<open>i\<close>; \<open>r\<close> is what its \<open>consume\<close> returns.\<close>

inductive sub_step :: "nat \<Rightarrow> readerResult result \<Rightarrow> demo_run \<Rightarrow> demo_run \<Rightarrow> bool"
  for i :: nat and r :: "readerResult result" where
  fails: "dr_subs st i = Connecting \<Longrightarrow> r = Fail e \<Longrightarrow> sub_step i r st (sub_to i Sending st)"
| subscribes: "dr_subs st i = Connecting \<Longrightarrow> sub_step i r st (sub_to i Ready st)"
| signals: "dr_subs st i = Ready \<Longrightarrow> dr_ready st < chan_cap \<Longrightarrow>
     sub_step i r st (sub_to i Consuming (st\<lparr>dr_ready := Suc (dr_ready st)\<rparr>))"
| consumes: "dr_subs st i = Consuming \<Longrightarrow> sub_step i r st (sub_to i Sending st)"
| sends_error: "dr_subs st i = Sending \<Longrightarrow> r = Fail e \<Longrightarrow> length (dr_errs st) < chan_cap \<Longrightarrow>
     sub_step i r st (sub_to i Ended (st\<lparr>dr_errs := dr_errs st @ [subscriber_error i e]\<rparr>))"
| sends_result: "dr_subs st i = Sending \<Longrightarrow> r = Ok x \<Longrightarrow> length (dr_results st) < chan_cap \<Longrightarrow>
     sub_step i r st (sub_to i Ended (st\<lparr>dr_results := dr_results st @ [x]\<rparr>))"

text \<open>The main goroutine; \<open>prep\<close> and \<open>published\<close> are what the set-up and the publisher's loop return.\<close>

inductive main_step :: "unit result \<Rightarrow> unit result \<Rightarrow> demo_run \<Rightarrow> demo_run \<Rightarrow> bool"
  for prep :: "unit result" and published :: "unit result" where
  starts: "dr_main st = Setting_up \<Longrightarrow> prep = Ok () \<Longrightarrow>
     main_step prep published st (sub_to 2 Connecting (sub_to 1 Connecting (st\<lparr>dr_main := Awaiting 2\<rparr>)))"
| no_prep: "dr_main st = Setting_up \<Longrightarrow> prep = Fail e \<Longrightarrow>
     main_step prep published st (st\<lparr>dr_main := Run_returned (Some e)\<rparr>)"
| takes_ready: "dr_main st = Awaiting (Suc n) \<Longrightarrow> 0 < dr_ready st \<Longrightarrow>
     main_step prep published st (st\<lparr>dr_ready := dr_ready st - 1,
       dr_main := (if n = 0 then Publishing else Awaiting n)\<rparr>)"
| takes_error: "dr_main st = Awaiting (Suc n) \<Longrightarrow> dr_errs st = e # es \<Longrightarrow>
     main_step prep published st (st\<lparr>dr_errs := es, dr_main := Run_returned (Some e)\<rparr>)"
| publishes: "dr_main st = Publishing \<Longrightarrow> published = Ok () \<Longrightarrow>
     main_step prep published st (st\<lparr>dr_main := Waiting_all\<rparr>)"
| publish_fails: "dr_main st = Publishing \<Longrightarrow> published = Fail e \<Longrightarrow>
     main_step prep published st (st\<lparr>dr_main := Run_returned (Some e)\<rparr>)"
| waits: "dr_main st = Waiting_all \<Longrightarrow> dr_subs st 1 = Ended \<Longrightarrow> dr_subs st 2 = Ended \<Longrightarrow>
     main_step prep published st (st\<lparr>dr_main := Printing\<rparr>)"
| prints: "dr_main st = Printing \<Longrightarrow> dr_results st = x # xs \<Longrightarrow>
     main_step prep published st (st\<lparr>dr_results := xs, dr_printed := dr_printed st @ [x]\<rparr>)"
| printed: "dr_main st = Printing \<Longrightarrow> dr_results st = [] \<Longrightarrow>
     main_step prep published st (st\<lparr>dr_main := Selecting\<rparr>)"
| selects_error: "dr_main st = Selecting \<Longrightarrow> dr_errs st = e # es \<Longrightarrow>
     main_step prep published st (st\<lparr>dr_errs := es, dr_main := Run_returned (Some e)\<rparr>)"
| selects_default: "dr_main st = Selecting \<Longrightarrow> dr_errs st = [] \<Longrightarrow>
     main_step prep published st (st\<lparr>dr_main := Run_returned None\<rparr>)"

text \<open>The program, as long as \<open>run\<close> has not returned; \<open>outcome i\<close> is what \<open>consume\<close> returns to subscriber \<open>i\<close>.\<close>

definition running :: "demo_run \<Rightarrow> bool" where
  "running st \<longleftrightarrow> (\<forall>r. dr_main st \<noteq> Run_returned r)"

definition run_step_of ::
    "unit result \<Rightarrow> unit result \<Rightarrow> (nat \<Rightarrow> readerResult result) \<Rightarrow> demo_run \<Rightarrow> demo_run \<Rightarrow> bool" where
  "run_step_of prep published outcome st st' \<longleftrightarrow> running st \<and>
     (main_step prep published st st' \<or> sub_step 1 (outcome 1) st st' \<or> sub_step 2 (outcome 2) st st')"

inductive_cases sub_stepE: "sub_step i r st st'"
inductive_cases main_stepE: "main_step prep published st st'"

section \<open>What the channels hold\<close>

text \<open>What subscriber \<open>i\<close> has sent, by where it is and what its \<open>consume\<close> returns.\<close>

fun sent_error :: "nat \<Rightarrow> readerResult result \<Rightarrow> sub_place \<Rightarrow> gerror list" where
  "sent_error i (Fail e) Ended = [subscriber_error i e]"
| "sent_error i r x = []"

fun sent_result :: "readerResult result \<Rightarrow> sub_place \<Rightarrow> readerResult list" where
  "sent_result (Ok y) Ended = [y]"
| "sent_result r x = []"

text \<open>Whether it may have sent its signal, and whether it surely has.\<close>

definition may_signal :: "sub_place \<Rightarrow> nat" where
  "may_signal x = of_bool (x \<in> {Consuming, Sending, Ended})"

definition has_signal :: "readerResult result \<Rightarrow> sub_place \<Rightarrow> nat" where
  "has_signal r x = of_bool (x = Consuming \<or> x \<in> {Sending, Ended} \<and> (\<exists>y. r = Ok y))"

text \<open>Signals taken off the channel.\<close>

primrec taken :: "main_place \<Rightarrow> nat" where
  "taken Setting_up = 0"
| "taken (Awaiting n) = 2 - n"
| "taken Publishing = 2"
| "taken Waiting_all = 2"
| "taken Printing = 2"
| "taken Selecting = 2"
| "taken (Run_returned r) = 2"

definition control_ok :: "unit result \<Rightarrow> unit result \<Rightarrow> demo_run \<Rightarrow> bool" where
  "control_ok prep published st \<longleftrightarrow>
     (case dr_main st of
        Setting_up \<Rightarrow> dr_subs st 1 = Unstarted \<and> dr_subs st 2 = Unstarted \<and> dr_ready st = 0
      | Awaiting n \<Rightarrow> 0 < n \<and> n \<le> 2
      | Publishing \<Rightarrow> True
      | Waiting_all \<Rightarrow> published = Ok ()
      | Printing \<Rightarrow> published = Ok () \<and> dr_subs st 1 = Ended \<and> dr_subs st 2 = Ended
      | Selecting \<Rightarrow> published = Ok () \<and> dr_subs st 1 = Ended \<and> dr_subs st 2 = Ended \<and> dr_results st = []
      | Run_returned r \<Rightarrow> True) \<and>
     (running st \<and> dr_main st \<noteq> Setting_up \<longrightarrow> prep = Ok () \<and> dr_subs st 1 \<noteq> Unstarted \<and> dr_subs st 2 \<noteq> Unstarted)"

definition channels_ok :: "(nat \<Rightarrow> readerResult result) \<Rightarrow> demo_run \<Rightarrow> bool" where
  "channels_ok outcome st \<longleftrightarrow>
     mset (dr_errs st) = mset (sent_error 1 (outcome 1) (dr_subs st 1)) + mset (sent_error 2 (outcome 2) (dr_subs st 2)) \<and>
     mset (dr_printed st) + mset (dr_results st) =
       mset (sent_result (outcome 1) (dr_subs st 1)) + mset (sent_result (outcome 2) (dr_subs st 2))"

definition signals_ok :: "(nat \<Rightarrow> readerResult result) \<Rightarrow> demo_run \<Rightarrow> bool" where
  "signals_ok outcome st \<longleftrightarrow>
     dr_ready st + taken (dr_main st) \<le> may_signal (dr_subs st 1) + may_signal (dr_subs st 2) \<and>
     has_signal (outcome 1) (dr_subs st 1) + has_signal (outcome 2) (dr_subs st 2) \<le> dr_ready st + taken (dr_main st)"

lemma signal_simps [simp]:
  "may_signal Unstarted = 0" "may_signal Connecting = 0" "may_signal Ready = 0"
  "may_signal Consuming = 1" "may_signal Sending = 1" "may_signal Ended = 1"
  "has_signal r Unstarted = 0" "has_signal r Connecting = 0" "has_signal r Ready = 0" "has_signal r Consuming = 1"
  "has_signal (Fail e) Sending = 0" "has_signal (Ok y) Sending = 1" "has_signal r Ended = has_signal r Sending"
  by (simp_all add: may_signal_def has_signal_def)

lemma has_signal_le: "has_signal r x \<le> 1" "has_signal r x \<le> may_signal x"
  by (simp_all add: has_signal_def may_signal_def)

lemma sub_to_simps [simp]:
  "dr_subs (sub_to i x st) = (dr_subs st)(i := x)" "dr_main (sub_to i x st) = dr_main st"
  "dr_ready (sub_to i x st) = dr_ready st" "dr_results (sub_to i x st) = dr_results st"
  "dr_errs (sub_to i x st) = dr_errs st" "dr_printed (sub_to i x st) = dr_printed st"
  by (simp_all add: sub_to_def)

lemma sub_step_control:
  assumes "sub_step i r st st'" and "control_ok prep published st" and "i \<in> {1, 2}"
  shows "control_ok prep published st'"
proof -
  have st': "dr_main st' = dr_main st \<and> dr_subs st i \<noteq> Ended \<and> (\<exists>x. dr_subs st' = (dr_subs st)(i := x) \<and> x \<noteq> Unstarted) \<and>
      (dr_subs st i = Unstarted \<longrightarrow> False)"
    using assms(1) by cases auto
  with assms(2,3) show ?thesis
    by (cases "dr_main st") (auto simp: control_ok_def running_def)
qed

lemma sub_step_channels:
  assumes "sub_step i (outcome i) st st'" and "channels_ok outcome st" and "i \<in> {1, 2}"
  shows "channels_ok outcome st'"
  using assms by (auto elim!: sub_stepE simp: channels_ok_def)

lemma sub_step_signals:
  assumes "sub_step i (outcome i) st st'" and "signals_ok outcome st" and "i \<in> {1, 2}"
  shows "signals_ok outcome st'"
  using assms has_signal_le [of "outcome 1" Sending] has_signal_le [of "outcome 2" Sending]
  by (auto elim!: sub_stepE simp: signals_ok_def)

lemma main_step_control:
  assumes "main_step prep published st st'" and "control_ok prep published st"
  shows "control_ok prep published st'"
  using assms by (auto elim!: main_stepE simp: control_ok_def running_def)

lemma main_step_channels:
  assumes "main_step prep published st st'" and "channels_ok outcome st" and "running st'"
    and "control_ok prep published st"
  shows "channels_ok outcome st'"
  using assms by (auto elim!: main_stepE simp: channels_ok_def control_ok_def running_def)

lemma main_step_signals:
  assumes "main_step prep published st st'" and "signals_ok outcome st" and "running st'"
    and "control_ok prep published st"
  shows "signals_ok outcome st'"
  using assms by (auto elim!: main_stepE simp: signals_ok_def control_ok_def running_def)

section \<open>What \<open>run\<close> returns\<close>

text \<open>
  Without an error: everything was set up and published, and the results of both subscribers are printed.
  With one: it is that of the set-up, of the publisher or of a subscriber.
\<close>

definition returns_ok :: "unit result \<Rightarrow> unit result \<Rightarrow> (nat \<Rightarrow> readerResult result) \<Rightarrow> gerror option \<Rightarrow> readerResult list \<Rightarrow> bool" where
  "returns_ok prep published outcome r ys \<longleftrightarrow>
     (case r of
        None \<Rightarrow> prep = Ok () \<and> published = Ok () \<and> (\<exists>y1 y2. outcome 1 = Ok y1 \<and> outcome 2 = Ok y2 \<and> mset ys = {#y1, y2#})
      | Some e \<Rightarrow> prep = Fail e \<or> published = Fail e \<or>
          (\<exists>i e'. i \<in> {1, 2} \<and> outcome i = Fail e' \<and> e = subscriber_error i e'))"

definition demo_ok :: "unit result \<Rightarrow> unit result \<Rightarrow> (nat \<Rightarrow> readerResult result) \<Rightarrow> demo_run \<Rightarrow> bool" where
  "demo_ok prep published outcome st \<longleftrightarrow> control_ok prep published st \<and>
     (case dr_main st of
        Run_returned r \<Rightarrow> returns_ok prep published outcome r (dr_printed st)
      | _ \<Rightarrow> channels_ok outcome st \<and> signals_ok outcome st)"

lemma demo_ok_running:
  "running st \<Longrightarrow> demo_ok prep published outcome st \<longleftrightarrow>
     control_ok prep published st \<and> channels_ok outcome st \<and> signals_ok outcome st"
  by (auto simp: demo_ok_def running_def split: main_place.splits)

lemma demo_ok_start: "demo_ok prep published outcome demo_start"
  by (simp add: demo_ok_def demo_start_def control_ok_def channels_ok_def signals_ok_def running_def)

lemma channels_error:
  assumes "channels_ok outcome st" and "e \<in> set (dr_errs st)"
  shows "\<exists>i e'. i \<in> {1, 2} \<and> outcome i = Fail e' \<and> e = subscriber_error i e'"
proof -
  have "e \<in># mset (sent_error 1 (outcome 1) (dr_subs st 1)) + mset (sent_error 2 (outcome 2) (dr_subs st 2))"
    using assms by (metis channels_ok_def set_mset_mset)
  then obtain i where i: "i \<in> {1, 2}" "e \<in> set (sent_error i (outcome i) (dr_subs st i))" by auto
  then show ?thesis by (cases "(i, outcome i, dr_subs st i)" rule: sent_error.cases) auto
qed

lemma sent_none: "sent_error i r Ended = [] \<Longrightarrow> r \<noteq> Panic \<Longrightarrow> \<exists>y. r = Ok y"
  by (cases r) auto

lemma main_step_returns:
  assumes "main_step prep published st st'" and "channels_ok outcome st" and "control_ok prep published st"
    and "dr_main st' = Run_returned r" and "running st" and "outcome 1 \<noteq> Panic" and "outcome 2 \<noteq> Panic"
  shows "returns_ok prep published outcome r (dr_printed st')"
  using assms(1)
proof cases
  case (takes_error n e es)
  then have "r = Some e" "e \<in> set (dr_errs st)" using assms(4) by simp_all
  with channels_error [OF assms(2)] show ?thesis by (simp add: returns_ok_def)
next
  case (selects_error e es)
  then have "r = Some e" "e \<in> set (dr_errs st)" using assms(4) by simp_all
  with channels_error [OF assms(2)] show ?thesis by (simp add: returns_ok_def)
next
  case selects_default
  then have c: "dr_subs st 1 = Ended" "dr_subs st 2 = Ended" "dr_results st = []" "published = Ok ()" "prep = Ok ()"
    using assms(3,5) by (auto simp: control_ok_def)
  then obtain y1 y2 where "outcome 1 = Ok y1" "outcome 2 = Ok y2"
    using assms(2,6,7) selects_default sent_none [of 1 "outcome 1"] sent_none [of 2 "outcome 2"] by (auto simp: channels_ok_def)
  with c selects_default assms(2,4) show ?thesis by (simp add: channels_ok_def returns_ok_def)
qed (use assms(4,5) in \<open>auto simp: returns_ok_def running_def split: if_splits\<close>)

lemma run_step_ok:
  assumes "run_step_of prep published outcome st st'" and ok: "demo_ok prep published outcome st"
    and "outcome 1 \<noteq> Panic" and "outcome 2 \<noteq> Panic"
  shows "demo_ok prep published outcome st'"
proof -
  have run: "running st" using assms(1) by (simp add: run_step_of_def)
  then have st: "control_ok prep published st" "channels_ok outcome st" "signals_ok outcome st"
    using ok by (simp_all add: demo_ok_running)
  consider (main) "main_step prep published st st'" | (sub) i where "i \<in> {1, 2}" "sub_step i (outcome i) st st'"
    using assms(1) by (auto simp: run_step_of_def)
  then show ?thesis
  proof cases
    case main
    note c = main_step_control [OF main st(1)]
    show ?thesis
    proof (cases "running st'")
      case True
      with c main_step_channels [OF main st(2) True st(1)] main_step_signals [OF main st(3) True st(1)]
      show ?thesis by (simp add: demo_ok_running)
    next
      case False
      then obtain r where r: "dr_main st' = Run_returned r" by (auto simp: running_def)
      with c main_step_returns [OF main st(2,1) r run assms(3,4)] show ?thesis by (simp add: demo_ok_def)
    qed
  next
    case sub
    then have "running st'" using run by (auto elim!: sub_stepE simp: running_def)
    with sub_step_control [OF sub(2) st(1) sub(1)] sub_step_channels [OF sub(2) st(2) sub(1)]
      sub_step_signals [OF sub(2) st(3) sub(1)] show ?thesis by (simp add: demo_ok_running)
  qed
qed

section \<open>That it returns\<close>

primrec sub_rank :: "sub_place \<Rightarrow> nat" where
  "sub_rank Unstarted = 4"
| "sub_rank Connecting = 4"
| "sub_rank Ready = 3"
| "sub_rank Consuming = 2"
| "sub_rank Sending = 1"
| "sub_rank Ended = 0"

definition demo_measure :: "demo_run \<Rightarrow> nat" where
  "demo_measure st = sub_rank (dr_subs st 1) + sub_rank (dr_subs st 2) +
     (case dr_main st of
        Setting_up \<Rightarrow> 9 | Awaiting n \<Rightarrow> 6 + n | Publishing \<Rightarrow> 6 | Waiting_all \<Rightarrow> 5
      | Printing \<Rightarrow> 2 + length (dr_results st) | Selecting \<Rightarrow> 1 | Run_returned r \<Rightarrow> 0)"

lemma sent_results_length:
  assumes "channels_ok outcome st"
  shows "length (dr_results st) \<le> 2"
proof -
  have one: "length (sent_result r x) \<le> 1" for r x
    by (cases "(r, x)" rule: sent_result.cases) auto
  have "length (dr_printed st) + length (dr_results st) =
      length (sent_result (outcome 1) (dr_subs st 1)) + length (sent_result (outcome 2) (dr_subs st 2))"
    using assms by (metis channels_ok_def size_mset size_union)
  with one [of "outcome 1" "dr_subs st 1"] one [of "outcome 2" "dr_subs st 2"] show ?thesis by linarith
qed

lemma run_step_decreases:
  assumes "run_step_of prep published outcome st st'" and ok: "demo_ok prep published outcome st"
  shows "demo_measure st' < demo_measure st"
proof -
  have run: "running st" using assms(1) by (simp add: run_step_of_def)
  then have st: "control_ok prep published st" "channels_ok outcome st" using ok by (simp_all add: demo_ok_running)
  note two = sent_results_length [OF st(2)]
  consider (main) "main_step prep published st st'" | (sub) i where "i \<in> {1, 2}" "sub_step i (outcome i) st st'"
    using assms(1) by (auto simp: run_step_of_def)
  then show ?thesis
  proof cases
    case main
    then show ?thesis using st(1) two
      by cases (auto simp: demo_measure_def control_ok_def)
  next
    case sub
    from sub(2) have "sub_rank (dr_subs st' i) < sub_rank (dr_subs st i)" "dr_main st' = dr_main st"
      "dr_subs st i \<noteq> Ended" "\<forall>j. j \<noteq> i \<longrightarrow> dr_subs st' j = dr_subs st j"
      by (auto elim!: sub_stepE)
    with sub(1) st(1) show ?thesis
      by (cases "dr_main st") (auto simp: demo_measure_def control_ok_def)
  qed
qed

text \<open>Nothing blocks for ever: the channels have room for every send, and every wait is for something that comes.\<close>

lemma sub_goes_on:
  assumes "channels_ok outcome st" and "signals_ok outcome st" and "i \<in> {1, 2}"
    and "dr_subs st i \<notin> {Unstarted, Ended}" and "outcome i \<noteq> Panic"
  shows "\<exists>st'. sub_step i (outcome i) st st'"
proof (cases "dr_subs st i")
  case Ready
  have "may_signal (dr_subs st 1) + may_signal (dr_subs st 2) < 2"
    using assms(3) Ready by (auto simp: may_signal_def)
  then have "dr_ready st < chan_cap" using assms(2) by (simp add: signals_ok_def chan_cap_def)
  with Ready show ?thesis by (blast intro: sub_step.signals)
next
  case Sending
  have one: "length (sent_error j r x) \<le> 1" "length (sent_result r x) \<le> 1" for j r x
    by (cases "(j, r, x)" rule: sent_error.cases; simp) (cases "(r, x)" rule: sent_result.cases; simp)
  have none: "sent_error i (outcome i) (dr_subs st i) = []" "sent_result (outcome i) (dr_subs st i) = []"
    using Sending by (cases "outcome i"; simp)+
  have "length (dr_errs st) = length (sent_error 1 (outcome 1) (dr_subs st 1)) + length (sent_error 2 (outcome 2) (dr_subs st 2))"
    "length (dr_results st) \<le> length (sent_result (outcome 1) (dr_subs st 1)) + length (sent_result (outcome 2) (dr_subs st 2))"
    using assms(1) unfolding channels_ok_def by (metis size_mset size_union le_add2)+
  then have "length (dr_errs st) < chan_cap" "length (dr_results st) < chan_cap"
    using assms(3) none one(1) [of 1 "outcome 1" "dr_subs st 1"] one(1) [of 2 "outcome 2" "dr_subs st 2"]
      one(2) [of "outcome 1" "dr_subs st 1"] one(2) [of "outcome 2" "dr_subs st 2"]
    by (auto simp: chan_cap_def)
  with Sending assms(5) show ?thesis
    by (cases "outcome i") (auto intro: sub_step.sends_error sub_step.sends_result)
qed (use assms(4) in \<open>auto intro: sub_step.subscribes sub_step.consumes\<close>)

lemma run_progress:
  assumes ok: "demo_ok prep published outcome st" and run: "running st"
    and "outcome 1 \<noteq> Panic" and "outcome 2 \<noteq> Panic" and "prep \<noteq> Panic" and "published \<noteq> Panic"
  shows "\<exists>st'. run_step_of prep published outcome st st'"
proof (rule ccontr)
  assume "\<nexists>st'. run_step_of prep published outcome st st'"
  then have main: "\<not> main_step prep published st st'" and subs: "i \<in> {1, 2} \<Longrightarrow> \<not> sub_step i (outcome i) st st'" for i st'
    using run by (auto simp: run_step_of_def)
  have st: "control_ok prep published st" "channels_ok outcome st" "signals_ok outcome st"
    using ok run by (simp_all add: demo_ok_running)
  have ended: "dr_subs st i = Ended" if "i \<in> {1, 2}" "dr_main st \<noteq> Setting_up" for i
    using sub_goes_on [OF st(2,3) that(1)] subs [OF that(1)] that st(1) run assms(3,4) by (auto simp: control_ok_def)
  show False
  proof (cases "dr_main st")
    case Setting_up
    with main assms(5) show False by (cases prep) (auto intro: main_step.starts main_step.no_prep)
  next
    case (Awaiting n)
    then obtain k where n: "n = Suc k" using st(1) by (cases n) (auto simp: control_ok_def)
    have e1: "dr_errs st = []" using n Awaiting main main_step.takes_error by (metis neq_Nil_conv)
    have e2: "dr_ready st = 0" using n Awaiting main main_step.takes_ready by (metis gr0I)
    note e = e1 e2
    then obtain y1 y2 where "outcome 1 = Ok y1" "outcome 2 = Ok y2"
      using st(2) Awaiting ended [of 1] ended [of 2] assms(3,4) sent_none [of 1 "outcome 1"] sent_none [of 2 "outcome 2"]
      by (auto simp: channels_ok_def)
    then show False using st(3) e(2) Awaiting n ended [of 1] ended [of 2] by (simp add: signals_ok_def) arith
  next
    case Publishing
    with main assms(6) show False by (cases published) (auto intro: main_step.publishes main_step.publish_fails)
  next
    case Waiting_all
    then show False using main [of "st\<lparr>dr_main := Printing\<rparr>"] main_step.waits [of st] ended [of 1] ended [of 2] by simp
  next
    case Printing
    with main show False by (cases "dr_results st") (auto intro: main_step.prints main_step.printed)
  next
    case Selecting
    with main show False by (cases "dr_errs st") (auto intro: main_step.selects_error main_step.selects_default)
  qed (use run in \<open>simp add: running_def\<close>)
qed

lemma runs_ok:
  assumes "(run_step_of prep published outcome ^^ n) demo_start st"
    and "outcome 1 \<noteq> Panic" and "outcome 2 \<noteq> Panic"
  shows "demo_ok prep published outcome st \<and> n + demo_measure st \<le> 17"
  using assms(1)
proof (induction n arbitrary: st)
  case 0
  then have "st = demo_start" by simp
  moreover have "demo_measure demo_start = 17" by (simp add: demo_measure_def demo_start_def)
  ultimately show ?case by (simp add: demo_ok_start)
next
  case (Suc n)
  then obtain q where q: "(run_step_of prep published outcome ^^ n) demo_start q" "run_step_of prep published outcome q st" by auto
  from Suc.IH [OF q(1)] run_step_ok [OF q(2) _ assms(2,3)] run_step_decreases [OF q(2)] show ?case by auto
qed

lemma run_finishes:
  assumes "outcome 1 \<noteq> Panic" and "outcome 2 \<noteq> Panic" and "prep \<noteq> Panic" and "published \<noteq> Panic"
  shows "\<exists>n st r. (run_step_of prep published outcome ^^ n) demo_start st \<and> dr_main st = Run_returned r"
proof -
  have "\<exists>n st r. (run_step_of prep published outcome ^^ n) demo_start st \<and> dr_main st = Run_returned r"
    if "(run_step_of prep published outcome ^^ k) demo_start q" for k q
    using that
  proof (induction "demo_measure q" arbitrary: k q rule: less_induct)
    case less
    note ok = conjunct1 [OF runs_ok [OF less.prems assms(1,2)]]
    show ?case
    proof (cases "running q")
      case True
      then obtain q' where q': "run_step_of prep published outcome q q'" using run_progress [OF ok _ assms] by blast
      from less.hyps [OF run_step_decreases [OF q' ok] relpowp_Suc_I [OF less.prems q']] show ?thesis .
    next
      case False
      then show ?thesis using less.prems by (auto simp: running_def)
    qed
  qed
  from this [OF relpowp_0_I] show ?thesis .
qed

end
