(* ===== verification/Net_Session.thy ===== *)
theory Net_Session
  imports Net_Requests
begin

text \<open>
  Many clients at work on one server: each has a connection of its own, and their calls, one after
  the other in any order, meet the same broker. A call runs the client, the server's handler on what
  the client sent, and the client on what came back. What the clients see is stated as a
  specification: the map of topics of \<open>Broker_Spec\<close>, and which clients have subscribed.
\<close>

section \<open>Calls over connections\<close>

type_synonym link = "client \<times> hconn"

text \<open>
  One call \<open>m\<close> over a link: the handler works off the bytes the call sent and waits again; a handler
  without new bytes is left waiting.
\<close>

definition over ::
    "(gostring \<Rightarrow> gostring) \<Rightarrow> 'x store_ops \<Rightarrow> server \<Rightarrow> (net \<Rightarrow> (client, gerror, 'a) go) \<Rightarrow> (link \<times> 'x broker, gerror, 'a) go" where
  "over quote fops s m = (\<lambda>((c, h), b).
     case m (loopback quote fops s h b) c of (r, c') \<Rightarrow>
       let bytes = drop (length (client_sent c)) (client_sent c') in
       if bytes = [] then (r, ((c', h), b))
       else case handleConn quote fops s (h\<lparr>h_in := stream_of bytes\<rparr>, b) of (v, (h', b')) \<Rightarrow> (r, ((c', h'), b')))"

datatype call =
    CallCreate gostring
  | CallPublish gostring bytes
  | CallAsync gostring bytes
  | CallBatch gostring "bytes list"
  | CallList
  | CallSubscribe gostring

primrec client_call ::
    "(gostring \<Rightarrow> gostring) \<Rightarrow> 'x store_ops \<Rightarrow> server \<Rightarrow> call \<Rightarrow> link \<times> 'x broker \<Rightarrow> response \<times> (link \<times> 'x broker)" where
  "client_call quote fops s (CallCreate name) st =
     apfst (\<lambda>r. RespUnit (answer r)) (over quote fops s (\<lambda>net. Client_CreateTopic net name) st)"
| "client_call quote fops s (CallPublish topic payload) st =
     apfst (\<lambda>r. RespOffset (answer r)) (over quote fops s (\<lambda>net. Client_Publish net topic payload) st)"
| "client_call quote fops s (CallAsync topic payload) st =
     apfst (\<lambda>r. RespUnit (answer r)) (over quote fops s (\<lambda>net. PublishAsync False topic payload) st)"
| "client_call quote fops s (CallBatch topic payloads) st =
     apfst (\<lambda>r. RespOffset (answer r)) (over quote fops s (\<lambda>net. Client_PublishBatch net topic payloads) st)"
| "client_call quote fops s CallList st =
     apfst (\<lambda>r. RespNames (answer r)) (over quote fops s (\<lambda>net. Client_ListTopics net) st)"
| "client_call quote fops s (CallSubscribe topic) st =
     apfst (\<lambda>r. RespUnit (answer r)) (over quote fops s (\<lambda>net. Client_Subscribe net topic) st)"

text \<open>A session: each call with the number of the client that makes it.\<close>

fun session_call ::
    "(gostring \<Rightarrow> gostring) \<Rightarrow> 'x store_ops \<Rightarrow> server \<Rightarrow> nat \<times> call \<Rightarrow> link list \<times> 'x broker \<Rightarrow>
      response \<times> (link list \<times> 'x broker)" where
  "session_call quote fops s (i, q) (ls, b) =
     (case client_call quote fops s q (ls ! i, b) of (a, (l, b')) \<Rightarrow> (a, (ls[i := l], b')))"

section \<open>What the clients see\<close>

text \<open>The first refusal, of those that apply.\<close>

fun first_of :: "sentinel option list \<Rightarrow> sentinel option" where
  "first_of [] = None"
| "first_of (x # xs) = (case x of Some e \<Rightarrow> Some e | None \<Rightarrow> first_of xs)"

definition refuse :: "sentinel \<Rightarrow> bool \<Rightarrow> sentinel option" where
  "refuse e b = (if b then Some e else None)"

text \<open>The calls that a client answers by itself, in the order in which it looks at things.\<close>

primrec refusal :: "call \<Rightarrow> bool \<Rightarrow> sentinel option" where
  "refusal (CallCreate name) streaming = first_of [name_error name, refuse ErrStreaming streaming]"
| "refusal (CallPublish topic payload) streaming =
     first_of [name_error topic, refuse ErrTooLarge (len payload > MaxMessage), refuse ErrStreaming streaming,
       refuse ErrTooLarge (len (EncodePublish topic payload) > MaxPayload)]"
| "refusal (CallAsync topic payload) streaming =
     first_of [refuse ErrStreaming streaming, name_error topic, refuse ErrTooLarge (len payload > MaxMessage),
       refuse ErrTooLarge (len (EncodePublish topic payload) > MaxPayload)]"
| "refusal (CallBatch topic payloads) streaming =
     first_of [refuse ErrEmptyBatch (payloads = []), name_error topic,
       refuse ErrTooLarge (list_ex (\<lambda>p. len p > MaxMessage) payloads), refuse ErrStreaming streaming,
       refuse ErrTooLarge (len (EncodePublishBatch topic payloads) > MaxPayload)]"
| "refusal CallList streaming = refuse ErrStreaming streaming"
| "refusal (CallSubscribe topic) streaming = first_of [refuse ErrStreaming streaming, name_error topic]"

primrec refused :: "call \<Rightarrow> sentinel \<Rightarrow> response" where
  "refused (CallCreate name) e = RespUnit (Fail (Some e))"
| "refused (CallPublish topic payload) e = RespOffset (Fail (Some e))"
| "refused (CallAsync topic payload) e = RespUnit (Fail (Some e))"
| "refused (CallBatch topic payloads) e = RespOffset (Fail (Some e))"
| "refused CallList e = RespNames (Fail (Some e))"
| "refused (CallSubscribe topic) e = RespUnit (Fail (Some e))"

definition remote_names :: "spec \<Rightarrow> gostring list answer" where
  "remote_names sp =
     (case spec_ListTopics sp of
        Ok names \<Rightarrow> if len (EncodeTopics names) > MaxPayload then Fail (Some ErrTooLarge) else Ok names
      | r \<Rightarrow> r)"

primrec accepted :: "int \<Rightarrow> nat \<Rightarrow> call \<Rightarrow> spec \<times> nat set \<Rightarrow> response \<times> (spec \<times> nat set)" where
  "accepted mx i (CallCreate name) st = apsnd (\<lambda>sp. (sp, snd st)) (spec_call mx (ReqCreate name) (fst st))"
| "accepted mx i (CallPublish topic payload) st =
     apsnd (\<lambda>sp. (sp, snd st)) (spec_call mx (ReqPublish topic payload) (fst st))"
| "accepted mx i (CallAsync topic payload) st =
     (RespUnit (Ok ()), (snd (spec_call mx (ReqPublish topic payload) (fst st)), snd st))"
| "accepted mx i (CallBatch topic payloads) st =
     apsnd (\<lambda>sp. (sp, snd st)) (spec_call mx (ReqPublishBatch topic payloads) (fst st))"
| "accepted mx i CallList st = (RespNames (remote_names (fst st)), st)"
| "accepted mx i (CallSubscribe topic) st =
     (RespUnit (spec_Subscribe topic (fst st)),
      (fst st, if spec_Subscribe topic (fst st) = Ok () then insert i (snd st) else snd st))"

definition remote_call :: "int \<Rightarrow> nat \<times> call \<Rightarrow> spec \<times> nat set \<Rightarrow> response \<times> (spec \<times> nat set)" where
  "remote_call mx iq st =
     (case refusal (snd iq) (fst iq \<in> snd st) of
        Some e \<Rightarrow> (refused (snd iq) e, st)
      | None \<Rightarrow> accepted mx (fst iq) (snd iq) st)"

primrec call_count :: "call \<Rightarrow> nat" where
  "call_count (CallCreate name) = 0"
| "call_count (CallPublish topic payload) = 1"
| "call_count (CallAsync topic payload) = 1"
| "call_count (CallBatch topic payloads) = length payloads"
| "call_count CallList = 0"
| "call_count (CallSubscribe topic) = 0"

section \<open>Calls the client refuses\<close>

lemma first_of_simps [simp]:
  "first_of (Some e # xs) = Some e" "first_of (None # xs) = first_of xs"
  "first_of (refuse e b # xs) = (if b then Some e else first_of xs)"
  by (simp_all add: refuse_def)

declare first_of.simps(2) [simp del]

lemma refuse_simps [simp]: "refuse e True = Some e" "refuse e False = None"
  by (simp_all add: refuse_def)

lemma refuse_Some [simp]: "refuse e b = Some e' \<longleftrightarrow> b \<and> e' = e" "refuse e b = None \<longleftrightarrow> \<not> b"
  by (auto simp: refuse_def)

lemma validate_cases:
  obtains (ok) "name_error name = None" "ValidateTopicName name = Ok ()"
  | (bad) e x where "name_error name = Some e" "ValidateTopicName name = Fail x" "error_root x = Some e"
proof (cases "name_error name")
  case None
  then show thesis using ok name_error_valid ValidateTopicName_eq_Ok by blast
next
  case (Some e)
  then have "ValidateTopicName name \<noteq> Ok ()" using name_error_valid ValidateTopicName_eq_Ok by force
  then obtain x where "ValidateTopicName name = Fail x"
    using ValidateTopicName_no_panic [of name] by (cases "ValidateTopicName name") auto
  with Some bad show thesis using ValidateTopicName_error by metis
qed

lemma check_payloads_refused:
  "list_ex (\<lambda>p. len p > MaxMessage) ps \<Longrightarrow> \<exists>x. check_payloads i ps = Fail x \<and> error_root x = Some ErrTooLarge"
  by (induction ps arbitrary: i) (auto split: if_splits)

lemma check_payloads_fine: "\<not> list_ex (\<lambda>p. len p > MaxMessage) ps \<Longrightarrow> check_payloads i ps = Ok ()"
  by (auto simp: check_payloads_eq_Ok list_ex_iff)

lemma roundTrip_too_large:
  assumes "\<not> cl_closed c" and "\<not> cl_streaming c" and "\<And>w. write w = (fail_with ErrTooLarge, w)"
  shows "roundTripWrite net op write c = (fail_with ErrTooLarge, c)"
  using assms by (simp add: roundTripWrite_def roundTripWriteLocked_def write_request_def gbind_def opErr_def)

lemma writePublishOp_refused:
  "len (EncodePublish topic payload) > MaxPayload \<Longrightarrow> writePublishOp bufio_write op topic payload w = (fail_with ErrTooLarge, w)"
  by (simp add: writePublishOp_def Let_def EncodePublish_pieces)

text \<open>A call refused with \<open>e\<close> leaves the client as it was.\<close>

definition refuses :: "(client, gerror, 'a) go \<Rightarrow> client \<Rightarrow> sentinel \<Rightarrow> bool" where
  "refuses m c e \<longleftrightarrow> (\<exists>r. m c = (r, c) \<and> answer r = Fail (Some e))"

lemma refusesI: "m c = (Fail x, c) \<Longrightarrow> error_root x = Some e \<Longrightarrow> refuses m c e"
  by (simp add: refuses_def)

lemma over_refuses:
  assumes "refuses (m (loopback quote fops s h b)) c e"
  shows "apfst (\<lambda>r. f (answer r)) (over quote fops s m ((c, h), b)) = (f (Fail (Some e)), ((c, h), b))"
  using assms by (auto simp: refuses_def over_def)

lemma refuses_Create:
  assumes "\<not> cl_closed c" and "refusal (CallCreate name) (cl_streaming c) = Some e"
  shows "refuses (Client_CreateTopic net name) c e"
  using assms
  by (cases rule: validate_cases [of name])
    (auto simp: refuses_def Client_CreateTopic_def gbind_def roundTrip_def roundTripWrite_def)

lemma refuses_Publish:
  assumes "\<not> cl_closed c" and "refusal (CallPublish topic payload) (cl_streaming c) = Some e"
  shows "refuses (Client_Publish net topic payload) c e"
  using assms(1)
proof (cases rule: validate_cases [of topic])
  case ok
  have large: "roundTripWrite net OpPublish (WritePublish bufio_write topic payload) c = (fail_with ErrTooLarge, c)"
    if "\<not> cl_streaming c" "len (EncodePublish topic payload) > MaxPayload"
    using roundTrip_too_large [OF assms(1) that(1)] writePublishOp_refused [OF that(2)] by (simp add: WritePublish_def)
  show ?thesis
  proof (cases "len payload > MaxMessage")
    case True
    with assms ok show ?thesis
      by (intro refusesI [of _ _ "payload_over payload"]) (simp_all add: Client_Publish_def gbind_def payload_over_def)
  next
    case False
    with assms ok large show ?thesis
      by (cases "cl_streaming c")
        (auto simp: refuses_def Client_Publish_def gbind_def roundTripWrite_def [of _ _ _ c] split: if_splits)
  qed
qed (use assms(2) in \<open>auto simp: refuses_def Client_Publish_def gbind_def\<close>)

lemma refuses_Async:
  assumes "\<not> cl_closed c" and "refusal (CallAsync topic payload) (cl_streaming c) = Some e"
  shows "refuses (PublishAsync closing topic payload) c e"
proof (cases "cl_streaming c")
  case True
  with assms show ?thesis by (simp add: refuses_def PublishAsync_def)
next
  case False
  show ?thesis
  proof (cases rule: validate_cases [of topic])
    case ok
    have large: "write_request (WritePublishNoAck bufio_write topic payload) c = (fail_with ErrTooLarge, c)"
      if "len (EncodePublish topic payload) > MaxPayload"
      using writePublishOp_refused [OF that] assms(1) by (simp add: write_request_def WritePublishNoAck_def opErr_def)
    show ?thesis
      using assms False ok large
      by (auto simp: refuses_def PublishAsync_def gbind_def payload_over_def split: if_splits)
  qed (use assms False in \<open>auto simp: refuses_def PublishAsync_def gbind_def\<close>)
qed

lemma refuses_Batch:
  assumes "\<not> cl_closed c" and "refusal (CallBatch topic payloads) (cl_streaming c) = Some e"
  shows "refuses (Client_PublishBatch net topic payloads) c e"
proof (cases "payloads = []")
  case True
  with assms show ?thesis by (simp add: refuses_def Client_PublishBatch_def)
next
  case False
  show ?thesis
  proof (cases rule: validate_cases [of topic])
    case ok
    show ?thesis
    proof (cases "list_ex (\<lambda>p. len p > MaxMessage) payloads")
      case True
      with check_payloads_refused [OF this, of 0] assms False ok show ?thesis
        by (auto simp: refuses_def Client_PublishBatch_def gbind_def)
    next
      case small: False
      have large: "roundTripWrite net OpPublishBatch (WritePublishBatch bufio_write topic payloads) c = (fail_with ErrTooLarge, c)"
        if "\<not> cl_streaming c" "len (EncodePublishBatch topic payloads) > MaxPayload"
        using that(2) by (intro roundTrip_too_large [OF assms(1) that(1)] WritePublishBatch_refused) simp
      show ?thesis
        using assms False ok small large check_payloads_fine [OF small, of 0]
        by (cases "cl_streaming c")
          (auto simp: refuses_def Client_PublishBatch_def gbind_def roundTripWrite_def [of _ _ _ c] split: if_splits)
    qed
  qed (use assms False in \<open>auto simp: refuses_def Client_PublishBatch_def gbind_def\<close>)
qed

lemma refuses_List:
  assumes "\<not> cl_closed c" and "refusal CallList (cl_streaming c) = Some e"
  shows "refuses (Client_ListTopics net) c e"
  using assms by (auto simp: refuses_def Client_ListTopics_def roundTrip_def roundTripWrite_def gbind_def)

lemma refuses_Subscribe:
  assumes "\<not> cl_closed c" and "refusal (CallSubscribe topic) (cl_streaming c) = Some e"
  shows "refuses (Client_Subscribe net topic) c e"
  using assms
  by (cases rule: validate_cases [of topic]) (auto simp: refuses_def Client_Subscribe_def gbind_def split: if_splits)

lemmas refuses_call = refuses_Create refuses_Publish refuses_Async refuses_Batch refuses_List refuses_Subscribe

lemma refused_call:
  assumes "\<not> cl_closed c" and "refusal q (cl_streaming c) = Some e"
  shows "client_call quote fops s q ((c, h), b) = (refused q e, ((c, h), b))"
  by (cases q) (use assms in \<open>simp_all add: over_refuses refuses_call del: refusal.simps\<close>)

text \<open>
  The sentinel of a request on a client that is closed or streams; \<open>checks\<close> are those of its arguments
  that come before the look at the stream.
\<close>

definition in_phase :: "client \<Rightarrow> sentinel option list \<Rightarrow> sentinel" where
  "in_phase c checks =
     (if cl_closed c then ErrClientClosed else case first_of checks of Some e \<Rightarrow> e | None \<Rightarrow> ErrStreaming)"

lemma closed_client_refuses:
  assumes "cl_closed c"
  shows "refuses (Client_CreateTopic net topic) c ErrClientClosed" "refuses (Client_ListTopics net) c ErrClientClosed"
    "refuses (Client_Publish net topic payload) c ErrClientClosed"
    "refuses (Client_PublishBatch net topic payloads) c ErrClientClosed"
    "refuses (PublishAsync closing topic payload) c ErrClientClosed"
    "refuses (Client_Subscribe net topic) c ErrClientClosed"
  using assms
  by (simp_all add: refuses_def Client_CreateTopic_def Client_ListTopics_def Client_Publish_def
      Client_PublishBatch_def PublishAsync_def Client_Subscribe_def)

section \<open>Calls the server serves\<close>

definition link_ok :: "bool \<Rightarrow> link \<Rightarrow> bool" where
  "link_ok streaming l \<longleftrightarrow>
     (case l of (c, h) \<Rightarrow> \<not> cl_closed c \<and> cl_streaming c = streaming \<and> (\<not> streaming \<longrightarrow> idle c \<and> sound h))"

definition links_ok :: "nat set \<Rightarrow> link list \<Rightarrow> bool" where
  "links_ok subs ls \<longleftrightarrow> (\<forall>j < length ls. link_ok (j \<in> subs) (ls ! j))"

lemma link_ok_idle [simp]: "idle c \<Longrightarrow> link_ok False (c, h) = sound h"
  by (auto simp: link_ok_def idle_def)

lemma frame_bytes_not_Nil [simp]: "frame_bytes op p \<noteq> []"
  by (simp add: frame_bytes_def header_bytes_def)

lemma over_serves:
  assumes "m (loopback quote fops s h b) c = (r, c')" and "client_sent c' = client_sent c @ frame_bytes op p"
    and "sound h" and "serves quote fops op p b b'"
  shows "\<exists>h'. over quote fops s m ((c, h), b) = (r, ((c', h'), b')) \<and> sound h'"
proof -
  let ?h = "h\<lparr>h_in := stream_of (frame_bytes op p)\<rparr>"
  obtain r' where r': "rpc fops op p b = (r', b')" "responds quote r'" "is_rpc op" "len p \<le> MaxPayload"
    using assms(4) by (cases "rpc fops op p b") (auto simp: serves_def)
  then have "r' \<noteq> Panic" "frame_fits (response_of quote op r')"
    by (auto simp: responds_def split: outcome.splits intro!: response_fits_wire)
  then have "\<exists>h'. handleConn quote fops s (?h, b) = (Ok Stop, (h', b')) \<and> sound h' \<and> h_in h' = [] \<and>
      on_wire h' = on_wire ?h @ frames_bytes [response_of quote op r']"
    using r' assms(3) by (intro handleConn_serves [where qs = "[(op, p)]"]) (simp_all add: frame_fits_def)
  then show ?thesis using assms(1,2) by (auto simp: over_def)
qed

text \<open>Subscribing: the handler answers and becomes a stream, or reports the error and waits on.\<close>

lemma handleConn_subscribe:
  assumes h: "sound h" and hin: "h_in h = stream_of (frame_bytes OpSubscribe topic)" and len: "len topic \<le> MaxPayload"
    and r: "Broker_Subscribe topic b = (r, b')" and np: "r \<noteq> Panic"
    and fits: "frame_fits (response_of quote OpSubscribe (map_ok (\<lambda>_. []) r))"
  obtains v h' where "handleConn quote fops s (h, b) = (v, (h', b'))" "sound h'"
    "on_wire h' = on_wire h @ case_prod frame_bytes (response_of quote OpSubscribe (map_ok (\<lambda>_. []) r))"
proof -
  let ?h = "h\<lparr>h_in := []\<rparr>"
  have "sound ?h" using h by simp
  show thesis
  proof (cases r)
    case (Ok ts)
    obtain t sid where ts: "ts = (t, sid)" by force
    have "response_fits quote OpSubscribe None []"
      using fits Ok by (simp add: response_fits_def response_frame_def frame_fits_def response_of_def)
    from reply_sound [OF \<open>sound ?h\<close> this, of s b'] obtain h' where
      h': "reply quote s OpSubscribe None [] (?h, b') = (Ok Continue, (h', b'))" "sound h'"
      "on_wire h' = on_wire h @ response_bytes quote OpSubscribe None []" by auto
    have "handle_frame quote fops s OpSubscribe topic (?h, b) = (Ok (Streaming t sid), (h', b'))"
      using r Ok ts h'(1) by (simp add: handle_frame_def opcode_defs handle_subscribe_def)
    then have "handleConn quote fops s (h, b) = (Ok (Streaming t sid), (h', b'))"
      using h hin len
      by (simp add: handleConn.simps [of quote fops s h] sound_def armRead_def ReadFrame_frame [where s = "[]", simplified])
    then show thesis
      using h' Ok by (intro that) (auto simp: response_bytes_def response_frame_def response_of_def)
  next
    case (Fail e)
    have "response_fits quote OpSubscribe (Some e) []"
      using fits Fail by (simp add: response_fits_def response_frame_def frame_fits_def response_of_def)
    from reply_sound [OF \<open>sound ?h\<close> this, of s b'] obtain h' where
      h': "reply quote s OpSubscribe (Some e) [] (?h, b') = (Ok Continue, (h', b'))" "sound h'" "h_in h' = []"
      "on_wire h' = on_wire h @ response_bytes quote OpSubscribe (Some e) []" by auto
    have "handle_frame quote fops s OpSubscribe topic (?h, b) = (Ok Continue, (h', b'))"
      using r Fail h'(1) by (simp add: handle_frame_def opcode_defs handle_subscribe_def)
    then have "handleConn quote fops s (h, b) = handleConn quote fops s (h', b')"
      using hin by (intro handleConn_step [OF h _ len]) auto
    also have "\<dots> = (Ok Stop, (h', b'))" by (rule handleConn_eof [OF h'(2,3)])
    finally show thesis
      using h' Fail by (intro that) (auto simp: response_bytes_def response_frame_def response_of_def)
  qed (use np in simp)
qed

lemma Broker_Subscribe_answer:
  assumes ok: "broker_ok finv flog b" and r: "Broker_Subscribe name b = (r, b')"
    and q: "quote_bound quote" and v: "valid_name name"
  shows "answer (map_ok (\<lambda>_. ()) r) = spec_Subscribe name (abs_broker flog b) \<and> (\<forall>e. r = Fail e \<longrightarrow> wire_error quote e)"
proof (cases rule: lookup_topic_cases [where b = b and name = name])
  case closed
  then have "r = Fail (Wrap (AtTopic (ascii ''subscribe to'') name) (Sentinel ErrClosed))"
    using r by (simp add: Broker_Subscribe_def wrapClosed_def)
  then show ?thesis
    using closed(1) by (auto simp: spec_Subscribe_def intro!: wire_error_topic [OF q v])
next
  case missing
  then have "r = fail_with ErrTopicNotFound" using r by (simp add: Broker_Subscribe_def wrapClosed_def)
  then show ?thesis
    using missing topic_logs_eq(1) [OF missing(2), of flog]
    by (auto simp: spec_Subscribe_def abs_broker_open intro!: wire_error_sentinel)
next
  case (found t)
  show ?thesis
    using ok
  proof (cases rule: Broker_Subscribe_cases [where name = name])
    case (fail e)
    then show ?thesis
      using found broker_okD(3,6) [OF ok] by (auto simp: Broker_Subscribe_def on_part_eq gbind_def Partition_Subscribe_def Let_def)
  next
    case (ok t' p)
    then have "r = Ok (t', length (p_heap (b_parts b ! t')))" using r by simp
    then show ?thesis
      using found topic_logs_eq(2) [OF found(2), of flog] by (simp add: spec_Subscribe_def abs_broker_open)
  qed
qed

text \<open>What a served call leaves: the client's answer and the state after it are those of the specification.\<close>

definition call_ok ::
    "('x \<Rightarrow> bool) \<Rightarrow> ('x \<Rightarrow> bytes list) \<Rightarrow> nat \<Rightarrow> call \<Rightarrow> nat set \<Rightarrow> 'x broker \<Rightarrow> response \<times> (link \<times> 'x broker) \<Rightarrow> bool" where
  "call_ok finv flog i q subs b out \<longleftrightarrow>
     serving finv flog 0 (snd (snd out)) \<and> b_maxTopics (snd (snd out)) = b_maxTopics b \<and>
     (\<exists>subs'. accepted (b_maxTopics b) i q (abs_broker flog b, subs) =
         (fst out, (abs_broker flog (snd (snd out)), subs')) \<and>
       link_ok (i \<in> subs') (fst (snd out)) \<and> subs' - {i} = subs - {i})"

lemma answer_wire:
  "r \<noteq> Panic \<Longrightarrow> \<forall>e. r = Fail e \<longrightarrow> wire_error quote e \<Longrightarrow> answer (transport quote r) = answer r"
  by (intro answer_transport) (auto simp: wire_error_def)

lemma call_okI:
  assumes "client_call quote fops s q ((c, h), b) = (a, ((c', h'), b'))" and "idle c'" and "sound h'" and "i \<notin> subs"
    and "accepted (b_maxTopics b) i q (abs_broker flog b, subs) = (a, (abs_broker flog b', subs))"
    and "serving finv flog 0 b'" and "b_maxTopics b' = b_maxTopics b"
  shows "call_ok finv flog i q subs b (client_call quote fops s q ((c, h), b))"
  using assms by (simp add: call_ok_def)

text \<open>What a client does not refuse has a valid name, fits in a frame, and is not made while it streams.\<close>

lemma not_refused:
  "refusal (CallCreate name) st = None \<Longrightarrow> valid_name name \<and> \<not> st"
  "refusal (CallPublish topic payload) st = None \<Longrightarrow>
     valid_name topic \<and> len (EncodePublish topic payload) \<le> MaxPayload \<and> len payload \<le> MaxMessage \<and> \<not> st"
  "refusal (CallAsync topic payload) st = None \<Longrightarrow>
     valid_name topic \<and> len (EncodePublish topic payload) \<le> MaxPayload \<and> len payload \<le> MaxMessage \<and> \<not> st"
  "refusal (CallBatch topic payloads) st = None \<Longrightarrow>
     valid_name topic \<and> len (EncodePublishBatch topic payloads) \<le> MaxPayload \<and> payloads \<noteq> [] \<and> \<not> st"
  "refusal CallList st = None \<Longrightarrow> \<not> st"
  "refusal (CallSubscribe topic) st = None \<Longrightarrow> valid_name topic \<and> \<not> st"
  using name_error_valid [of name] name_error_valid [of topic]
  by (cases "name_error name"; cases "name_error topic"; force simp: not_less split: if_splits)+

context reliable_user_store
begin

lemma served_Create:
  assumes c: "idle c" and h: "sound h" and b: "serving finv flog 0 b" and q: "quote_bound quote"
    and i: "i \<notin> subs" and v: "valid_name name"
  shows "call_ok finv flog i (CallCreate name) subs b (client_call quote fops s (CallCreate name) ((c, h), b))"
proof -
  obtain r b' where r: "CreateTopic name b = (r, b')" by force
  note e = CreateTopic_effect [OF b r]
  have "wire_error quote x" if "r = Fail x" for x
    using CreateTopic_wire_error [OF _ _ q v] b r that by (auto simp: serving_def)
  then have a: "answer (transport quote r) = answer r" using e by (intro answer_wire) auto
  obtain c' where c': "Client_CreateTopic (loopback quote fops s h b) name c = (transport quote r, c')" "idle c'"
    "client_sent c' = client_sent c @ frame_bytes OpCreateTopic name" "serves quote fops OpCreateTopic name b b'"
    by (rule Client_CreateTopic_loopback [OF c h b q v, of s]) (use r in simp)
  from over_serves [where m = "\<lambda>net. Client_CreateTopic net name", OF c'(1,3) h c'(4)] obtain h' where
    h': "over quote fops s (\<lambda>net. Client_CreateTopic net name) ((c, h), b) = (transport quote r, ((c', h'), b'))" "sound h'"
    by blast
  have "answer r = fst (spec_CreateTopic (b_maxTopics b) name (abs_broker flog b))"
    using broker_effect [of "ReqCreate name" b "RespUnit (answer r)" b'] b r by simp
  then show ?thesis
    using e by (intro call_okI [where b' = b', OF _ c'(2) h'(2) i]) (auto simp: h'(1) a prod_eq_iff)
qed

lemma served_Publish:
  assumes c: "idle c" and h: "sound h" and b: "serving finv flog 1 b" and q: "quote_bound quote" and i: "i \<notin> subs"
    and v: "valid_name topic" and sz: "len (EncodePublish topic payload) \<le> MaxPayload" and small: "len payload \<le> MaxMessage"
  shows "call_ok finv flog i (CallPublish topic payload) subs b
    (client_call quote fops s (CallPublish topic payload) ((c, h), b))"
proof -
  obtain r b' where r: "Broker_Publish fops topic payload b = (r, b')" by force
  note e = Broker_Publish_effect [OF b r]
  have "wire_error quote x" if "r = Fail x" for x using publish_one_wire_error [OF b q v] r that by auto
  then have a: "answer (transport quote r) = answer r" using e by (intro answer_wire) auto
  obtain c' where c': "Client_Publish (loopback quote fops s h b) topic payload c = (transport quote r, c')" "idle c'"
    "client_sent c' = client_sent c @ frame_bytes OpPublish (EncodePublish topic payload)"
    "serves quote fops OpPublish (EncodePublish topic payload) b b'"
    by (rule Client_Publish_loopback [OF c h b q v sz small, of s]) (use r in simp)
  from over_serves [where m = "\<lambda>net. Client_Publish net topic payload", OF c'(1,3) h c'(4)] obtain h' where
    h': "over quote fops s (\<lambda>net. Client_Publish net topic payload) ((c, h), b) = (transport quote r, ((c', h'), b'))" "sound h'"
    by blast
  have "answer r = fst (spec_append topic [payload] 0 (abs_broker flog b))"
    using broker_effect [of "ReqPublish topic payload" b "RespOffset (answer r)" b'] b r by simp
  then show ?thesis
    using e by (intro call_okI [where b' = b', OF _ c'(2) h'(2) i]) (auto simp: h'(1) a prod_eq_iff)
qed

lemma served_Batch:
  assumes c: "idle c" and h: "sound h" and b: "serving finv flog (length payloads) b" and q: "quote_bound quote"
    and i: "i \<notin> subs" and v: "valid_name topic" and sz: "len (EncodePublishBatch topic payloads) \<le> MaxPayload"
    and ne: "payloads \<noteq> []"
  shows "call_ok finv flog i (CallBatch topic payloads) subs b
    (client_call quote fops s (CallBatch topic payloads) ((c, h), b))"
proof -
  obtain r b' where r: "Broker_PublishBatch fops topic payloads b = (r, b')" by force
  note e = Broker_PublishBatch_effect [OF b r]
  have "wire_error quote x" if "r = Fail x" for x using publish_wire_error [OF b q v] r that by auto
  then have a: "answer (transport quote r) = answer r" using e by (intro answer_wire) auto
  obtain c' where c': "Client_PublishBatch (loopback quote fops s h b) topic payloads c = (transport quote r, c')" "idle c'"
    "client_sent c' = client_sent c @ frame_bytes OpPublishBatch (EncodePublishBatch topic payloads)"
    "serves quote fops OpPublishBatch (EncodePublishBatch topic payloads) b b'"
    by (rule Client_PublishBatch_loopback [OF c h b q v sz ne, of s]) (use r in simp)
  from over_serves [where m = "\<lambda>net. Client_PublishBatch net topic payloads", OF c'(1,3) h c'(4)] obtain h' where
    h': "over quote fops s (\<lambda>net. Client_PublishBatch net topic payloads) ((c, h), b) = (transport quote r, ((c', h'), b'))"
      "sound h'"
    by blast
  have "answer r = fst (spec_append topic payloads 0 (abs_broker flog b))"
    using broker_effect [of "ReqPublishBatch topic payloads" b "RespOffset (answer r)" b'] b r by simp
  then show ?thesis
    using e by (intro call_okI [where b' = b', OF _ c'(2) h'(2) i]) (auto simp: h'(1) a prod_eq_iff)
qed

lemma served_Async:
  assumes c: "idle c" and h: "sound h" and b: "serving finv flog 1 b" and i: "i \<notin> subs"
    and v: "valid_name topic" and sz: "len (EncodePublish topic payload) \<le> MaxPayload" and small: "len payload \<le> MaxMessage"
  shows "call_ok finv flog i (CallAsync topic payload) subs b
    (client_call quote fops s (CallAsync topic payload) ((c, h), b))"
proof -
  obtain r b' where r: "Broker_Publish fops topic payload b = (r, b')" by force
  note e = Broker_Publish_effect [OF b r]
  let ?bs = "frame_bytes OpPublishNoAck (EncodePublish topic payload)" and ?m = "\<lambda>net. PublishAsync False topic payload"
  obtain c' where c': "PublishAsync False topic payload c = (Ok (), c')" "client_sent c' = client_sent c @ ?bs" "idle c'"
    by (rule PublishAsync_sends [OF c v sz small, of False]) simp
  obtain h' where h': "handleConn quote fops s (h\<lparr>h_in := stream_of ?bs\<rparr>, b) = (Ok Stop, (h', b'))" "sound h'"
    using handleConn_no_ack [of "h\<lparr>h_in := stream_of ?bs\<rparr>" topic payload b quote s] h b v sz small r by auto
  then have "over quote fops s ?m ((c, h), b) = (Ok (), ((c', h'), b'))" using c' by (simp add: over_def)
  then show ?thesis
    using e by (intro call_okI [where b' = b', OF _ c'(3) h'(2) i]) auto
qed

lemma served_List:
  assumes c: "idle c" and h: "sound h" and b: "serving finv flog 0 b" and i: "i \<notin> subs"
  shows "call_ok finv flog i CallList subs b (client_call quote fops s CallList ((c, h), b))"
proof -
  have "bok b" using b by (simp add: serving_def)
  then have "answer (list_result b) = remote_names (abs_broker flog b)"
    by (cases "ListTopics b")
      (simp_all add: list_result_def remote_names_def topics_too_large_def flip: ListTopics_refines)
  moreover have "answer (transport quote (list_result b)) = answer (list_result b)"
    by (cases rule: list_result_cases [of b]) (auto simp: error_code_roundtrip wire_error_def)
  ultimately have a: "answer (transport quote (list_result b)) = remote_names (abs_broker flog b)" by simp
  obtain c' where c': "Client_ListTopics (loopback quote fops s h b) c = (transport quote (list_result b), c')" "idle c'"
    "client_sent c' = client_sent c @ frame_bytes OpListTopics []" "serves quote fops OpListTopics [] b b"
    by (rule Client_ListTopics_loopback [OF c h])
  from over_serves [where m = Client_ListTopics, OF c'(1,3) h c'(4)] obtain h' where
    h': "over quote fops s Client_ListTopics ((c, h), b) = (transport quote (list_result b), ((c', h'), b))" "sound h'"
    by blast
  then show ?thesis
    using b by (intro call_okI [where b' = b, OF _ c'(2) h'(2) i]) (auto simp: h'(1) a)
qed

lemma served_Subscribe:
  assumes c: "idle c" and h: "sound h" and b: "serving finv flog 0 b" and q: "quote_bound quote" and i: "i \<notin> subs"
    and v: "valid_name topic"
  shows "call_ok finv flog i (CallSubscribe topic) subs b (client_call quote fops s (CallSubscribe topic) ((c, h), b))"
proof -
  obtain r b' where r: "Broker_Subscribe topic b = (r, b')" by force
  have bk: "bok b" using b by (simp add: serving_def)
  note e = Broker_Subscribe_ok [OF bk r] and a = Broker_Subscribe_answer [OF bk r q v]
  let ?r = "map_ok (\<lambda>_. [] :: bytes) r" and ?bs = "frame_bytes OpSubscribe topic"
  let ?i = "stream_of (case_prod frame_bytes (response_of quote OpSubscribe ?r))"
  have len: "len topic \<le> MaxPayload" using v by (simp add: valid_name_def MaxPayload_def)
  have fits: "frame_fits (response_of quote OpSubscribe ?r)"
    using a e by (intro response_fits_wire; cases r) (auto simp: MaxPayload_def)
  have np: "?r \<noteq> Panic" using e by (cases r) auto
  obtain v h' where h': "handleConn quote fops s (h\<lparr>h_in := stream_of ?bs\<rparr>, b) = (v, (h', b'))" "sound h'"
    "on_wire h' = on_wire h @ case_prod frame_bytes (response_of quote OpSubscribe ?r)"
    by (rule handleConn_subscribe [where h = "h\<lparr>h_in := stream_of ?bs\<rparr>" and topic = topic and b = b and r = r and
          b' = b' and quote = quote and s = s and fops = fops])
      (use h r e len fits in auto)
  then have net: "loopback quote fops s h b ?bs = (?i, False)" by (simp add: loopback_def)
  obtain c' where c': "Client_Subscribe (loopback quote fops s h b) topic c =
      (obind (fst (response_in OpSubscribe ?i)) (\<lambda>_. Ok ()),
       c'\<lparr>cl_in := snd (response_in OpSubscribe ?i),
          cl_streaming := (\<exists>body. fst (response_in OpSubscribe ?i) = Ok body)\<rparr>)" "idle c'"
    "client_sent c' = client_sent c @ ?bs"
    by (rule Client_Subscribe_response [where net = "loopback quote fops s h b", OF c assms(6) net])
  have "read_response OpSubscribe (c'\<lparr>cl_in := ?i\<rparr>) = (transport quote ?r, c'\<lparr>cl_in := ?i\<rparr>\<lparr>cl_in := []\<rparr>)"
    by (rule read_response_response [OF np _ fits]) (simp_all add: opcode_defs)
  then have resp: "fst (response_in OpSubscribe ?i) = transport quote ?r"
    "c'\<lparr>cl_in := snd (response_in OpSubscribe ?i)\<rparr> = c'\<lparr>cl_in := []\<rparr>"
    using c'(2) by (simp_all add: read_response_open idle_def)
  let ?c = "c'\<lparr>cl_in := snd (response_in OpSubscribe ?i), cl_streaming := (\<exists>body. fst (response_in OpSubscribe ?i) = Ok body)\<rparr>"
  have ov: "over quote fops s (\<lambda>net. Client_Subscribe net topic) ((c, h), b) =
      (obind (fst (response_in OpSubscribe ?i)) (\<lambda>_. Ok ()), ((?c, h'), b'))"
    using c' h'(1) by (simp add: over_def client_sent_def)
  have nil: "snd (response_in OpSubscribe ?i) = []" using arg_cong [OF resp(2), of cl_in] by simp
  have sv: "serving finv flog 0 b'" using b e by (simp add: serving_def)
  have u: "answer (obind (transport quote ?r) (\<lambda>_. Ok ())) = spec_Subscribe topic (abs_broker flog b)"
    using a e by (cases r) (auto simp: error_code_roundtrip wire_error_def)
  have "cl_streaming ?c \<longleftrightarrow> spec_Subscribe topic (abs_broker flog b) = Ok ()"
    using a e unfolding client.simps resp(1) by (cases r) auto
  moreover have "\<not> cl_closed ?c" "\<not> cl_streaming ?c \<Longrightarrow> idle ?c"
    using c'(2) nil by (auto simp: idle_def flushed_def)
  ultimately have "link_ok (i \<in> (if spec_Subscribe topic (abs_broker flog b) = Ok () then insert i subs else subs)) (?c, h')"
    using i h'(2) by (simp add: link_ok_def)
  then show ?thesis
    using sv e u i unfolding call_ok_def client_call.simps ov resp(1)
    by (auto split: if_splits)
qed

lemma served_call:
  assumes l: "link_ok (i \<in> subs) (c, h)" and ok: "refusal q (i \<in> subs) = None"
    and b: "serving finv flog (call_count q) b" and q: "quote_bound quote"
  shows "call_ok finv flog i q subs b (client_call quote fops s q ((c, h), b))"
proof -
  have i: "i \<notin> subs" using ok by (cases q) (use not_refused in blast)+
  then have c: "idle c" "sound h" using l by (auto simp: link_ok_def)
  show ?thesis
  proof (cases q)
    case (CallCreate name)
    with not_refused(1) ok b show ?thesis by (auto intro!: served_Create [OF c _ q i] simp del: client_call.simps)
  next
    case (CallPublish topic payload)
    with not_refused(2) ok b show ?thesis by (auto intro!: served_Publish [OF c _ q i] simp del: client_call.simps)
  next
    case (CallAsync topic payload)
    with not_refused(3) ok b show ?thesis by (auto intro!: served_Async [OF c _ i] simp del: client_call.simps)
  next
    case (CallBatch topic payloads)
    with not_refused(4) ok b show ?thesis by (auto intro!: served_Batch [OF c _ q i] simp del: client_call.simps)
  next
    case CallList
    with b show ?thesis by (auto intro!: served_List [OF c _ i] simp del: client_call.simps)
  next
    case (CallSubscribe topic)
    with not_refused(6) ok b show ?thesis by (auto intro!: served_Subscribe [OF c _ q i] simp del: client_call.simps)
  qed
qed

section \<open>Sessions\<close>

lemma session_step:
  assumes b: "serving finv flog (call_count q) b" and q: "quote_bound quote" and i: "i < length ls"
    and ls: "links_ok subs ls" and r: "session_call quote fops s (i, q) (ls, b) = (a, (ls', b'))"
  shows "serving finv flog 0 b' \<and> b_maxTopics b' = b_maxTopics b \<and> length ls' = length ls \<and>
    (\<exists>subs'. remote_call (b_maxTopics b) (i, q) (abs_broker flog b, subs) = (a, (abs_broker flog b', subs')) \<and>
      links_ok subs' ls')"
proof -
  obtain c h where ch: "ls ! i = (c, h)" by force
  have l: "link_ok (i \<in> subs) (c, h)" using ls i ch by (auto simp: links_ok_def)
  show ?thesis
  proof (cases "refusal q (i \<in> subs)")
    case None
    obtain l' where l': "client_call quote fops s q ((c, h), b) = (a, (l', b'))" "ls' = ls[i := l']"
      using r ch by (auto split: prod.splits)
    from served_call [OF l None b q, of s] obtain subs' where ok: "serving finv flog 0 b'" "b_maxTopics b' = b_maxTopics b"
      "accepted (b_maxTopics b) i q (abs_broker flog b, subs) = (a, (abs_broker flog b', subs'))"
      "link_ok (i \<in> subs') l'" "subs' - {i} = subs - {i}"
      unfolding l'(1) call_ok_def by auto
    have "j \<in> subs' \<longleftrightarrow> j \<in> subs" if "j \<noteq> i" for j using ok(5) that by blast
    then have "links_ok subs' ls'"
      using ls ok(4) l'(2) i by (auto simp: links_ok_def nth_list_update)
    with ok None l'(2) show ?thesis by (auto simp: remote_call_def)
  next
    case (Some e)
    have "\<not> cl_closed c" "cl_streaming c = (i \<in> subs)" using l by (auto simp: link_ok_def)
    with Some have "client_call quote fops s q ((c, h), b) = (refused q e, ((c, h), b))"
      by (intro refused_call) simp_all
    then have eq: "a = refused q e" "ls' = ls" "b' = b" using r ch i list_update_id [of ls i] by auto
    with Some b ls show ?thesis by (auto simp: remote_call_def intro: serving_mono)
  qed
qed

end

lemma remote_fits:
  assumes "spec_fits (call_count q + n) sp" and "fits_int64 n"
  shows "spec_fits n (fst (snd (remote_call mx (i, q) (sp, subs))))"
proof (cases "refusal q (i \<in> subs)")
  case None
  have le: "spec_fits n sp" by (rule spec_fits_mono [OF _ assms(1)]) simp
  show ?thesis
    using None assms le spec_fits_call [of "ReqCreate name" n sp mx for name]
      spec_fits_call [of "ReqPublish t p" n sp mx for t p] spec_fits_call [of "ReqPublishBatch t ps" n sp mx for t ps]
    by (cases q) (simp_all add: remote_call_def)
next
  case (Some e)
  have "spec_fits n sp" by (rule spec_fits_mono [OF _ assms(1)]) simp
  with Some show ?thesis by (simp add: remote_call_def)
qed

context reliable_user_store
begin

lemma session_refines:
  assumes "serving finv flog (sum_list (map (call_count \<circ> snd) qs)) b" and "quote_bound quote"
    and "fits_int64 (sum_list (map (call_count \<circ> snd) qs))"
    and "links_ok subs ls" and "\<forall>(i, q) \<in> set qs. i < length ls"
  shows "run (session_call quote fops s) qs (ls, b) = run (remote_call (b_maxTopics b)) qs (abs_broker flog b, subs)"
  using assms
proof (induction qs arbitrary: ls b subs)
  case (Cons iq qs)
  obtain i q where iq: "iq = (i, q)" by force
  obtain a ls' b' where r: "session_call quote fops s (i, q) (ls, b) = (a, (ls', b'))"
    by (metis prod.exhaust)
  let ?n = "sum_list (map (call_count \<circ> snd) qs)"
  have sv: "serving finv flog (call_count q) b" by (rule serving_mono [OF Cons.prems(1)]) (simp add: iq)
  have i: "i < length ls" using Cons.prems(5) iq by simp
  from session_step [OF sv Cons.prems(2) i Cons.prems(4) r] obtain subs' where
    st: "serving finv flog 0 b'" "b_maxTopics b' = b_maxTopics b" "length ls' = length ls"
    "remote_call (b_maxTopics b) (i, q) (abs_broker flog b, subs) = (a, (abs_broker flog b', subs'))" "links_ok subs' ls'"
    by blast
  have fit: "fits_int64 ?n" using Cons.prems(3) by (rule fits_int64_mono [rotated]) (simp add: comp_def)
  have "spec_fits ?n (abs_broker flog b')"
    using remote_fits [of q ?n "abs_broker flog b" "b_maxTopics b" i subs] Cons.prems(1) fit st(4)
    by (simp add: serving_def iq comp_def)
  with st(1) have "serving finv flog ?n b'" by (simp add: serving_def)
  from Cons.IH [OF this Cons.prems(2) fit st(5)] show ?case
    using Cons.prems(5) r st iq by auto
qed simp

end

end
