(* ===== verification/Demo_Publisher.thy ===== *)
theory Demo_Publisher
  imports Demo Net_Session
begin

text \<open>
  The publisher of \<open>cmd/demo/main.go\<close>: over its connection to the server it creates the topic, then makes
  one \<open>Add\<close> after the other on a \<open>Batcher\<close> of 512 payloads and a millisecond, and \<open>Close\<close>, stopping at the
  first error. Beside it run the goroutines of the batcher's timer, each of which calls \<open>Flush\<close>. A step
  is one critical section of the batcher's lock, or one call of the client's \<open>PublishBatch\<close>, which holds the
  client's lock, so that those calls come one after the other.
\<close>

section \<open>The publisher and its timer\<close>

text \<open>
  The calls are numbered: the \<open>Add\<close>s from 0 on, and \<open>Close\<close> as number \<open>cnt\<close>. The goroutine of \<open>run\<close> is about
  to make call \<open>j\<close>, is in call \<open>j\<close> before the first locked section of \<open>Flush\<close> or in the \<open>PublishBatch\<close> of
  \<open>Flush\<close>, or has left the publisher's part with a result.
\<close>

datatype pub_place = Calling nat | Flushing nat | Sending nat | Returned "unit result"

datatype owner = Main | Timer

type_synonym flight = "owner \<times> bytes list \<times> i64 result option"

text \<open>
  \<open>pw_armed\<close>: the timer of the batcher has not fired yet. \<open>pw_fired\<close>: the goroutines of timers that have fired
  and not yet taken the lock in \<open>Flush\<close>. \<open>pw_flights\<close>: the batches taken and not yet accounted for, with the
  goroutine they belong to and the result of their publication once there is one.
\<close>

record 'x pub_world =
  pw_place :: pub_place
  pw_batcher :: batcher
  pw_armed :: bool
  pw_fired :: nat
  pw_flights :: "flight list"
  pw_net :: "link \<times> 'x broker"

definition demo_payload :: "nat \<Rightarrow> bytes" where
  "demo_payload j = ascii ''msg-'' @ decimal j"

definition publisher_start ::
    "(gostring \<Rightarrow> gostring) \<Rightarrow> 'x store_ops \<Rightarrow> server \<Rightarrow> link \<times> 'x broker \<Rightarrow> 'x pub_world" where
  "publisher_start quote fops s st =
     (case over quote fops s (\<lambda>net. Client_CreateTopic net topicName) st of
        (r, st) \<Rightarrow> \<lparr>pw_place = (case r of Ok _ \<Rightarrow> Calling 0 | Fail e \<Rightarrow> Returned (Fail e) | Panic \<Rightarrow> Returned Panic),
          pw_batcher = NewBatcher 512 (10 ^ 6), pw_armed = False, pw_fired = 0, pw_flights = [], pw_net = st\<rparr>)"

text \<open>The first locked section of call \<open>j\<close>; \<open>True\<close> when the call goes on with a \<open>Flush\<close>, as \<open>Close\<close> always does.\<close>

definition call_enter :: "nat \<Rightarrow> nat \<Rightarrow> (batcher, gerror, bool) go" where
  "call_enter cnt j b = (if j < cnt then Add_enter (demo_payload j) b else (Ok True, b\<lparr>ba_closed := True\<rparr>))"

definition next_call :: "nat \<Rightarrow> nat \<Rightarrow> pub_place" where
  "next_call cnt j = (if j < cnt then Calling (Suc j) else Returned (Ok ()))"

text \<open>
  The first locked section of \<open>Flush\<close>: \<open>Stop\<close> keeps a timer that has not fired from firing, and does nothing to one
  that has.
\<close>

definition take_batch :: "owner \<Rightarrow> 'x pub_world \<Rightarrow> bytes list \<times> 'x pub_world" where
  "take_batch who w =
     (case Flush_take (pw_batcher w) of
        (batch, b) \<Rightarrow> (batch, w\<lparr>pw_batcher := b, pw_armed := pw_armed w \<and> \<not> ba_timer (pw_batcher w),
          pw_flights := (if batch = [] then pw_flights w else pw_flights w @ [(who, batch, None)])\<rparr>))"

definition after_flush :: "nat \<Rightarrow> nat \<Rightarrow> 'a result \<Rightarrow> pub_place" where
  "after_flush cnt j r =
     (case r of Ok _ \<Rightarrow> next_call cnt j | Fail e \<Rightarrow> Returned (Fail e) | Panic \<Rightarrow> Returned Panic)"

inductive pub_step ::
    "(gostring \<Rightarrow> gostring) \<Rightarrow> 'x store_ops \<Rightarrow> server \<Rightarrow> nat \<Rightarrow> 'x pub_world \<Rightarrow> 'x pub_world \<Rightarrow> bool"
  for quote :: "gostring \<Rightarrow> gostring" and fops :: "'x store_ops" and s :: server and cnt :: nat where
  enter: "pw_place w = Calling j \<Longrightarrow> call_enter cnt j (pw_batcher w) = (r, b) \<Longrightarrow>
     pub_step quote fops s cnt w (w\<lparr>pw_batcher := b,
       pw_armed := pw_armed w \<or> \<not> ba_timer (pw_batcher w) \<and> ba_timer b,
       pw_place := (if r = Ok True then Flushing j else after_flush cnt j r)\<rparr>)"
| take: "pw_place w = Flushing j \<Longrightarrow> take_batch Main w = (batch, w') \<Longrightarrow>
     pub_step quote fops s cnt w (w'\<lparr>pw_place :=
       (if batch \<noteq> [] then Sending j
        else after_flush cnt j (case ba_err (pw_batcher w) of None \<Rightarrow> Ok () | Some e \<Rightarrow> Fail e))\<rparr>)"
| fire: "pw_armed w \<Longrightarrow>
     pub_step quote fops s cnt w (w\<lparr>pw_armed := False, pw_fired := Suc (pw_fired w)\<rparr>)"
| take_timer: "pw_fired w = Suc n \<Longrightarrow> take_batch Timer w = (batch, w') \<Longrightarrow>
     pub_step quote fops s cnt w (w'\<lparr>pw_fired := n\<rparr>)"
| publish: "pw_flights w = fs @ (who, batch, None) # gs \<Longrightarrow>
     over quote fops s (\<lambda>net. Client_PublishBatch net topicName batch) (pw_net w) = (r, st) \<Longrightarrow>
     pub_step quote fops s cnt w (w\<lparr>pw_flights := fs @ (who, batch, Some r) # gs, pw_net := st\<rparr>)"
| record_timer: "pw_flights w = fs @ (Timer, batch, Some r) # gs \<Longrightarrow>
     pub_step quote fops s cnt w (w\<lparr>pw_flights := fs @ gs, pw_batcher := Flush_record r (pw_batcher w)\<rparr>)"
| record_main: "pw_place w = Sending j \<Longrightarrow> pw_flights w = fs @ (Main, batch, Some r) # gs \<Longrightarrow>
     pub_step quote fops s cnt w (w\<lparr>pw_flights := fs @ gs, pw_batcher := Flush_record r (pw_batcher w),
       pw_place := after_flush cnt j r\<rparr>)"

inductive_cases pub_stepE: "pub_step quote fops s cnt w w'"

text \<open>Runs in which flushes may overlap, and runs in which no two do.\<close>

definition pub_run ::
    "bool \<Rightarrow> (gostring \<Rightarrow> gostring) \<Rightarrow> 'x store_ops \<Rightarrow> server \<Rightarrow> nat \<Rightarrow> 'x pub_world \<Rightarrow> 'x pub_world \<Rightarrow> bool" where
  "pub_run overlap quote fops s cnt w w' \<longleftrightarrow>
     pub_step quote fops s cnt w w' \<and> (overlap \<or> length (pw_flights w') \<le> 1)"

section \<open>Every run is short\<close>

fun place_weight :: "nat \<Rightarrow> pub_place \<Rightarrow> nat" where
  "place_weight cnt (Calling j) = 5 * (Suc cnt - j)"
| "place_weight cnt (Flushing j) = 5 * (cnt - j) + 3"
| "place_weight cnt (Sending j) = 5 * (cnt - j)"
| "place_weight cnt (Returned r) = 0"

fun flight_weight :: "flight \<Rightarrow> nat" where
  "flight_weight (who, batch, None) = 2"
| "flight_weight (who, batch, Some r) = 1"

definition pub_measure :: "nat \<Rightarrow> 'x pub_world \<Rightarrow> nat" where
  "pub_measure cnt w = place_weight cnt (pw_place w) + (if pw_armed w then 4 else 0) + 3 * pw_fired w +
     sum_list (map flight_weight (pw_flights w))"

text \<open>No call is made after \<open>Close\<close>.\<close>

fun place_within :: "nat \<Rightarrow> pub_place \<Rightarrow> bool" where
  "place_within cnt (Calling j) = (j \<le> cnt)"
| "place_within cnt (Flushing j) = (j \<le> cnt)"
| "place_within cnt (Sending j) = (j \<le> cnt)"
| "place_within cnt (Returned r) = True"

lemma next_call_facts: "j \<le> cnt \<Longrightarrow> place_within cnt (next_call cnt j)"
  "j \<le> cnt \<Longrightarrow> place_weight cnt (next_call cnt j) = 5 * (cnt - j)"
  by (simp_all add: next_call_def)

lemma after_flush_facts:
  assumes "j \<le> cnt"
  shows "place_within cnt (after_flush cnt j r)" "place_weight cnt (after_flush cnt j r) \<le> 5 * (cnt - j)"
  using next_call_facts [OF assms] by (cases r; simp add: after_flush_def)+

lemma take_batch_eq:
  "take_batch who w = (ba_buf (pw_batcher w), w\<lparr>pw_batcher := (pw_batcher w)\<lparr>ba_timer := False, ba_buf := []\<rparr>,
     pw_armed := pw_armed w \<and> \<not> ba_timer (pw_batcher w),
     pw_flights := (if ba_buf (pw_batcher w) = [] then pw_flights w
       else pw_flights w @ [(who, ba_buf (pw_batcher w), None)])\<rparr>)"
  by (simp add: take_batch_def Flush_take_eq)

lemma call_enter_timer: "call_enter cnt j b = (Ok True, b') \<Longrightarrow> ba_timer b' = ba_timer b"
  by (auto simp: call_enter_def Add_enter_def Let_def split: if_splits option.splits)

lemma pub_step_measure:
  assumes "pub_step quote fops s cnt w w'" and "place_within cnt (pw_place w)"
  shows "pub_measure cnt w' < pub_measure cnt w \<and> place_within cnt (pw_place w')"
  using assms(1)
proof cases
  case (enter j r b)
  then have j: "j \<le> cnt" using assms(2) by simp
  have "5 * (Suc cnt - j) = 5 * (cnt - j) + 5" using j by (simp add: Suc_diff_le)
  moreover have "r = Ok True \<Longrightarrow> ba_timer b = ba_timer (pw_batcher w)" using call_enter_timer enter(3) by blast
  ultimately show ?thesis using enter j after_flush_facts [OF j, of r] by (auto simp: pub_measure_def)
next
  case (take j batch w1)
  then have j: "j \<le> cnt" using assms(2) by simp
  with take after_flush_facts [OF j, of "case ba_err (pw_batcher w) of None \<Rightarrow> Ok () | Some e \<Rightarrow> Fail e"] show ?thesis
    by (auto simp: pub_measure_def take_batch_eq)
next
  case (record_main j fs batch r gs)
  then have j: "j \<le> cnt" using assms(2) by simp
  with record_main after_flush_facts [OF j, of r] show ?thesis by (auto simp: pub_measure_def)
qed (use assms(2) in \<open>auto simp: pub_measure_def take_batch_eq\<close>)

lemma pub_runs_bounded:
  assumes "(pub_run overlap quote fops s cnt ^^ n) w w'" and "place_within cnt (pw_place w)"
  shows "n + pub_measure cnt w' \<le> pub_measure cnt w \<and> place_within cnt (pw_place w')"
  using assms(1)
proof (induction n arbitrary: w')
  case 0
  with assms(2) show ?case by simp
next
  case (Suc n)
  from Suc.prems obtain w1 where w1: "(pub_run overlap quote fops s cnt ^^ n) w w1" "pub_run overlap quote fops s cnt w1 w'"
    by (rule relpowp_Suc_E)
  then have "pub_step quote fops s cnt w1 w'" by (simp add: pub_run_def)
  from Suc.IH [OF w1(1)] pub_step_measure [OF this] show ?case by auto
qed

section \<open>What every state of a run satisfies\<close>

definition flying :: "flight list \<Rightarrow> bytes list" where
  "flying fs = concat (map (\<lambda>(who, batch, r). if r = None then batch else []) fs)"

lemma flying_simps [simp]:
  "flying [] = []" "flying (fs @ gs) = flying fs @ flying gs"
  "flying ((who, batch, None) # fs) = batch @ flying fs" "flying ((who, batch, Some r) # fs) = flying fs"
  by (simp_all add: flying_def)

text \<open>How many payloads have been added.\<close>

fun added :: "nat \<Rightarrow> pub_place \<Rightarrow> nat" where
  "added cnt (Calling j) = j"
| "added cnt (Flushing j) = min cnt (Suc j)"
| "added cnt (Sending j) = min cnt (Suc j)"
| "added cnt (Returned r) = cnt"

text \<open>Each place with the state of the batcher: only the goroutine of \<open>run\<close> adds, and it flushes a full buffer.\<close>

fun place_ok :: "nat \<Rightarrow> batcher \<Rightarrow> pub_place \<Rightarrow> bool" where
  "place_ok cnt b (Calling j) = (j \<le> cnt \<and> \<not> ba_closed b \<and> length (ba_buf b) < 512)"
| "place_ok cnt b (Flushing j) = (j \<le> cnt \<and> (ba_closed b \<longleftrightarrow> j = cnt) \<and> length (ba_buf b) \<le> 512)"
| "place_ok cnt b (Sending j) = (j \<le> cnt \<and> (ba_closed b \<longleftrightarrow> j = cnt) \<and> ba_buf b = [])"
| "place_ok cnt b (Returned r) = (r = Ok () \<and> ba_buf b = [])"

definition flights_ok :: "pub_place \<Rightarrow> flight list \<Rightarrow> bool" where
  "flights_ok pc fs \<longleftrightarrow>
     (\<forall>(who, batch, r) \<in> set fs. batch \<noteq> [] \<and> length batch \<le> 512 \<and> r \<notin> range (\<lambda>e. Some (Fail e)) \<and> r \<noteq> Some Panic) \<and>
     length (filter (\<lambda>f. fst f = Main) fs) = (case pc of Sending j \<Rightarrow> 1 | _ \<Rightarrow> 0)"

definition pub_ok :: "bool \<Rightarrow> nat \<Rightarrow> 'x pub_world \<Rightarrow> bytes list \<Rightarrow> bool" where
  "pub_ok overlap cnt w l \<longleftrightarrow>
     (let b = pw_batcher w; all = map demo_payload [0..<added cnt (pw_place w)] in
      ba_err b = None \<and> ba_maxBatch b = 512 \<and> place_ok cnt b (pw_place w) \<and> flights_ok (pw_place w) (pw_flights w) \<and>
      mset l + mset (flying (pw_flights w)) + mset (ba_buf b) = mset all \<and>
      (\<not> overlap \<longrightarrow> length (pw_flights w) \<le> 1 \<and> l @ flying (pw_flights w) @ ba_buf b = all))"

definition net_ok :: "('x \<Rightarrow> bool) \<Rightarrow> ('x \<Rightarrow> bytes list) \<Rightarrow> link \<times> 'x broker \<Rightarrow> bytes list \<Rightarrow> bool" where
  "net_ok finv flog st l \<longleftrightarrow>
     (case st of ((c, h), b) \<Rightarrow> idle c \<and> sound h \<and> serving finv flog 0 b \<and> abs_broker flog b = Some [topicName \<mapsto> l])"

lemma added_after_flush: "j \<le> cnt \<Longrightarrow> added cnt (after_flush cnt j (Ok a)) = min cnt (Suc j)"
  by (auto simp: after_flush_def next_call_def)

lemma place_ok_after_flush:
  "j \<le> cnt \<Longrightarrow> (ba_closed b \<longleftrightarrow> j = cnt) \<Longrightarrow> ba_buf b = [] \<Longrightarrow> place_ok cnt b (after_flush cnt j (Ok a))"
  by (auto simp: after_flush_def next_call_def)

lemma not_sending: "after_flush cnt j r \<noteq> Sending i"
  by (cases r) (auto simp: after_flush_def next_call_def)

lemma flights_ok_place:
  "flights_ok pc fs \<Longrightarrow> (\<And>j. pc \<noteq> Sending j) \<Longrightarrow> (\<And>j. pc' \<noteq> Sending j) \<Longrightarrow> flights_ok pc' fs"
  by (cases pc; cases pc') (auto simp: flights_ok_def)

text \<open>The first locked section of a call.\<close>

lemma pub_ok_enter:
  assumes ok: "pub_ok overlap cnt w l" and pc: "pw_place w = Calling j" and r: "call_enter cnt j (pw_batcher w) = (r, b)"
  shows "pub_ok overlap cnt (w\<lparr>pw_batcher := b, pw_armed := armed,
    pw_place := (if r = Ok True then Flushing j else after_flush cnt j r)\<rparr>) l"
proof -
  let ?b = "pw_batcher w"
  have j: "j \<le> cnt" "\<not> ba_closed ?b" "length (ba_buf ?b) < 512" "ba_err ?b = None" "ba_maxBatch ?b = 512"
    using ok pc by (auto simp: pub_ok_def Let_def)
  have "flights_ok (Calling j) (pw_flights w)" using ok pc by (simp add: pub_ok_def Let_def)
  note place = flights_ok_place [OF this]
  have fl: "flights_ok (Flushing j) (pw_flights w)" by (rule place) simp_all
  have fl': "flights_ok (after_flush cnt j r) (pw_flights w)" by (rule place) (simp_all add: not_sending)
  show ?thesis
  proof (cases "j < cnt")
    case False
    with j r have "r = Ok True" "b = ?b\<lparr>ba_closed := True\<rparr>" "j = cnt" by (auto simp: call_enter_def)
    with ok pc j fl show ?thesis by (auto simp: pub_ok_def Let_def)
  next
    case True
    then have enter: "Add_enter (demo_payload j) ?b = (r, b)" using r by (simp add: call_enter_def)
    let ?b1 = "?b\<lparr>ba_buf := ba_buf ?b @ [demo_payload j]\<rparr>"
    have "r = Ok (512 \<le> length (ba_buf ?b1)) \<and> (b = ?b1 \<or> b = ?b1\<lparr>ba_timer := True\<rparr>)"
      using enter j(2,4,5) by (simp add: Add_enter_def Let_def split: if_split_asm)
    then have b: "ba_buf b = ba_buf ?b @ [demo_payload j]" "ba_err b = None" "ba_maxBatch b = 512" "\<not> ba_closed b"
      "r = Ok (512 \<le> length (ba_buf b))"
      using j by auto
    have "added cnt (if r = Ok True then Flushing j else after_flush cnt j r) = Suc j"
      using True b(5) added_after_flush [OF j(1), of "512 \<le> length (ba_buf b)"] by auto
    moreover have "place_ok cnt b (if r = Ok True then Flushing j else after_flush cnt j r)"
      using True b j by (auto simp: after_flush_def next_call_def)
    ultimately show ?thesis
      using ok pc b fl fl' by (auto simp: pub_ok_def Let_def)
  qed
qed

lemma pub_ok_take_main:
  assumes ok: "pub_ok overlap cnt w l" and pc: "pw_place w = Flushing j" and t: "take_batch Main w = (batch, w1)"
    and le: "overlap \<or> length (pw_flights w1) \<le> 1"
  shows "pub_ok overlap cnt (w1\<lparr>pw_place :=
      (if batch \<noteq> [] then Sending j
       else after_flush cnt j (case ba_err (pw_batcher w) of None \<Rightarrow> Ok () | Some e \<Rightarrow> Fail e))\<rparr>) l"
proof -
  let ?b = "pw_batcher w"
  have j: "j \<le> cnt" "ba_closed ?b \<longleftrightarrow> j = cnt" "length (ba_buf ?b) \<le> 512" "ba_err ?b = None"
    using ok pc by (auto simp: pub_ok_def Let_def)
  have batch: "batch = ba_buf ?b" using t by (simp add: take_batch_eq)
  show ?thesis
  proof (cases "batch = []")
    case True
    have "flights_ok (Flushing j) (pw_flights w)" using ok pc by (simp add: pub_ok_def Let_def)
    then have "flights_ok (after_flush cnt j (Ok ())) (pw_flights w)"
      by (rule flights_ok_place) (simp_all add: not_sending)
    then show ?thesis
      using ok pc t True batch j place_ok_after_flush [OF j(1), of "?b\<lparr>ba_timer := False, ba_buf := []\<rparr>"]
      by (auto simp: pub_ok_def Let_def take_batch_eq added_after_flush)
  next
    case False
    have "flights_ok (Sending j) (pw_flights w @ [(Main, batch, None)])"
      using ok pc False batch j by (auto simp: pub_ok_def Let_def flights_ok_def)
    with ok pc t False batch j le show ?thesis
      by (auto simp: pub_ok_def Let_def take_batch_eq add.assoc)
  qed
qed

lemma pub_ok_take_timer:
  assumes ok: "pub_ok overlap cnt w l" and t: "take_batch Timer w = (batch, w1)"
    and le: "overlap \<or> length (pw_flights w1) \<le> 1"
  shows "pub_ok overlap cnt (w1\<lparr>pw_fired := n\<rparr>) l"
proof -
  let ?b = "pw_batcher w"
  have batch: "batch = ba_buf ?b" using t by (simp add: take_batch_eq)
  have "length batch \<le> 512" "place_ok cnt (?b\<lparr>ba_timer := False, ba_buf := []\<rparr>) (pw_place w)"
    using ok batch by (cases "pw_place w"; simp add: pub_ok_def Let_def)+
  then have "flights_ok (pw_place w) (pw_flights w @ (if batch = [] then [] else [(Timer, batch, None)]))"
    using ok by (auto simp: pub_ok_def Let_def flights_ok_def)
  with \<open>place_ok _ _ _\<close> show ?thesis
    using ok t batch le by (auto simp: pub_ok_def Let_def take_batch_eq add.assoc)
qed

lemma pub_ok_publish:
  assumes ok: "pub_ok overlap cnt w l" and fs: "pw_flights w = fs @ (who, batch, None) # gs"
  shows "pub_ok overlap cnt (w\<lparr>pw_flights := fs @ (who, batch, Some (Ok off)) # gs, pw_net := st\<rparr>) (l @ batch)"
proof -
  have "flights_ok (pw_place w) (fs @ (who, batch, Some (Ok off)) # gs)"
    using ok fs by (auto simp: pub_ok_def Let_def flights_ok_def)
  moreover have "\<not> overlap \<Longrightarrow> fs = [] \<and> gs = []" using ok fs by (auto simp: pub_ok_def Let_def)
  ultimately show ?thesis using ok fs by (auto simp: pub_ok_def Let_def ac_simps)
qed

lemma pub_ok_record_timer:
  assumes ok: "pub_ok overlap cnt w l" and fs: "pw_flights w = fs @ (Timer, batch, Some r) # gs"
  shows "pub_ok overlap cnt (w\<lparr>pw_flights := fs @ gs, pw_batcher := Flush_record r (pw_batcher w)\<rparr>) l"
proof -
  obtain off where r: "r = Ok off"
    using ok fs by (cases r) (auto simp: pub_ok_def Let_def flights_ok_def)
  moreover have "flights_ok (pw_place w) (fs @ gs)"
    using ok fs by (auto simp: pub_ok_def Let_def flights_ok_def)
  ultimately show ?thesis using ok fs by (auto simp: pub_ok_def Let_def Flush_record_def)
qed

lemma pub_ok_record_main:
  assumes ok: "pub_ok overlap cnt w l" and pc: "pw_place w = Sending j"
    and fs: "pw_flights w = fs @ (Main, batch, Some r) # gs"
  shows "pub_ok overlap cnt (w\<lparr>pw_flights := fs @ gs, pw_batcher := Flush_record r (pw_batcher w),
    pw_place := after_flush cnt j r\<rparr>) l"
proof -
  obtain off where r: "r = Ok off"
    using ok fs by (cases r) (auto simp: pub_ok_def Let_def flights_ok_def)
  have j: "j \<le> cnt" "ba_closed (pw_batcher w) \<longleftrightarrow> j = cnt" "ba_buf (pw_batcher w) = []"
    using ok pc by (auto simp: pub_ok_def Let_def)
  have "flights_ok (after_flush cnt j r) (fs @ gs)"
    using ok fs pc not_sending [of cnt j r] by (auto simp: pub_ok_def Let_def flights_ok_def split: pub_place.splits)
  then show ?thesis
    using ok fs pc r place_ok_after_flush [OF j]
    by (auto simp: pub_ok_def Let_def Flush_record_def added_after_flush)
qed

section \<open>Sending one batch\<close>

lemma length_blocks_bound:
  "\<forall>p\<in>set ps. length p \<le> k \<Longrightarrow> length (blocks ps) \<le> length ps * (4 + k)"
  by (induction ps) auto

lemma batch_fits:
  assumes "\<forall>p\<in>set batch. length p \<le> 14" and "length batch \<le> 512"
  shows "len (EncodePublishBatch topicName batch) \<le> MaxPayload"
proof -
  have "length (blocks batch) \<le> length batch * (4 + 14)" by (rule length_blocks_bound [OF assms(1)])
  also have "\<dots> \<le> 512 * (4 + 14)" using assms(2) by (intro mult_le_mono) simp_all
  finally show ?thesis by (simp add: Encode_eqs counted_def MaxPayload_def topicName_def ascii_def)
qed

text \<open>A batch in flight holds some of the demo's payloads, which are short, and there is room for them.\<close>

lemma flight_facts:
  assumes ok: "pub_ok overlap cnt w l" and fs: "pw_flights w = fs @ (who, batch, None) # gs" and cnt: "cnt \<le> 10 ^ 9"
  shows "batch \<noteq> []" and "len (EncodePublishBatch topicName batch) \<le> MaxPayload"
    and "fits_int64 (length l + length batch)"
proof -
  let ?n = "added cnt (pw_place w)"
  have n: "?n \<le> cnt" using ok by (cases "pw_place w") (auto simp: pub_ok_def Let_def)
  have m: "mset l + (mset (flying fs) + (mset batch + mset (flying gs))) + mset (ba_buf (pw_batcher w)) =
      mset (map demo_payload [0..<?n])"
    using ok fs by (simp add: pub_ok_def Let_def)
  have "length l + length batch \<le> ?n" using arg_cong [OF m, of size] by simp
  then have "length l + length batch \<le> 10 ^ 9" using n cnt by linarith
  then show "fits_int64 (length l + length batch)" by (simp add: fits_int64_def)
  have "set batch \<subseteq> set (map demo_payload [0..<?n])" using arg_cong [OF m, of set_mset] by auto
  moreover have "length (demo_payload j) \<le> 14" if "j < ?n" for j
    using length_decimal [of j 9] that n cnt by (simp add: demo_payload_def ascii_def)
  ultimately have "\<forall>p\<in>set batch. length p \<le> 14" by auto
  moreover have "length batch \<le> 512" "batch \<noteq> []" using ok fs by (auto simp: pub_ok_def Let_def flights_ok_def)
  ultimately show "batch \<noteq> []" "len (EncodePublishBatch topicName batch) \<le> MaxPayload" using batch_fits by auto
qed

context reliable_user_store
begin

lemma serving_topic:
  "serving finv flog 0 b \<Longrightarrow> abs_broker flog b = Some [topicName \<mapsto> l] \<Longrightarrow> fits_int64 (length l + n) \<Longrightarrow> serving finv flog n b"
  by (simp add: serving_def spec_fits_def)

lemma publish_over:
  assumes net: "net_ok finv flog st l" and q: "quote_bound quote" and ne: "batch \<noteq> []"
    and sz: "len (EncodePublishBatch topicName batch) \<le> MaxPayload" and fit: "fits_int64 (length l + length batch)"
    and r: "over quote fops s (\<lambda>net. Client_PublishBatch net topicName batch) st = (r, st')"
  shows "(\<exists>off. r = Ok off) \<and> net_ok finv flog st' (l @ batch)"
proof -
  obtain c h b where st: "st = ((c, h), b)" by (metis prod.exhaust)
  obtain c' h' b' where st': "st' = ((c', h'), b')" by (metis prod.exhaust)
  have n: "idle c" "sound h" "serving finv flog 0 b" "abs_broker flog b = Some [topicName \<mapsto> l]"
    using net by (simp_all add: net_ok_def st)
  have "call_ok finv flog 0 (CallBatch topicName batch) {} b (client_call quote fops s (CallBatch topicName batch) ((c, h), b))"
    by (rule served_Batch [OF n(1,2) serving_topic [OF n(3,4) fit] q _ valid_topicName sz ne]) simp
  then have "serving finv flog 0 b'" "link_ok False (c', h')" "answer r = Ok (int64 (length l))"
    "abs_broker flog b' = Some [topicName \<mapsto> l @ batch]"
    using r n(4) ne by (auto simp: st st' call_ok_def spec_append_def)
  then show ?thesis by (cases r) (auto simp: net_ok_def st' link_ok_def)
qed

lemma pub_step_ok:
  assumes step: "pub_run overlap quote fops s cnt w w'" and q: "quote_bound quote" and cnt: "cnt \<le> 10 ^ 9"
    and ok: "pub_ok overlap cnt w l" and net: "net_ok finv flog (pw_net w) l"
  shows "\<exists>l'. pub_ok overlap cnt w' l' \<and> net_ok finv flog (pw_net w') l'"
proof -
  have st: "pub_step quote fops s cnt w w'" and le: "overlap \<or> length (pw_flights w') \<le> 1"
    using step by (simp_all add: pub_run_def)
  from st show ?thesis
  proof cases
    case (enter j r b)
    have "pw_net w' = pw_net w" using enter(1) by simp
    moreover have "pub_ok overlap cnt w' l" unfolding enter(1) by (rule pub_ok_enter [OF ok enter(2,3)])
    ultimately show ?thesis using net by auto
  next
    case (take j batch w1)
    with pub_ok_take_main [OF ok take(2,3)] le net show ?thesis by (auto simp: take_batch_eq)
  next
    case fire
    with ok net show ?thesis by (auto simp: pub_ok_def Let_def)
  next
    case (take_timer n batch w1)
    with pub_ok_take_timer [OF ok take_timer(3), of n] le net show ?thesis by (auto simp: take_batch_eq)
  next
    case (publish fs who batch gs r st)
    note f = flight_facts [OF ok publish(2) cnt]
    obtain off where off: "r = Ok off" "net_ok finv flog st (l @ batch)"
      using publish_over [OF net q f publish(3)] by blast
    with pub_ok_publish [OF ok publish(2), where off = off and st = st] publish(1) show ?thesis by auto
  next
    case (record_timer fs batch r gs)
    with pub_ok_record_timer [OF ok record_timer(2)] net show ?thesis by auto
  next
    case (record_main j fs batch r gs)
    with pub_ok_record_main [OF ok record_main(2,3)] net show ?thesis by auto
  qed
qed

lemma pub_runs_ok:
  assumes "(pub_run overlap quote fops s cnt ^^ n) w w'" and "quote_bound quote" and "cnt \<le> 10 ^ 9"
    and "pub_ok overlap cnt w l" and "net_ok finv flog (pw_net w) l"
  shows "\<exists>l'. pub_ok overlap cnt w' l' \<and> net_ok finv flog (pw_net w') l'"
  using assms(1)
proof (induction n arbitrary: w')
  case 0
  with assms(4,5) show ?case by auto
next
  case (Suc n)
  from Suc.prems obtain w1 where w1: "(pub_run overlap quote fops s cnt ^^ n) w w1" "pub_run overlap quote fops s cnt w1 w'"
    by (rule relpowp_Suc_E)
  from Suc.IH [OF w1(1)] pub_step_ok [OF w1(2) assms(2,3)] show ?case by blast
qed

lemma publisher_start_ok:
  assumes c: "idle c" and h: "sound h" and b: "serving finv flog 0 b" and q: "quote_bound quote"
    and new: "abs_broker flog b = Some Map.empty" "b_maxTopics b \<le> 0"
  shows "pub_ok overlap cnt (publisher_start quote fops s ((c, h), b)) [] \<and>
    net_ok finv flog (pw_net (publisher_start quote fops s ((c, h), b))) [] \<and>
    pw_place (publisher_start quote fops s ((c, h), b)) = Calling 0 \<and>
    pub_measure cnt (publisher_start quote fops s ((c, h), b)) = 5 * Suc cnt"
proof -
  obtain r c1 h1 b1 where ov: "over quote fops s (\<lambda>net. Client_CreateTopic net topicName) ((c, h), b) = (r, ((c1, h1), b1))"
    by (metis prod.exhaust)
  have "call_ok finv flog 0 (CallCreate topicName) {} b (client_call quote fops s (CallCreate topicName) ((c, h), b))"
    by (rule served_Create [OF c h b q _ valid_topicName]) simp
  moreover have "name_error topicName = None" using name_error_valid valid_topicName by blast
  ultimately have ok: "serving finv flog 0 b1" "link_ok False (c1, h1)" "answer r = Ok ()"
    "abs_broker flog b1 = Some [topicName \<mapsto> []]"
    using new by (auto simp: ov call_ok_def spec_CreateTopic_def)
  have "r = Ok ()" using ok(3) by (cases r) auto
  with ok show ?thesis
    by (simp add: publisher_start_def ov pub_ok_def flights_ok_def net_ok_def link_ok_def NewBatcher_def pub_measure_def Let_def)
qed

end

section \<open>No run is stuck before its end\<close>

definition pub_final :: "'x pub_world \<Rightarrow> bool" where
  "pub_final w \<longleftrightarrow> pw_place w = Returned (Ok ()) \<and> pw_flights w = [] \<and> pw_fired w = 0 \<and> \<not> pw_armed w"

lemma pub_runI:
  "pub_step quote fops s cnt w w' \<Longrightarrow> overlap \<or> length (pw_flights w') \<le> 1 \<Longrightarrow> \<exists>w'. pub_run overlap quote fops s cnt w w'"
  by (auto simp: pub_run_def)

lemma flight_goes_on:
  assumes ok: "pub_ok overlap cnt w l" and ne: "pw_flights w \<noteq> []" and le: "overlap \<or> length (pw_flights w) \<le> 1"
  shows "\<exists>w'. pub_run overlap quote fops s cnt w w'"
proof -
  obtain who batch r gs where fs: "pw_flights w = (who, batch, r) # gs"
    using ne by (metis list.exhaust prod.exhaust)
  show ?thesis
  proof (cases r)
    case None
    obtain x st where "over quote fops s (\<lambda>net. Client_PublishBatch net topicName batch) (pw_net w) = (x, st)" by (metis prod.exhaust)
    from pub_step.publish [OF _ this, of "[]" who gs] fs None
    have "pub_step quote fops s cnt w (w\<lparr>pw_flights := [] @ (who, batch, Some x) # gs, pw_net := st\<rparr>)" by simp
    then show ?thesis by (rule pub_runI) (use le fs in simp)
  next
    case (Some x)
    show ?thesis
    proof (cases who)
      case Timer
      from pub_step.record_timer [of w "[]" batch x gs] fs Some Timer show ?thesis
        by (intro pub_runI) (use le fs in auto)
    next
      case Main
      then obtain j where "pw_place w = Sending j"
        using ok fs by (auto simp: pub_ok_def Let_def flights_ok_def split: pub_place.splits)
      from pub_step.record_main [OF this, of "[]" batch x gs] fs Some Main show ?thesis
        by (intro pub_runI) (use le fs in auto)
    qed
  qed
qed

lemma pub_progress:
  assumes ok: "pub_ok overlap cnt w l" and "\<not> pub_final w"
  shows "\<exists>w'. pub_run overlap quote fops s cnt w w'"
proof (cases "pw_flights w = []")
  case False
  have "overlap \<or> length (pw_flights w) \<le> 1" using ok by (auto simp: pub_ok_def Let_def)
  with ok False show ?thesis by (rule flight_goes_on)
next
  case True
  have small: "length (pw_flights (snd (take_batch who w))) \<le> 1" for who using True by (simp add: take_batch_eq)
  show ?thesis
  proof (cases "pw_place w")
    case (Calling j)
    obtain r b where "call_enter cnt j (pw_batcher w) = (r, b)" by force
    from pub_step.enter [OF Calling this] True show ?thesis by (fastforce simp: pub_run_def)
  next
    case (Flushing j)
    obtain batch w1 where "take_batch Main w = (batch, w1)" by force
    from pub_step.take [OF Flushing this] small [of Main] this show ?thesis by (fastforce simp: pub_run_def)
  next
    case (Sending j)
    with ok True show ?thesis by (simp add: pub_ok_def Let_def flights_ok_def)
  next
    case (Returned r)
    with ok have "r = Ok ()" by (simp add: pub_ok_def Let_def)
    with assms(2) True Returned have "pw_armed w \<or> (\<exists>n. pw_fired w = Suc n)"
      by (auto simp: pub_final_def gr0_conv_Suc)
    then show ?thesis
    proof
      assume "pw_armed w"
      from pub_step.fire [OF this] True show ?thesis by (fastforce simp: pub_run_def)
    next
      assume "\<exists>n. pw_fired w = Suc n"
      then obtain n where "pw_fired w = Suc n" by blast
      moreover obtain batch w1 where "take_batch Timer w = (batch, w1)" by force
      ultimately show ?thesis
        using pub_step.take_timer [of w n batch w1] small [of Timer] by (fastforce simp: pub_run_def)
    qed
  qed
qed

lemma pub_ok_log:
  assumes "pub_ok overlap cnt w l"
  shows "pw_place w = Returned r \<Longrightarrow> r = Ok ()" and "mset l \<subseteq># mset (map demo_payload [0..<cnt])"
    and "pw_place w = Returned r \<Longrightarrow> pw_flights w = [] \<Longrightarrow> mset l = mset (map demo_payload [0..<cnt])"
    and "pw_place w = Returned r \<Longrightarrow> pw_flights w = [] \<Longrightarrow> \<not> overlap \<Longrightarrow> l = map demo_payload [0..<cnt]"
proof -
  let ?n = "added cnt (pw_place w)"
  have "?n \<le> cnt" using assms by (cases "pw_place w") (auto simp: pub_ok_def Let_def)
  then have "[0..<cnt] = [0..<?n] @ [?n..<cnt]" using upt_add_eq_append [of 0 ?n "cnt - ?n"] by simp
  then have all: "mset (map demo_payload [0..<cnt]) = mset (map demo_payload [0..<?n]) + mset (map demo_payload [?n..<cnt])"
    by (metis map_append mset_append)
  have "mset l + (mset (flying (pw_flights w)) + mset (ba_buf (pw_batcher w))) = mset (map demo_payload [0..<?n])"
    using assms by (simp add: pub_ok_def Let_def add.assoc)
  then have "mset l \<subseteq># mset (map demo_payload [0..<?n])" by (metis mset_subset_eq_add_left)
  then show "mset l \<subseteq># mset (map demo_payload [0..<cnt])" unfolding all by (rule subset_mset.add_increasing2 [rotated]) simp
qed (use assms in \<open>auto simp: pub_ok_def Let_def\<close>)

end
