(* ===== verification/Net_Batcher_Steps.thy ===== *)
theory Net_Batcher_Steps
  imports Net_Batcher "HOL-Library.Multiset"
begin

text \<open>
  The \<open>Batcher\<close> under concurrency: any number of goroutines call \<open>Add\<close>, \<open>Flush\<close> and \<open>Close\<close>, and the
  timer fires. A step is one critical section of the batcher's lock, or one call of the client's
  \<open>PublishBatch\<close>, whose result may be anything; the client's own lock makes those calls one after the
  other.
\<close>

section \<open>The steps\<close>

text \<open>
  \<open>bt_flight\<close> are the batches that a \<open>Flush\<close> has taken from the buffer and not yet accounted for, with the
  result of their publication once there is one; \<open>bt_full\<close> counts the calls of \<open>Add\<close> that have filled the
  batch and not yet begun their \<open>Flush\<close>. What was accepted, published and lost is recorded in the other
  fields.
\<close>

record batch_world =
  bt_state :: batcher
  bt_flight :: "(bytes list \<times> i64 result option) list"
  bt_full :: nat
  bt_added :: "bytes list"
  bt_sent :: "bytes list list"
  bt_lost :: "bytes list list"

definition batch_start :: "int \<Rightarrow> int \<Rightarrow> batch_world" where
  "batch_start maxBatch maxDelay = \<lparr>bt_state = NewBatcher maxBatch maxDelay, bt_flight = [], bt_full = 0,
     bt_added = [], bt_sent = [], bt_lost = []\<rparr>"

definition Add_world :: "bytes \<Rightarrow> batch_world \<Rightarrow> batch_world" where
  "Add_world payload w =
     (case Add_enter payload (bt_state w) of
        (Ok full, b) \<Rightarrow> w\<lparr>bt_state := b, bt_added := bt_added w @ [payload],
          bt_full := bt_full w + (if full then 1 else 0)\<rparr>
      | (_, b) \<Rightarrow> w\<lparr>bt_state := b\<rparr>)"

definition Flush_world :: "batch_world \<Rightarrow> batch_world" where
  "Flush_world w =
     (case Flush_take (bt_state w) of
        (batch, b) \<Rightarrow> w\<lparr>bt_state := b,
          bt_flight := (if batch = [] then bt_flight w else bt_flight w @ [(batch, None)])\<rparr>)"

inductive batcher_step :: "batch_world \<Rightarrow> batch_world \<Rightarrow> bool" where
  add: "batcher_step w (Add_world payload w)"
| flush_full: "bt_full w = Suc n \<Longrightarrow> batcher_step w (Flush_world (w\<lparr>bt_full := n\<rparr>))"
| flush: "batcher_step w (Flush_world w)"
| close: "batcher_step w (w\<lparr>bt_state := (bt_state w)\<lparr>ba_closed := True\<rparr>\<rparr>)"
| publish_ok: "bt_flight w = fs @ (batch, None) # gs \<Longrightarrow>
     batcher_step w (w\<lparr>bt_flight := fs @ (batch, Some (Ok base)) # gs, bt_sent := bt_sent w @ [batch]\<rparr>)"
| publish_fail: "bt_flight w = fs @ (batch, None) # gs \<Longrightarrow>
     batcher_step w (w\<lparr>bt_flight := fs @ (batch, Some (Fail e)) # gs, bt_lost := bt_lost w @ [batch]\<rparr>)"
| record_result: "bt_flight w = fs @ (batch, Some r) # gs \<Longrightarrow>
     batcher_step w (w\<lparr>bt_flight := fs @ gs, bt_state := Flush_record r (bt_state w)\<rparr>)"

inductive_cases batcher_stepE: "batcher_step w w'"

inductive batcher_steps :: "batch_world \<Rightarrow> batch_world \<Rightarrow> bool" where
  here: "batcher_steps w w"
| more: "batcher_steps w w' \<Longrightarrow> batcher_step w' w'' \<Longrightarrow> batcher_steps w w''"

section \<open>Nothing is lost silently, nothing is sent twice\<close>

definition unsent :: "(bytes list \<times> i64 result option) list \<Rightarrow> bytes list" where
  "unsent fs = concat (map fst (filter (\<lambda>(batch, r). r = None) fs))"

lemma unsent_simps [simp]:
  "unsent [] = []" "unsent (fs @ gs) = unsent fs @ unsent gs"
  "unsent ((batch, None) # fs) = batch @ unsent fs" "unsent ((batch, Some r) # fs) = unsent fs"
  by (simp_all add: unsent_def)

text \<open>
  Every accepted payload is in exactly one place; the buffer exceeds the batch size by at most the
  number of calls of \<open>Add\<close> that are about to flush it; and an error that has been recorded stays, so
  as long as there is none, every lost batch is still in flight.
\<close>

definition batch_ok :: "batch_world \<Rightarrow> bool" where
  "batch_ok w \<longleftrightarrow>
     mset (bt_added w) = mset (ba_buf (bt_state w)) + mset (unsent (bt_flight w)) +
       mset (concat (bt_sent w)) + mset (concat (bt_lost w)) \<and>
     len (ba_buf (bt_state w)) < ba_maxBatch (bt_state w) + int (bt_full w) \<and>
     0 < ba_maxBatch (bt_state w) \<and>
     (ba_err (bt_state w) = None \<longrightarrow> set (bt_lost w) \<subseteq> {batch. \<exists>e. (batch, Some (Fail e)) \<in> set (bt_flight w)}) \<and>
     set (bt_flight w) \<inter> UNIV \<times> {Some Panic} = {}"

lemma batch_ok_start: "batch_ok (batch_start maxBatch maxDelay)"
  by (simp add: batch_ok_def batch_start_def NewBatcher_def Let_def)

lemma Add_enter_cases:
  obtains (refused) e where "Add_enter payload b = (Fail e, b)"
  | (full) b' where "Add_enter payload b = (Ok True, b')" "ba_buf b' = ba_buf b @ [payload]"
      "ba_maxBatch b' = ba_maxBatch b" "ba_err b' = ba_err b"
  | (room) b' where "Add_enter payload b = (Ok False, b')" "ba_buf b' = ba_buf b @ [payload]"
      "ba_maxBatch b' = ba_maxBatch b" "ba_err b' = ba_err b" "len (ba_buf b') < ba_maxBatch b"
proof (cases "ba_closed b \<or> ba_err b \<noteq> None")
  case True
  then have "\<exists>e. Add_enter payload b = (Fail e, b)" by (auto simp: Add_enter_def)
  then show thesis using refused by blast
next
  case False
  then show thesis
  proof (cases "len (ba_buf b @ [payload]) \<ge> ba_maxBatch b")
    case True
    with False show thesis by (intro full [of "b\<lparr>ba_buf := ba_buf b @ [payload]\<rparr>"]) (auto simp: Add_enter_def)
  next
    case room': False
    define b' where "b' = snd (Add_enter payload b)"
    have "Add_enter payload b = (Ok False, b')"
      using False room' by (simp add: b'_def Add_enter_def Let_def)
    moreover have "ba_buf b' = ba_buf b @ [payload]" "ba_maxBatch b' = ba_maxBatch b" "ba_err b' = ba_err b"
      using False room' by (auto simp: b'_def Add_enter_def Let_def)
    ultimately show thesis using room' by (intro room [of b']) auto
  qed
qed

lemma batch_ok_add:
  assumes "batch_ok w"
  shows "batch_ok (Add_world payload w)"
  by (cases rule: Add_enter_cases [of payload "bt_state w"])
    (use assms in \<open>auto simp: Add_world_def batch_ok_def\<close>)

lemma batch_ok_flush:
  assumes "batch_ok w"
  shows "batch_ok (Flush_world w)"
  using assms by (auto simp: Flush_world_def batch_ok_def Flush_take_eq)

lemma batcher_step_ok:
  assumes "batcher_step w w'" and ok: "batch_ok w"
  shows "batch_ok w'"
  using assms(1)
proof cases
  case (add payload)
  then show ?thesis using batch_ok_add [OF ok] by simp
next
  case (flush_full n)
  text \<open>The flush that follows an \<open>Add\<close> empties the buffer that the \<open>Add\<close> found full.\<close>
  then show ?thesis using ok by (auto simp: Flush_world_def batch_ok_def Flush_take_eq)
next
  case flush
  then show ?thesis using batch_ok_flush [OF ok] by simp
next
  case close
  then show ?thesis using ok by (simp add: batch_ok_def)
next
  case (publish_ok fs batch gs base)
  then show ?thesis using ok by (auto simp: batch_ok_def)
next
  case (publish_fail fs batch gs e)
  then show ?thesis using ok by (auto simp: batch_ok_def)
next
  case (record_result fs batch r gs)
  then show ?thesis using ok by (cases r) (auto simp: batch_ok_def Flush_record_def)
qed

lemma batcher_steps_ok: "batcher_steps w w' \<Longrightarrow> batch_ok w \<Longrightarrow> batch_ok w'"
  by (induction rule: batcher_steps.induct) (auto intro: batcher_step_ok)

section \<open>What overlapping flushes can do\<close>

text \<open>
  Two payloads with room for one in a batch: both calls of \<open>Add\<close> flush, the second flush overtakes the
  first.
\<close>

definition taken :: "bytes \<Rightarrow> bytes \<Rightarrow> batch_world" where
  "taken p q = Flush_world (Add_world q (Flush_world (Add_world p (batch_start 1 0))))"

lemma taken_eq:
  "taken p q = \<lparr>bt_state = \<lparr>ba_maxBatch = 1, ba_maxDelay = 0, ba_buf = [], ba_timer = False, ba_err = None,
     ba_closed = False\<rparr>, bt_flight = [([p], None), ([q], None)], bt_full = 2, bt_added = [p, q], bt_sent = [],
     bt_lost = []\<rparr>"
  by (simp add: taken_def batch_start_def NewBatcher_def Add_world_def Add_enter_def Flush_world_def Flush_take_def Let_def)

lemma taken_reachable: "batcher_steps (batch_start 1 0) (taken p q)"
  unfolding taken_def
  by (intro batcher_steps.more [OF _ batcher_step.flush] batcher_steps.more [OF _ batcher_step.add] batcher_steps.here)

lemma overtaken_reachable:
  "\<exists>w. batcher_steps (batch_start 1 0) w \<and> bt_added w = [p, q] \<and> bt_sent w = [[q], [p]]"
proof -
  let ?w = "taken p q" and ?ok = "Some (Ok 0)"
  let ?w1 = "?w\<lparr>bt_flight := [([p], None)] @ ([q], ?ok) # [], bt_sent := bt_sent ?w @ [[q]]\<rparr>"
  let ?w2 = "?w1\<lparr>bt_flight := [] @ ([p], ?ok) # [([q], ?ok)], bt_sent := bt_sent ?w1 @ [[p]]\<rparr>"
  have "batcher_step ?w ?w1" by (rule batcher_step.publish_ok) (simp add: taken_eq)
  moreover have "batcher_step ?w1 ?w2" by (rule batcher_step.publish_ok) simp
  ultimately have "batcher_steps (batch_start 1 0) ?w2"
    by (rule batcher_steps.more [OF batcher_steps.more [OF taken_reachable]])
  then show ?thesis by (intro exI [of _ ?w2]) (simp add: taken_eq)
qed

text \<open>
  A \<open>Close\<close> while a flush is in flight finds the buffer empty and no error, and returns nil; the batch
  in flight can still fail.
\<close>

lemma close_misses_failure:
  "\<exists>w w'. batcher_steps (batch_start 1 0) w \<and> bt_added w = [p] \<and>
     fst (Batcher_Close pub (bt_state w, c)) = Ok () \<and>
     batcher_steps (w\<lparr>bt_state := fst (snd (Batcher_Close pub (bt_state w, c)))\<rparr>) w' \<and> bt_lost w' = [[p]]"
proof -
  let ?w = "Flush_world (Add_world p (batch_start 1 0))"
  let ?w1 = "?w\<lparr>bt_state := fst (snd (Batcher_Close pub (bt_state ?w, c)))\<rparr>"
  have eq: "?w = \<lparr>bt_state = \<lparr>ba_maxBatch = 1, ba_maxDelay = 0, ba_buf = [], ba_timer = False, ba_err = None,
     ba_closed = False\<rparr>, bt_flight = [([p], None)], bt_full = 1, bt_added = [p], bt_sent = [], bt_lost = []\<rparr>"
    by (simp add: batch_start_def NewBatcher_def Add_world_def Add_enter_def Flush_world_def Flush_take_def Let_def)
  have "batcher_steps (batch_start 1 0) ?w"
    by (intro batcher_steps.more [OF _ batcher_step.flush] batcher_steps.more [OF _ batcher_step.add] batcher_steps.here)
  moreover have "batcher_steps ?w1 (?w1\<lparr>bt_flight := [] @ ([p], Some (fail_with EOF)) # [], bt_lost := bt_lost ?w1 @ [[p]]\<rparr>)"
    by (rule batcher_steps.more [OF batcher_steps.here], rule batcher_step.publish_fail) (simp add: eq)
  moreover have "fst (Batcher_Close pub (bt_state ?w, c)) = Ok ()"
    by (simp add: eq Batcher_Close_def flush_error_def Batcher_Flush_def Flush_take_def gbind_def)
  ultimately show ?thesis
    by (intro exI [of _ ?w] exI [of _ "?w1\<lparr>bt_flight := [] @ ([p], Some (fail_with EOF)) # [], bt_lost := bt_lost ?w1 @ [[p]]\<rparr>"])
      (simp add: eq)
qed

section \<open>Without overlap the order is kept\<close>

text \<open>
  When a flush begins only after the one before it is accounted for, as a single goroutine without the
  timer makes sure of, the published batches are the accepted payloads in order, up to the first failure.
\<close>

inductive ordered_steps :: "batch_world \<Rightarrow> batch_world \<Rightarrow> bool" where
  here: "ordered_steps w w"
| more: "ordered_steps w w' \<Longrightarrow> batcher_step w' w'' \<Longrightarrow> length (bt_flight w'') \<le> 1 \<Longrightarrow> ordered_steps w w''"

definition order_ok :: "batch_world \<Rightarrow> bool" where
  "order_ok w \<longleftrightarrow> length (bt_flight w) \<le> 1 \<and>
     (bt_lost w = [] \<longrightarrow>
       bt_added w = concat (bt_sent w) @ unsent (bt_flight w) @ ba_buf (bt_state w))"

lemma order_ok_step:
  assumes "batcher_step w w'" and ok: "order_ok w" and le: "length (bt_flight w') \<le> 1"
  shows "order_ok w'"
  using assms(1)
proof cases
  case (add payload)
  show ?thesis
    by (cases rule: Add_enter_cases [of payload "bt_state w"])
      (use add ok in \<open>auto simp: Add_world_def order_ok_def\<close>)
next
  case (publish_ok fs batch gs base)
  then have "fs = []" "gs = []" using le by auto
  with publish_ok ok show ?thesis by (auto simp: order_ok_def)
next
  case (record_result fs batch r gs)
  then have "fs = []" "gs = []" using ok by (auto simp: order_ok_def)
  with record_result ok show ?thesis by (cases r) (auto simp: order_ok_def Flush_record_def)
qed (use ok le in \<open>auto simp: order_ok_def Flush_world_def Flush_take_eq split: if_splits\<close>)

lemma ordered_steps_ok: "ordered_steps w w' \<Longrightarrow> order_ok w \<Longrightarrow> order_ok w'"
  by (induction rule: ordered_steps.induct) (auto intro: order_ok_step)

lemma order_ok_start: "order_ok (batch_start maxBatch maxDelay)"
  by (simp add: order_ok_def batch_start_def NewBatcher_def Let_def)

end
