(* ===== verification/Net_Layout.thy ===== *)
theory Net_Layout
  imports Net_Session
begin

text \<open>
  What the handler makes of the payloads of OpCreateTopic and OpSubscribe: the payload is the name. With a
  length in front of it, as the protocol's document has it, it is no valid name.
\<close>

section \<open>A length in front of a name\<close>

lemma length_prefix_has_zero:
  assumes "len name < 2 ^ 24"
  shows "0 \<in> set (le32 (uint32 (len name)))"
proof -
  let ?v = "uint32 (len name)"
  have "uint ?v = len name" using assms by (intro uint_uint32) simp_all
  then have v: "unat ?v = length name" by (simp add: unat_eq_nat_uint)
  have "unat (drop_bit 24 ?v) = 0" using assms by (subst unat_drop_bit_eq, subst drop_bit_eq_div, subst v) simp
  then have "drop_bit 24 ?v = 0" by (simp only: unat_eq_0)
  then show ?thesis unfolding le32_def by (simp only:) simp
qed

lemma putString_not_valid:
  assumes "len (putString [] name) \<le> MaxPayload"
  shows "\<not> valid_name (putString [] name)" and "putString [] name \<noteq> []"
proof -
  have "len name < 2 ^ 24" using assms by (simp add: putString_def MaxPayload_def)
  then show "\<not> valid_name (putString [] name)"
    using length_prefix_has_zero [of name] by (auto simp: putString_def valid_name_def control_def intro!: bexI [of _ 0])
  show "putString [] name \<noteq> []" by (simp add: putString_def le32_def)
qed

section \<open>Requests with a name\<close>

lemma handleConn_create:
  assumes h: "sound h" and hin: "h_in h = stream_of (frame_bytes OpCreateTopic p) @ i" and len: "len p \<le> MaxPayload"
    and r: "CreateTopic p b = (r, b')" and np: "r \<noteq> Panic"
    and fits: "frame_fits (response_of quote OpCreateTopic (map_ok (\<lambda>_. []) r))"
  obtains h' where "handleConn quote fops s (h, b) = handleConn quote fops s (h', b')" "sound h'" "h_in h' = i"
    "on_wire h' = on_wire h @ case_prod frame_bytes (response_of quote OpCreateTopic (map_ok (\<lambda>_. []) r))"
proof -
  let ?h = "h\<lparr>h_in := i\<rparr>" and ?err = "case r of Fail e \<Rightarrow> Some e | _ \<Rightarrow> None"
  have "sound ?h" using h by simp
  have "response_fits quote OpCreateTopic ?err []"
    using fits np by (cases r) (auto simp: response_fits_def response_frame_def frame_fits_def response_of_def)
  from reply_sound [OF \<open>sound ?h\<close> this, of s b'] obtain h' where
    h': "reply quote s OpCreateTopic ?err [] (?h, b') = (Ok Continue, (h', b'))" "sound h'" "h_in h' = i"
    "on_wire h' = on_wire h @ response_bytes quote OpCreateTopic ?err []" by auto
  have "handle_frame quote fops s OpCreateTopic p (?h, b) = (Ok Continue, (h', b'))"
    using r np h'(1) by (cases r) (simp_all add: handle_frame_def opcode_defs handle_create_def reply_result_def)
  then have "handleConn quote fops s (h, b) = handleConn quote fops s (h', b')"
    by (rule handleConn_step [OF h hin len])
  then show thesis
    using h' np by (intro that) (cases r; auto simp: response_bytes_def response_frame_def response_of_def)+
qed

lemma ValidateTopicName_wire:
  assumes "ValidateTopicName p = Fail e" and "len p \<le> MaxPayload"
  shows "wire_error quote e"
proof -
  have "length p < 10 ^ Suc 7" using assms(2) by (simp add: MaxPayload_def)
  then have n: "length (decimal (length p)) \<le> 8" using length_decimal [of "length p" 7] by simp
  show ?thesis
  proof (cases "length p > MaxTopicNameLen")
    case True
    then have "e = Wrap (NameLength (length p) MaxTopicNameLen) (Sentinel ErrTopicNameTooLong)"
      using assms(1) by (auto simp: ValidateTopicName_def MaxTopicNameLen_def split: if_splits)
    moreover have "length (decimal MaxTopicNameLen) \<le> 3" using length_decimal [of MaxTopicNameLen 2] by (simp add: MaxTopicNameLen_def)
    ultimately show ?thesis using n by (simp add: wire_error_def coded_def)
  next
    case False
    let ?k = "length (takeWhile (\<lambda>b. \<not> control b) p)"
    have "?k \<le> length p" by (rule length_takeWhile_le)
    then have "?k < 10 ^ Suc 2" using False by (simp add: MaxTopicNameLen_def)
    then have "length (decimal ?k) \<le> 3" using length_decimal [of ?k 2] by simp
    then show ?thesis
      using assms(1) False
      by (auto simp: ValidateTopicName_def check_bytes_cases wire_error_def coded_def split: if_splits)
  qed
qed

text \<open>A name that is not valid reaches the broker's checks: the answer is the error, the broker stays.\<close>

lemma handleConn_create_invalid:
  assumes h: "sound h" and len: "len p \<le> MaxPayload" and b: "\<not> b_closed b"
    and p: "\<not> valid_name p" "p \<noteq> []"
  shows "\<exists>h' code msg. handleConn quote fops s (h\<lparr>h_in := stream_of (frame_bytes OpCreateTopic p)\<rparr>, b) = (Ok Stop, (h', b)) \<and>
    on_wire h' = on_wire h @ frame_bytes OpError (EncodeError code msg) \<and>
    code \<in> {CodeTopicNameTooLong, CodeInvalidTopicName}"
proof -
  let ?h = "h\<lparr>h_in := stream_of (frame_bytes OpCreateTopic p)\<rparr>"
  obtain e where e: "ValidateTopicName p = Fail e" "errorCode e \<in> {CodeTopicNameTooLong, CodeInvalidTopicName}"
    using p ValidateTopicName_eq_Ok [of p]
    by (auto simp: ValidateTopicName_def check_bytes_cases errorCode_def split: if_splits)
  have r: "CreateTopic p b = (Fail e, b)" using e(1) b by (simp add: CreateTopic_def)
  have fits: "frame_fits (response_of quote OpCreateTopic (map_ok (\<lambda>_. []) (Fail e :: unit result)))"
    using ValidateTopicName_wire [OF e(1) len] by (intro response_fits_wire) auto
  obtain h' where h': "handleConn quote fops s (?h, b) = handleConn quote fops s (h', b)" "sound h'" "h_in h' = []"
    "on_wire h' = on_wire h @ case_prod frame_bytes (response_of quote OpCreateTopic (map_ok (\<lambda>_. []) (Fail e :: unit result)))"
    by (rule handleConn_create [where h = ?h and i = "[]" and fops = fops and s = s, OF _ _ len r _ fits]) (use h in simp_all)
  then have "handleConn quote fops s (?h, b) = (Ok Stop, (h', b))" by (simp add: handleConn_eof)
  with h'(4) e(2) show ?thesis by (auto simp: response_of_def)
qed

lemma handleConn_subscribe_missing:
  assumes h: "sound h" and len: "len p \<le> MaxPayload" and b: "\<not> b_closed b" "map_of (b_topics b) p = None"
  shows "\<exists>h' msg. handleConn quote fops s (h\<lparr>h_in := stream_of (frame_bytes OpSubscribe p)\<rparr>, b) = (Ok Stop, (h', b)) \<and>
    on_wire h' = on_wire h @ frame_bytes OpError (EncodeError CodeTopicNotFound msg)"
proof -
  let ?h = "h\<lparr>h_in := stream_of (frame_bytes OpSubscribe p)\<rparr>" and ?e = "Sentinel ErrTopicNotFound"
  have r: "Broker_Subscribe p b = (Fail ?e, b)"
    using b by (simp add: Broker_Subscribe_def lookup_topic_def wrapClosed_def)
  have "response_fits quote OpSubscribe (Some ?e) []"
    using response_fits_wire [of "Fail ?e :: bytes result" quote OpSubscribe] wire_error_sentinel [of ErrTopicNotFound quote]
    by (simp add: response_fits_def response_frame_def frame_fits_def response_of_def)
  then obtain h' where h': "reply quote s OpSubscribe (Some ?e) [] (h\<lparr>h_in := []\<rparr>, b) = (Ok Continue, (h', b))" "sound h'"
    "h_in h' = []" "on_wire h' = on_wire h @ response_bytes quote OpSubscribe (Some ?e) []"
    using reply_sound [of "h\<lparr>h_in := []\<rparr>" quote OpSubscribe "Some ?e" "[]" s b] h by auto
  have "handle_frame quote fops s OpSubscribe p (h\<lparr>h_in := []\<rparr>, b) = (Ok Continue, (h', b))"
    using r h'(1) by (simp add: handle_frame_def opcode_defs handle_subscribe_def)
  then have "handleConn quote fops s (?h, b) = handleConn quote fops s (h', b)"
    using h by (intro handleConn_step [OF _ _ len]) auto
  then have "handleConn quote fops s (?h, b) = (Ok Stop, (h', b))" using h'(2,3) by (simp add: handleConn_eof)
  with h'(4) show ?thesis by (auto simp: response_bytes_def response_frame_def errorCode_def)
qed

text \<open>The bare name of a new topic creates it, and the same payload subscribes to it.\<close>

lemma handleConn_create_subscribe:
  assumes h: "sound h" and ok: "broker_ok finv flog b" and mem: "b_newStore b = Some memory_factory"
    and b: "\<not> b_closed b" "valid_name topic" "topic \<notin> fst ` set (b_topics b)"
      "b_maxTopics b \<le> 0 \<or> len (b_topics b) < b_maxTopics b"
  shows "\<exists>h' b' sid. handleConn quote fops s
      (h\<lparr>h_in := stream_of (frame_bytes OpCreateTopic topic @ frame_bytes OpSubscribe topic)\<rparr>, b) =
      (Ok (Streaming (length (b_parts b)) sid), (h', b')) \<and> map_of (b_topics b') topic = Some (length (b_parts b)) \<and>
    on_wire h' = on_wire h @ frame_bytes OpCreateTopic [] @ frame_bytes OpSubscribe []"
proof -
  let ?h = "h\<lparr>h_in := stream_of (frame_bytes OpCreateTopic topic @ frame_bytes OpSubscribe topic)\<rparr>"
  have len: "len topic \<le> MaxPayload" using b(2) by (simp add: valid_name_def MaxPayload_def)
  define b1 where "b1 = b\<lparr>b_calls := Suc (b_calls b), b_topics := b_topics b @ [(topic, length (b_parts b))],
    b_parts := b_parts b @ [newPartition (MemLog newMemoryLog)]\<rparr>"
  have r: "CreateTopic topic b = (Ok (), b1)"
    using ok
  proof (cases rule: CreateTopic_cases [where name = topic])
    case (invalid e)
    with b(2) show ?thesis by simp
  next
    case (nil f)
    with mem show ?thesis by (auto simp: memory_factory_def)
  next
    case (ok f st)
    with mem show ?thesis by (auto simp: b1_def memory_factory_def)
  qed (use b in auto)
  have fits: "frame_fits (response_of quote op (map_ok (\<lambda>_. []) (Ok u :: 'u result)))" for op and u :: 'u
    by (simp add: frame_fits_def response_of_def MaxPayload_def)
  obtain h1 where h1: "handleConn quote fops s (?h, b) = handleConn quote fops s (h1, b1)" "sound h1"
    "h_in h1 = stream_of (frame_bytes OpSubscribe topic)"
    "on_wire h1 = on_wire h @ frame_bytes OpCreateTopic []"
    by (rule handleConn_create [where h = ?h and i = "stream_of (frame_bytes OpSubscribe topic)" and fops = fops and s = s,
          OF _ _ len r _ fits]) (use h in \<open>simp_all add: response_of_def\<close>)
  have t: "map_of (b_topics b1) topic = Some (length (b_parts b))"
    using b(3) by (simp add: b1_def map_add_def map_of_eq_None_iff [THEN iffD2])
  obtain sid p where sub: "Broker_Subscribe topic b1 = (Ok (length (b_parts b), sid), b1\<lparr>b_parts := (b_parts b1)[length (b_parts b) := p]\<rparr>)"
    using b(1) t by (auto simp: Broker_Subscribe_def lookup_topic_def b1_def on_part_def gbind_def Partition_Subscribe_def
        newPartition_def Let_def)
  have "response_fits quote OpSubscribe None []" by (simp add: response_fits_def response_frame_def MaxPayload_def)
  then obtain h2 where h2: "reply quote s OpSubscribe None [] (h1\<lparr>h_in := []\<rparr>, b1\<lparr>b_parts := (b_parts b1)[length (b_parts b) := p]\<rparr>) =
      (Ok Continue, (h2, b1\<lparr>b_parts := (b_parts b1)[length (b_parts b) := p]\<rparr>))"
    "on_wire h2 = on_wire h1 @ response_bytes quote OpSubscribe None []"
    using reply_sound [of "h1\<lparr>h_in := []\<rparr>" quote OpSubscribe None "[]" s] h1(2) by auto
  have "handle_frame quote fops s OpSubscribe topic (h1\<lparr>h_in := []\<rparr>, b1) =
      (Ok (Streaming (length (b_parts b)) sid), (h2, b1\<lparr>b_parts := (b_parts b1)[length (b_parts b) := p]\<rparr>))"
    using sub h2(1) by (simp add: handle_frame_def opcode_defs handle_subscribe_def)
  then have "handleConn quote fops s (h1, b1) =
      (Ok (Streaming (length (b_parts b)) sid), (h2, b1\<lparr>b_parts := (b_parts b1)[length (b_parts b) := p]\<rparr>))"
    using h1(2,3) len
    by (simp add: handleConn.simps [of quote fops s h1] sound_def armRead_def ReadFrame_frame [where s = "[]", simplified])
  with h1 h2(2) t show ?thesis
    by (intro exI [of _ h2] exI [of _ "b1\<lparr>b_parts := (b_parts b1)[length (b_parts b) := p]\<rparr>"] exI [of _ sid])
      (simp add: response_bytes_def response_frame_def)
qed

end
