(* ===== verification/Props_Client.thy ===== *)
theory Props_Client
  imports Props_Network Demo_Run Demo_Publisher Net_Batcher_Steps Net_Layout
begin

text \<open>
  The properties of the client: its phases, requests without an acknowledgement, what a late response
  does, reading pushed messages, the publisher and the subscribers of the demo, and the batcher, alone
  and shared.
\<close>

section \<open>Requests\<close>

text \<open>
  C27: A client that is closed, or that streams after a subscription, refuses every request, whatever its
  arguments, puts no byte on the connection and stays as it is. A closed one answers ErrClosed before
  it looks at anything; a streaming one answers ErrStreaming, after the checks of the arguments in
  \<open>CreateTopic\<close>, \<open>Publish\<close> and \<open>PublishBatch\<close>, before them in \<open>PublishAsync\<close> and \<open>Subscribe\<close>.
\<close>

theorem requests_refused_in_phase:
  assumes "cl_closed c \<or> cl_streaming c"
  shows "refuses (Client_CreateTopic net topic) c (in_phase c [name_error topic]) \<and>
    refuses (Client_ListTopics net) c (in_phase c []) \<and>
    refuses (Client_Publish net topic payload) c
      (in_phase c [name_error topic, refuse ErrTooLarge (len payload > MaxMessage)]) \<and>
    refuses (Client_PublishBatch net topic payloads) c
      (in_phase c [refuse ErrEmptyBatch (payloads = []), name_error topic,
        refuse ErrTooLarge (list_ex (\<lambda>p. len p > MaxMessage) payloads)]) \<and>
    refuses (PublishAsync closing topic payload) c (in_phase c []) \<and>
    refuses (Client_Subscribe net topic) c (in_phase c [])"
proof (cases "cl_closed c")
  case True
  then show ?thesis by (simp add: in_phase_def closed_client_refuses)
next
  case False
  then have "cl_streaming c" using assms by simp
  with False show ?thesis
    by (cases "name_error topic") (auto simp: in_phase_def intro!: refuses_call)
qed

theorem requests_refused_in_phase_witness:
  "let c = test_client\<lparr>cl_streaming := True\<rparr>; net = (\<lambda>bs. ([], False)) in
    refuses (Client_CreateTopic net []) c ErrTopicNameEmpty \<and>
    refuses (Client_ListTopics net) c ErrStreaming \<and>
    refuses (Client_Publish net [97] [1]) c ErrStreaming \<and>
    refuses (Client_PublishBatch net [97] []) c ErrEmptyBatch \<and>
    refuses (PublishAsync False [] [1]) c ErrStreaming \<and>
    refuses (Client_Subscribe net []) c ErrStreaming"
proof -
  let ?c = "test_client\<lparr>cl_streaming := True\<rparr>" and ?net = "\<lambda>bs. ([], False)"
  have c: "cl_closed ?c \<or> cl_streaming ?c" "\<not> cl_closed ?c" by (simp_all add: test_client_def)
  have n: "name_error [97] = None" "name_error [] = Some ErrTopicNameEmpty"
    by (simp add: name_error_valid valid_a) (simp add: name_error_def)
  show ?thesis
    using requests_refused_in_phase [OF c(1), of ?net "[]" "[1]" "[]" False]
      requests_refused_in_phase [OF c(1), of ?net "[97]" "[1]" "[]" False] c(2) n
    by (simp add: in_phase_def MaxMessage_def MaxPayload_def)
qed

text \<open>
  C28: \<open>PublishAsync\<close> puts one frame on the connection and reads nothing; the server makes of it the broker's
  \<open>Publish\<close> and answers nothing. When the client is closed meanwhile, the call reports ErrClosed
  although the message is published.
\<close>

theorem async_publish_reaches_broker:
  assumes "idle c" and "sound h" and "serving memoryLog_inv memoryLog_log 1 b" and "valid_name topic"
    and "len (EncodePublish topic payload) \<le> MaxPayload" and "len payload \<le> MaxMessage"
    and "PublishAsync closing topic payload c = (r, c')"
  shows "r = (if closing then fail_with ErrClientClosed else Ok ()) \<and> cl_in c' = [] \<and>
    (\<exists>h'. handleConn quote memoryLog_ops s
        (h\<lparr>h_in := stream_of (drop (length (client_sent c)) (client_sent c'))\<rparr>, b) =
        (Ok Stop, (h', snd (Broker_Publish memoryLog_ops topic payload b))) \<and> on_wire h' = on_wire h)"
proof -
  obtain c1 where c1: "PublishAsync closing topic payload c =
      (if closing then fail_with ErrClientClosed else Ok (), c1)"
    "client_sent c1 = client_sent c @ frame_bytes OpPublishNoAck (EncodePublish topic payload)" "cl_in c1 = cl_in c"
    by (rule PublishAsync_sends [OF assms(1,4-6), of closing])
  let ?h = "h\<lparr>h_in := stream_of (frame_bytes OpPublishNoAck (EncodePublish topic payload))\<rparr>"
  have "\<exists>h'. handleConn quote memoryLog_ops s (?h, b) =
      (Ok Stop, (h', snd (Broker_Publish memoryLog_ops topic payload b))) \<and> on_wire h' = on_wire ?h"
    using mem_rel.handleConn_no_ack [where quote = quote and s = s, OF _ _ assms(3-6), of ?h] assms(2) by auto
  moreover have "cl_in c = []" using assms(1) by (simp add: idle_def)
  ultimately show ?thesis using c1 assms(7) by simp
qed

theorem async_publish_reaches_broker_witness:
  "let out = PublishAsync True [97] [1, 2] test_client in
    fst out = fail_with ErrClientClosed \<and> cl_in (snd out) = [] \<and>
    (\<exists>h'. handleConn (\<lambda>name. name) memoryLog_ops (NewServer [])
        (test_conn\<lparr>h_in := stream_of (drop (length (client_sent test_client)) (client_sent (snd out)))\<rparr>, test_broker) =
        (Ok Stop, (h', snd (Broker_Publish memoryLog_ops [97] [1, 2] test_broker))) \<and> on_wire h' = on_wire test_conn)"
  using async_publish_reaches_broker [where closing = True and quote = "\<lambda>name. name" and s = "NewServer []",
      OF test_client_idle test_conn_sound test_broker_serving valid_a _ _ prod.collapse [symmetric], of "[1, 2]"]
  by (simp add: fits_int64_def EncodePublish_pieces MaxPayload_def MaxMessage_def Let_def)

text \<open>
  A client's \<open>ListTopics\<close> over a connection has the result of the broker's: the names in ascending order, or
  the broker's error; a list that does not fit in a frame is reported as ErrTooLarge.
\<close>

lemma client_list_is_broker_list:
  assumes "idle c" and "sound h"
  shows "answer (fst (Client_ListTopics (loopback quote fops s h b) c)) =
    (if b_closed b then Fail (Some ErrClosed)
     else if MaxPayload < len (EncodeTopics (sort (map fst (b_topics b)))) then Fail (Some ErrTooLarge)
     else Ok (sort (map fst (b_topics b))))"
proof -
  obtain c' where "Client_ListTopics (loopback quote fops s h b) c = (transport quote (list_result b), c')"
    by (rule Client_ListTopics_loopback [OF assms])
  moreover have "answer (transport quote (list_result b)) = answer (list_result b)"
    by (cases rule: list_result_cases [of b]) (auto simp: error_code_roundtrip wire_error_def)
  ultimately show ?thesis by (simp add: list_result_def ListTopics_def topics_too_large_def)
qed

text \<open>
  C37: A request whose response is late is not forgotten: when the read fails, by the read timeout or any other
  fault that leaves the client open, the next \<open>Publish\<close> takes the late response for its own and returns
  the offset of the message before.
\<close>

theorem late_response_is_mistaken:
  assumes "idle c" and "valid_name topic"
    and "len (EncodePublish topic p1) \<le> MaxPayload" and "len p1 \<le> MaxMessage"
    and "len (EncodePublish topic p2) \<le> MaxPayload" and "len p2 \<le> MaxMessage"
  shows "fst (Client_Publish (\<lambda>bs. ([Fault (IOError n)], False)) topic p1 c) = fail_with (IOError n) \<and>
    fst (Client_Publish
      (\<lambda>bs. (stream_of (frame_bytes OpPublish (MarshalOffset off1) @ frame_bytes OpPublish (MarshalOffset off2)), False))
      topic p2 (snd (Client_Publish (\<lambda>bs. ([Fault (IOError n)], False)) topic p1 c))) = Ok off1"
  by (rule late_response [where ?net1.0 = "\<lambda>bs. ([Fault (IOError n)], False)" and
        ?net2.0 = "\<lambda>bs. (stream_of (frame_bytes OpPublish (MarshalOffset off1) @ frame_bytes OpPublish (MarshalOffset off2)), False)",
        OF assms HOL.refl HOL.refl]) simp

theorem late_response_is_mistaken_witness:
  "fst (Client_Publish (\<lambda>bs. ([Fault (IOError 3)], False)) [97] [1] test_client) = fail_with (IOError 3) \<and>
    fst (Client_Publish
      (\<lambda>bs. (stream_of (frame_bytes OpPublish (MarshalOffset 5) @ frame_bytes OpPublish (MarshalOffset 6)), False))
      [97] [2] (snd (Client_Publish (\<lambda>bs. ([Fault (IOError 3)], False)) [97] [1] test_client))) = Ok 5"
  by (rule late_response_is_mistaken [OF test_client_idle valid_a])
    (simp_all add: EncodePublish_pieces MaxPayload_def MaxMessage_def)

text \<open>
  C38: The layout that the protocol's document gives for the payload of OpCreateTopic and OpSubscribe, a length and
  the name, is not the one the server reads. A frame with it creates and finds no topic: the handler
  takes the whole payload for the name, in which the length of a name that fits in a frame has a zero
  byte, answers OpError and leaves the broker as it is. A frame with the bare name is what reaches
  \<open>CreateTopic\<close> and \<open>Subscribe\<close>.
\<close>

theorem documented_create_is_refused:
  assumes "sound h" and "serving memoryLog_inv memoryLog_log 0 b" and "\<not> b_closed b"
    and "len (putString [] name) \<le> MaxPayload" and "valid_name topic" and "topic \<notin> fst ` set (b_topics b)"
    and "b_maxTopics b \<le> 0 \<or> len (b_topics b) < b_maxTopics b"
  shows "(\<exists>h' code msg. handleConn quote memoryLog_ops s
        (h\<lparr>h_in := stream_of (frame_bytes OpCreateTopic (putString [] name))\<rparr>, b) = (Ok Stop, (h', b)) \<and>
      on_wire h' = on_wire h @ frame_bytes OpError (EncodeError code msg) \<and>
      code \<in> {CodeTopicNameTooLong, CodeInvalidTopicName}) \<and>
    (\<exists>h' msg. handleConn quote memoryLog_ops s
        (h\<lparr>h_in := stream_of (frame_bytes OpSubscribe (putString [] name))\<rparr>, b) = (Ok Stop, (h', b)) \<and>
      on_wire h' = on_wire h @ frame_bytes OpError (EncodeError CodeTopicNotFound msg)) \<and>
    (\<exists>h' b' sid. handleConn quote memoryLog_ops s
        (h\<lparr>h_in := stream_of (frame_bytes OpCreateTopic topic @ frame_bytes OpSubscribe topic)\<rparr>, b) =
        (Ok (Streaming (length (b_parts b)) sid), (h', b')) \<and> map_of (b_topics b') topic = Some (length (b_parts b)) \<and>
      on_wire h' = on_wire h @ frame_bytes OpCreateTopic [] @ frame_bytes OpSubscribe [])"
proof -
  have ok: "broker_ok memoryLog_inv memoryLog_log b" "b_newStore b = Some memory_factory"
    using assms(2) by (auto simp: serving_def)
  note nv = putString_not_valid [OF assms(4)]
  have "map_of (b_topics b) (putString [] name) = None"
    using broker_okD(3) [OF ok(1)] nv(1) by (cases "map_of (b_topics b) (putString [] name)") auto
  from handleConn_create_invalid [OF assms(1,4,3) nv] handleConn_subscribe_missing [OF assms(1,4,3) this]
    handleConn_create_subscribe [OF assms(1) ok assms(3,5-7)]
  show ?thesis by blast
qed

theorem documented_create_is_refused_witness:
  "(\<exists>h' code msg. handleConn (\<lambda>name. name) memoryLog_ops (NewServer [])
        (test_conn\<lparr>h_in := stream_of (frame_bytes OpCreateTopic (putString [] [98]))\<rparr>, test_broker) = (Ok Stop, (h', test_broker)) \<and>
      on_wire h' = on_wire test_conn @ frame_bytes OpError (EncodeError code msg) \<and>
      code \<in> {CodeTopicNameTooLong, CodeInvalidTopicName}) \<and>
    (\<exists>h' msg. handleConn (\<lambda>name. name) memoryLog_ops (NewServer [])
        (test_conn\<lparr>h_in := stream_of (frame_bytes OpSubscribe (putString [] [98]))\<rparr>, test_broker) = (Ok Stop, (h', test_broker)) \<and>
      on_wire h' = on_wire test_conn @ frame_bytes OpError (EncodeError CodeTopicNotFound msg)) \<and>
    (\<exists>h' b' sid. handleConn (\<lambda>name. name) memoryLog_ops (NewServer [])
        (test_conn\<lparr>h_in := stream_of (frame_bytes OpCreateTopic [98] @ frame_bytes OpSubscribe [98])\<rparr>, test_broker) =
        (Ok (Streaming (length (b_parts test_broker)) sid), (h', b')) \<and>
      map_of (b_topics b') [98] = Some (length (b_parts test_broker)) \<and>
      on_wire h' = on_wire test_conn @ frame_bytes OpCreateTopic [] @ frame_bytes OpSubscribe [])"
  by (rule documented_create_is_refused [OF test_conn_sound test_broker_serving])
    (simp_all add: putString_def MaxPayload_def test_broker_eq fits_int64_def valid_name_def control_def)

section \<open>Reading pushed messages\<close>

text \<open>
  C31: \<open>ReadBatch\<close> returns a non-empty prefix of the pushed messages, of at most \<open>max\<close> messages, at least one,
  and the rest is still there to be read; whatever part of them has already arrived in the buffer.
\<close>

theorem read_batch_returns_prefix:
  assumes "\<not> cl_closed c" and "cl_in c = stream_of (messages_bytes ms)" and "ms \<noteq> []"
    and "list_all (\<lambda>m. len (Payload m) \<le> MaxMessage) ms" and "alloc (max 1 mx)"
    and "\<And>j. buffered j \<le> length j"
  shows "\<exists>k. 0 < k \<and> k \<le> length ms \<and> int k \<le> max 1 mx \<and>
    ReadBatch alloc buffered mx c = (Ok (take k ms), c\<lparr>cl_in := stream_of (messages_bytes (drop k ms))\<rparr>)"
proof -
  have m: "(if mx \<le> 0 then 1 else mx) = max 1 mx" by simp
  show ?thesis
    using ReadBatch_messages [OF assms(1-3) _ _ assms(6), of alloc mx] assms(4,5) unfolding m
    by (simp add: list_all_iff)
qed

theorem read_batch_returns_prefix_witness:
  "\<exists>k. 0 < k \<and> k \<le> length (messages [[1], [2, 3]]) \<and> int k \<le> max 1 (- 1) \<and>
    ReadBatch (\<lambda>n. n < 10) length (- 1) (test_client\<lparr>cl_in := stream_of (messages_bytes (messages [[1], [2, 3]]))\<rparr>) =
      (Ok (take k (messages [[1], [2, 3]])),
       test_client\<lparr>cl_in := stream_of (messages_bytes (messages [[1], [2, 3]]))\<rparr>\<lparr>cl_in :=
         stream_of (messages_bytes (drop k (messages [[1], [2, 3]])))\<rparr>)"
  by (rule read_batch_returns_prefix)
    (simp_all add: test_client_def messages_def upt_rec MaxMessage_def MaxPayload_def)

text \<open>
  C34: A subscriber of the demo returns, after finitely many calls of \<open>ReadBatch\<close>, with the offset of the last
  message and the number of bytes of all of them, whatever batches the messages arrive in.
\<close>

theorem demo_reader_reads_all:
  assumes "dial defaultDialTimeout = Ok (new_conn_out None)"
    and "net (frame_bytes OpSubscribe topicName) =
      (stream_of (frame_bytes OpSubscribe []) @ stream_of (messages_bytes (messages ps)), False)"
    and "list_all (\<lambda>p. len p \<le> MaxMessage) ps" and "ps \<noteq> []" and "alloc 256"
    and "\<And>j. buffered j \<le> length j"
  shows "consume dial net alloc buffered (length ps) ident =
    Ok \<lparr>rr_id = ident, rr_last = int64 (length ps - 1), rr_bytes = len (concat ps)\<rparr>"
  by (rule consume_reads_all; fact assms)

theorem demo_reader_reads_all_witness:
  "consume (\<lambda>t. Ok (new_conn_out None))
      (\<lambda>bs. (stream_of (frame_bytes OpSubscribe []) @ stream_of (messages_bytes (messages [[1], [2, 3]])), False))
      (\<lambda>n. n < 1000) length (length [[1], [2, 3 :: byte]]) 1 =
    Ok \<lparr>rr_id = 1, rr_last = int64 (length [[1], [2, 3 :: byte]] - 1), rr_bytes = len (concat [[1], [2, 3 :: byte]])\<rparr>"
  by (rule demo_reader_reads_all) (simp_all add: MaxMessage_def MaxPayload_def)

text \<open>
  C32: The publisher of the demo, over a connection to a new server's broker, with the batcher's timer firing
  whenever it may and its flushes interleaved with the publisher's own: every run ends, within
  5 * (cnt + 1) steps, none is stuck before its end, and no call of the publisher reports an error. At
  any moment the topic's log holds payloads of the demo, none twice; when the publisher has returned and
  no flush is in flight, it holds every one exactly once, in the order in which they were added if no
  two flushes overlapped; for up to a billion messages.
\<close>

theorem demo_publisher_fills_the_log:
  assumes "idle c" and "sound h" and "quote_bound quote" and "cnt \<le> 10 ^ 9"
    and "(pub_run overlap quote memoryLog_ops s cnt ^^ n) (publisher_start quote memoryLog_ops s ((c, h), New [])) w"
  shows "n \<le> 5 * Suc cnt \<and> ((\<exists>w'. pub_run overlap quote memoryLog_ops s cnt w w') \<or> pub_final w) \<and>
    (\<forall>r. pw_place w = Returned r \<longrightarrow> r = Ok ()) \<and>
    (\<exists>l. abs_broker memoryLog_log (snd (pw_net w)) = Some [topicName \<mapsto> l] \<and>
      mset l \<subseteq># mset (map demo_payload [0..<cnt]) \<and>
      (pw_place w = Returned (Ok ()) \<and> pw_flights w = [] \<longrightarrow>
        mset l = mset (map demo_payload [0..<cnt]) \<and> (\<not> overlap \<longrightarrow> l = map demo_payload [0..<cnt])))"
proof -
  have "broker_ok memoryLog_inv memoryLog_log (New [])" by (rule New_shape) simp
  then have b: "serving memoryLog_inv memoryLog_log 0 (New [])" "abs_broker memoryLog_log (New []) = Some Map.empty"
    "b_maxTopics (New []) \<le> 0"
    by (auto simp: serving_def spec_fits_def abs_broker_def topic_logs_def New_def fun_eq_iff split: if_splits)
  note start = mem_rel.publisher_start_ok [OF assms(1,2) b(1) assms(3) b(2,3), of overlap cnt s]
  then have "n \<le> 5 * Suc cnt" using pub_runs_bounded [OF assms(5)] by simp
  moreover obtain l where l: "pub_ok overlap cnt w l" "net_ok memoryLog_inv memoryLog_log (pw_net w) l"
    using mem_rel.pub_runs_ok [OF assms(5,3,4)] start by blast
  moreover have "abs_broker memoryLog_log (snd (pw_net w)) = Some [topicName \<mapsto> l]"
    using l(2) by (auto simp: net_ok_def split: prod.splits)
  ultimately show ?thesis
    using pub_progress [OF l(1)] pub_ok_log [OF l(1)] by blast
qed

text \<open>The runs of the demo itself: one to the end, and one to the end in which no two flushes overlap.\<close>

abbreviation demo_start_world :: "memoryLog pub_world" where
  "demo_start_world \<equiv> publisher_start (\<lambda>name. name) memoryLog_ops (NewServer []) ((test_client, test_conn), New [])"

theorem demo_publisher_fills_the_log_witness:
  "(\<exists>n w l. (pub_run True (\<lambda>name. name) memoryLog_ops (NewServer []) demo_total ^^ n) demo_start_world w \<and> pub_final w \<and>
      abs_broker memoryLog_log (snd (pw_net w)) = Some [topicName \<mapsto> l] \<and>
      mset l = mset (map demo_payload [0..<demo_total])) \<and>
   (\<exists>n w. (pub_run False (\<lambda>name. name) memoryLog_ops (NewServer []) demo_total ^^ n) demo_start_world w \<and> pub_final w \<and>
      abs_broker memoryLog_log (snd (pw_net w)) = Some [topicName \<mapsto> map demo_payload [0..<demo_total]])"
proof -
  let ?R = "\<lambda>overlap. pub_run overlap (\<lambda>name. name) memoryLog_ops (NewServer []) demo_total"
  have cnt: "demo_total \<le> 10 ^ 9" by (simp add: demo_total_def)
  note fills = demo_publisher_fills_the_log [OF test_client_idle test_conn_sound quote_bound_id cnt]
  have "\<exists>n w. (?R overlap ^^ n) demo_start_world w \<and> pub_final w" for overlap
  proof -
    define P where "P n \<longleftrightarrow> (\<exists>w. (?R overlap ^^ n) demo_start_world w)" for n
    have "P 0" by (simp add: P_def)
    moreover have "\<forall>n. P n \<longrightarrow> n \<le> 5 * Suc demo_total" using fills by (auto simp: P_def)
    ultimately obtain n where n: "P n" "\<forall>m. P m \<longrightarrow> m \<le> n" using Nat.ex_has_greatest_nat [of P 0 "5 * Suc demo_total"] by blast
    then obtain w where w: "(?R overlap ^^ n) demo_start_world w" by (auto simp: P_def)
    have "\<not> ?R overlap w w'" for w'
    proof
      assume "?R overlap w w'"
      then have "P (Suc n)" unfolding P_def using w by (blast intro: relpowp_Suc_I)
      with n(2) show False by force
    qed
    with fills [OF w] w show ?thesis by blast
  qed
  from this [of True] this [of False] obtain n w n' w' where
    r: "(?R True ^^ n) demo_start_world w" "pub_final w" and
    r': "(?R False ^^ n') demo_start_world w'" "pub_final w'" by blast
  from fills [OF r(1)] fills [OF r'(1)] r r' show ?thesis unfolding pub_final_def by blast
qed

text \<open>
  C33: The demo's \<open>run\<close> returns, whatever order its goroutines run in and whatever fails: no goroutine blocks
  for ever at a channel, no execution has more than 17 steps, and one that can go no further has
  returned. It returns nil only when everything was set up and published and the results of both
  subscribers, one each, are printed; an error it returns is that of the set-up, of the publisher or of
  a subscriber, with its number.
\<close>

theorem demo_run_returns:
  assumes "(run_step_of prep published outcome ^^ n) demo_start st"
    and "outcome 1 \<noteq> Panic" and "outcome 2 \<noteq> Panic" and "prep \<noteq> Panic" and "published \<noteq> Panic"
  shows "n \<le> 17 \<and>
    ((\<exists>st'. run_step_of prep published outcome st st') \<or>
     (\<exists>r. dr_main st = Run_returned r \<and>
        (case r of
           None \<Rightarrow> prep = Ok () \<and> published = Ok () \<and>
             (\<exists>y1 y2. outcome 1 = Ok y1 \<and> outcome 2 = Ok y2 \<and> mset (dr_printed st) = {#y1, y2#})
         | Some e \<Rightarrow> prep = Fail e \<or> published = Fail e \<or>
             (\<exists>i e'. i \<in> {1, 2} \<and> outcome i = Fail e' \<and> e = subscriber_error i e'))))"
proof -
  note ok = runs_ok [OF assms(1-3)]
  show ?thesis
  proof (cases "running st")
    case True
    with ok run_progress [OF conjunct1 [OF ok] _ assms(2-5)] show ?thesis by simp
  next
    case False
    then obtain r where "dr_main st = Run_returned r" by (auto simp: running_def)
    with ok show ?thesis by (simp add: demo_ok_def returns_ok_def)
  qed
qed

definition some_consume :: "nat \<Rightarrow> readerResult result" where
  "some_consume i = consume (\<lambda>t. Ok (new_conn_out None))
     (\<lambda>bs. (stream_of (frame_bytes OpSubscribe []) @ stream_of (messages_bytes (messages [[1], [2, 3]])), False))
     (\<lambda>n. n < 1000) length (length [[1], [2, 3 :: byte]]) (int i)"

lemma some_consume_result: "some_consume i = Ok \<lparr>rr_id = int i, rr_last = 1, rr_bytes = 3\<rparr>"
proof -
  have "some_consume i = Ok \<lparr>rr_id = int i, rr_last = int64 (length [[1], [2, 3 :: byte]] - 1),
      rr_bytes = len (concat [[1], [2, 3 :: byte]])\<rparr>"
    unfolding some_consume_def by (rule consume_reads_all) (simp_all add: MaxMessage_def MaxPayload_def)
  then show ?thesis by (simp add: int64_def)
qed

theorem demo_run_returns_witness:
  "\<exists>n st. (run_step_of (Ok ()) (Ok ()) some_consume ^^ n) demo_start st \<and> n \<le> 17 \<and> dr_main st = Run_returned None \<and>
    mset (dr_printed st) = {#\<lparr>rr_id = 1, rr_last = 1, rr_bytes = 3\<rparr>, \<lparr>rr_id = 2, rr_last = 1, rr_bytes = 3\<rparr>#}"
proof -
  have none: "some_consume i \<noteq> Panic" for i by (simp add: some_consume_result)
  obtain n st r where r: "(run_step_of (Ok ()) (Ok ()) some_consume ^^ n) demo_start st" "dr_main st = Run_returned r"
    using run_finishes [of some_consume "Ok ()" "Ok ()", OF none none] by auto
  then have "\<nexists>st'. run_step_of (Ok ()) (Ok ()) some_consume st st'" by (simp add: run_step_of_def running_def)
  with demo_run_returns [OF r(1) none none] r(2) have "r = None" "n \<le> 17"
    "mset (dr_printed st) = {#\<lparr>rr_id = 1, rr_last = 1, rr_bytes = 3\<rparr>, \<lparr>rr_id = 2, rr_last = 1, rr_bytes = 3\<rparr>#}"
    using some_consume_result [of "Suc 0"] some_consume_result [of 2]
    by (auto split: option.splits)
  with r show ?thesis by blast
qed

section \<open>The batcher\<close>

text \<open>
  C26: A batcher without a timer (\<open>maxDelay\<close> not positive) that one goroutine fills and closes puts on the
  connection exactly the frames of the payloads cut into batches of \<open>maxBatch\<close>, in order, none lost,
  none twice; when a batch fails, a prefix of that, and the error stays. With a timer another goroutine
  flushes too: C25, and C32 for the demo.
\<close>

theorem batcher_session_sends_chunks:
  assumes "flushed c" and "maxDelay \<le> 0"
    and "gbind (add_all (Client_PublishBatch net topic) ps) (\<lambda>_. Batcher_Close (Client_PublishBatch net topic))
      (NewBatcher maxBatch maxDelay, c) = (r, (b', c'))"
  shows "session_sent r b' (client_sent c) (client_sent c')
      (concat (map (\<lambda>batch. frame_bytes OpPublishBatch (EncodePublishBatch topic batch))
        (chunks (nat (max 1 maxBatch)) [] ps))) \<and>
    concat (chunks (nat (max 1 maxBatch)) [] ps) = ps \<and>
    set (chunks (nat (max 1 maxBatch)) [] ps) \<subseteq> {batch. batch \<noteq> [] \<and> len batch \<le> max 1 maxBatch} \<and>
    \<not> ba_timer (fst (snd (add_all (Client_PublishBatch net topic) (take k ps) (NewBatcher maxBatch maxDelay, c))))"
proof -
  let ?b = "NewBatcher maxBatch maxDelay"
  have b: "ba_err ?b = None" "\<not> ba_closed ?b" "ba_buf ?b = []" "ba_maxBatch ?b = max 1 maxBatch"
    "ba_maxDelay ?b = maxDelay" "\<not> ba_timer ?b"
    by (simp_all add: NewBatcher_def Let_def)
  have "session_sent r b' (client_sent c) (client_sent c')
      (concat (map (\<lambda>batch. frame_bytes OpPublishBatch (EncodePublishBatch topic batch))
        (chunks (nat (ba_maxBatch ?b)) (ba_buf ?b) ps)))"
    by (rule client_pub.session [OF assms(1) b(1,2) _ assms(3)]) (simp add: b)
  moreover have "\<forall>x\<in>set (chunks (nat (max 1 maxBatch)) [] ps). x \<noteq> [] \<and> length x \<le> nat (max 1 maxBatch)"
    by (rule chunks_length) simp
  moreover have "\<not> ba_timer (fst (snd (add_all (Client_PublishBatch net topic) (take k ps) (?b, c))))"
    by (rule add_all_no_timer) (use b assms(2) in simp_all)
  ultimately show ?thesis by (fastforce simp: b concat_chunks)
qed

theorem batcher_session_sends_chunks_witness:
  "let net = (\<lambda>bs. ([], False));
      out = gbind (add_all (Client_PublishBatch net [97]) [[1], [2], [3]])
        (\<lambda>_. Batcher_Close (Client_PublishBatch net [97])) (NewBatcher 2 0, test_client) in
    session_sent (fst out) (fst (snd out)) (client_sent test_client) (client_sent (snd (snd out)))
      (concat (map (\<lambda>batch. frame_bytes OpPublishBatch (EncodePublishBatch [97] batch))
        (chunks (nat (max 1 2)) [] [[1], [2], [3]]))) \<and>
    concat (chunks (nat (max 1 2)) [] [[1], [2], [3]]) = [[1], [2], [3]] \<and>
    set (chunks (nat (max 1 2)) [] [[1], [2], [3]]) \<subseteq> {batch. batch \<noteq> [] \<and> len batch \<le> max 1 2} \<and>
    \<not> ba_timer (fst (snd (add_all (Client_PublishBatch net [97]) (take 1 [[1], [2], [3]]) (NewBatcher 2 0, test_client))))"
  unfolding Let_def
proof (rule batcher_session_sends_chunks)
  show "flushed test_client" using test_client_idle by (simp add: idle_def)
qed (simp_all only: prod.collapse order_refl)

text \<open>
  C25: Under any interleaving of \<open>Add\<close>, \<open>Flush\<close>, \<open>Close\<close> and the timer, every accepted payload is in exactly one place:
  the buffer, a flush in flight, a published batch or a failed one; the buffer exceeds \<open>maxBatch\<close> by
  no more than the calls of \<open>Add\<close> about to flush it; and a failed batch is in flight until its error has
  been recorded.
\<close>

theorem batcher_keeps_every_payload:
  assumes "batcher_steps (batch_start maxBatch maxDelay) w"
  shows "mset (bt_added w) = mset (ba_buf (bt_state w)) + mset (unsent (bt_flight w)) +
      mset (concat (bt_sent w)) + mset (concat (bt_lost w)) \<and>
    len (ba_buf (bt_state w)) < ba_maxBatch (bt_state w) + int (bt_full w) \<and>
    (case ba_err (bt_state w) of
       None \<Rightarrow> set (bt_lost w) \<subseteq> {batch. \<exists>e. (batch, Some (Fail e)) \<in> set (bt_flight w)}
     | Some e \<Rightarrow> Add_enter payload (bt_state w) =
         (if ba_closed (bt_state w) then fail_with ErrClientClosed else Fail e, bt_state w))"
proof -
  have "batch_ok w" by (rule batcher_steps_ok [OF assms batch_ok_start])
  then show ?thesis
    by (cases "ba_err (bt_state w)") (simp_all add: batch_ok_def Add_enter_def)
qed

theorem batcher_keeps_every_payload_witness:
  "let w = taken [1] [2] in
    mset (bt_added w) = mset (ba_buf (bt_state w)) + mset (unsent (bt_flight w)) +
      mset (concat (bt_sent w)) + mset (concat (bt_lost w)) \<and>
    len (ba_buf (bt_state w)) < ba_maxBatch (bt_state w) + int (bt_full w) \<and>
    (case ba_err (bt_state w) of
       None \<Rightarrow> set (bt_lost w) \<subseteq> {batch. \<exists>e. (batch, Some (Fail e)) \<in> set (bt_flight w)}
     | Some e \<Rightarrow> Add_enter [3] (bt_state w) =
         (if ba_closed (bt_state w) then fail_with ErrClientClosed else Fail e, bt_state w))"
  unfolding Let_def by (rule batcher_keeps_every_payload [OF taken_reachable])

text \<open>
  C35: As long as a flush begins only when the one before is accounted for, what is published is what was
  accepted, in order, up to the first failed batch.
\<close>

theorem flushes_without_overlap_keep_order:
  assumes "ordered_steps (batch_start maxBatch maxDelay) w" and "bt_lost w = []"
  shows "bt_added w = concat (bt_sent w) @ unsent (bt_flight w) @ ba_buf (bt_state w)"
  using ordered_steps_ok [OF assms(1) order_ok_start] assms(2) by (simp add: order_ok_def)

definition ordered_run :: batch_world where
  "ordered_run = Add_world [2] (Flush_world (Add_world [1] (batch_start 2 0)))"

theorem flushes_without_overlap_keep_order_witness:
  "bt_added ordered_run = concat (bt_sent ordered_run) @ unsent (bt_flight ordered_run) @ ba_buf (bt_state ordered_run)"
proof (rule flushes_without_overlap_keep_order)
  have eq: "bt_flight (batch_start 2 0) = []" "bt_flight (Add_world [1] (batch_start 2 0)) = []"
    "length (bt_flight (Flush_world (Add_world [1] (batch_start 2 0)))) = 1" "length (bt_flight ordered_run) = 1"
    "bt_lost ordered_run = []"
    by (simp_all add: ordered_run_def batch_start_def NewBatcher_def Add_world_def Add_enter_def Flush_world_def
        Flush_take_def Let_def)
  show "ordered_steps (batch_start 2 0) ordered_run"
    unfolding ordered_run_def
    by (intro ordered_steps.more [OF _ batcher_step.add] ordered_steps.more [OF _ batcher_step.flush] ordered_steps.here)
      (use eq in \<open>simp_all add: ordered_run_def\<close>)
  show "bt_lost ordered_run = []" by (rule eq)
qed

text \<open>
  C36: Overlapping flushes break both promises: a run in which the payloads \<open>p\<close> and \<open>q\<close>, added in this order, are
  published in the other; and a run in which \<open>Close\<close> returns nil and the batch that was in flight fails
  afterwards.
\<close>

theorem overlapping_flushes_reorder_and_lose:
  "(\<exists>w. batcher_steps (batch_start 1 0) w \<and> bt_added w = [p, q] \<and> bt_sent w = [[q], [p]]) \<and>
   (\<exists>w w'. batcher_steps (batch_start 1 0) w \<and> bt_added w = [p] \<and>
     fst (Batcher_Close pub (bt_state w, c)) = Ok () \<and>
     batcher_steps (w\<lparr>bt_state := fst (snd (Batcher_Close pub (bt_state w, c)))\<rparr>) w' \<and> bt_lost w' = [[p]])"
  by (rule conjI [OF overtaken_reachable close_misses_failure])

end
