(* ===== verification/Net_Push.thy ===== *)
theory Net_Push
  imports Net_Stream
begin

text \<open>
  The push phase of a connection, with everything that runs side by side in it: the goroutine of the
  handler, which streams and then does its deferred calls; the monitor of the peer, which the handler
  joins; the reader of the subscription inside \<open>Subscription.Read\<close>; and around them the network, the
  server's \<open>Close\<close>, and the publishers, subscribers and closers of the partition.
\<close>

section \<open>The state\<close>

text \<open>
  Where the handler is: in \<open>sub.Read\<close>, writing a batch, or at one of the deferred calls, in the order
  they run: close the connection, join the monitor, close the subscription, cancel the context.
\<close>

datatype stage =
  Reading | Writing "message list" | ClosingConn | Joining | Unsubscribing | Releasing | Returned

text \<open>
  Where the monitor is: in \<open>conn.Read\<close>, or at one of its own deferred calls, \<open>subCancel()\<close> and
  \<open>close(monitorDone)\<close>.
\<close>

datatype monitor = Watching | Signalling | Leaving | Gone

text \<open>The monitor only goes forward: its places are ordered by the steps it still has to make.\<close>

primrec monitor_rank :: "monitor \<Rightarrow> nat" where
  "monitor_rank Watching = 3"
| "monitor_rank Signalling = 2"
| "monitor_rank Leaving = 1"
| "monitor_rank Gone = 0"

instantiation monitor :: linorder
begin

definition less_eq_monitor :: "monitor \<Rightarrow> monitor \<Rightarrow> bool" where
  "m \<le> n \<longleftrightarrow> monitor_rank n \<le> monitor_rank m"

definition less_monitor :: "monitor \<Rightarrow> monitor \<Rightarrow> bool" where
  "m < n \<longleftrightarrow> monitor_rank n < monitor_rank m"

instance
proof
  fix m n :: monitor
  show "m \<le> n \<Longrightarrow> n \<le> m \<Longrightarrow> m = n"
    by (cases m; cases n) (simp_all add: less_eq_monitor_def)
qed (auto simp: less_eq_monitor_def less_monitor_def)

end

lemma monitor_le_simps [simp]:
  "Leaving \<le> m \<longleftrightarrow> m = Leaving \<or> m = Gone" "Watching \<le> m" "m \<le> Gone" "Signalling \<le> Leaving"
  by (cases m; simp add: less_eq_monitor_def)+

text \<open>
  \<open>pu_cancelled\<close> is the state of \<open>subCtx\<close>; \<open>pu_peer\<close> says that the peer has closed the connection, sent
  something or failed, so that the monitor's read returns.
\<close>

record 's push =
  pu_world :: "'s world"
  pu_stage :: stage
  pu_monitor :: monitor
  pu_cancelled :: bool
  pu_peer :: bool
  pu_conn :: hconn
  pu_pool :: header_pool

text \<open>A closed connection: every further write fails.\<close>

definition shut :: "hconn \<Rightarrow> hconn" where
  "shut c = c\<lparr>h_open := False, h_bw := (h_bw c)\<lparr>bw_conn := (bw_conn (h_bw c))\<lparr>co_fault := Some (0, IOError 0)\<rparr>\<rparr>\<rparr>"

section \<open>The steps\<close>

text \<open>The steps of the connection: the reader, the stream, the deferred calls, and the monitor.\<close>

inductive conn_step ::
    "(gostring \<Rightarrow> gostring) \<Rightarrow> server \<Rightarrow> 's store_ops \<Rightarrow> nat \<Rightarrow> 's push \<Rightarrow> 's push \<Rightarrow> bool"
  for quote :: "gostring \<Rightarrow> gostring" and s :: server and ops :: "'s store_ops" and sid :: nat where
  call: "pu_stage st = Reading \<Longrightarrow> w_pc (pu_world st) sid = Idle \<Longrightarrow> sid < length (p_heap (w_part (pu_world st))) \<Longrightarrow>
     conn_step quote s ops sid st (st\<lparr>pu_world := set_pc sid (Checking (read_max stream_batch)) (pu_world st)\<rparr>)"
| deliver: "pu_stage st = Reading \<Longrightarrow> w_pc (pu_world st) sid = Checking mx \<Longrightarrow>
     Read_locked ops sid mx (w_part (pu_world st)) = (Ok (Some ms), p) \<Longrightarrow>
     conn_step quote s ops sid st (st\<lparr>pu_world := set_pc sid Idle (add_got sid ms ((pu_world st)\<lparr>w_part := p\<rparr>)),
       pu_stage := Writing ms\<rparr>)"
| refuse: "pu_stage st = Reading \<Longrightarrow> w_pc (pu_world st) sid = Checking mx \<Longrightarrow>
     Read_locked ops sid mx (w_part (pu_world st)) = (Fail e, p) \<Longrightarrow>
     conn_step quote s ops sid st (st\<lparr>pu_world := set_pc sid Idle ((pu_world st)\<lparr>w_part := p\<rparr>), pu_stage := ClosingConn\<rparr>)"
| park: "pu_stage st = Reading \<Longrightarrow> w_pc (pu_world st) sid = Checking mx \<Longrightarrow>
     Read_locked ops sid mx (w_part (pu_world st)) = (Ok None, p) \<Longrightarrow>
     conn_step quote s ops sid st (st\<lparr>pu_world := set_pc sid (Waiting mx) ((pu_world st)\<lparr>w_part := p\<rparr>)\<rparr>)"
| wake_ready: "pu_stage st = Reading \<Longrightarrow> w_pc (pu_world st) sid = Waiting mx \<Longrightarrow>
     s_ready (p_heap (w_part (pu_world st)) ! sid) \<Longrightarrow>
     conn_step quote s ops sid st (st\<lparr>pu_world := set_pc sid (Checking mx)
       ((pu_world st)\<lparr>w_part := take_ready sid (w_part (pu_world st))\<rparr>)\<rparr>)"
| wake_done: "pu_stage st = Reading \<Longrightarrow> w_pc (pu_world st) sid = Waiting mx \<Longrightarrow>
     s_done (p_heap (w_part (pu_world st)) ! sid) \<Longrightarrow>
     conn_step quote s ops sid st (st\<lparr>pu_world := set_pc sid Idle (pu_world st), pu_stage := ClosingConn\<rparr>)"
| wake_ctx: "pu_stage st = Reading \<Longrightarrow> w_pc (pu_world st) sid = Waiting mx \<Longrightarrow> pu_cancelled st \<Longrightarrow>
     conn_step quote s ops sid st (st\<lparr>pu_world := set_pc sid Idle (pu_world st), pu_stage := ClosingConn\<rparr>)"
| push: "pu_stage st = Writing ms \<Longrightarrow> push_batch quote s ms (pu_conn st, pu_pool st) = (v, (c, pool)) \<Longrightarrow>
     conn_step quote s ops sid st (st\<lparr>pu_conn := c, pu_pool := pool,
       pu_stage := (if v = Ok Continue then Reading else ClosingConn)\<rparr>)"
| close_conn: "pu_stage st = ClosingConn \<Longrightarrow>
     conn_step quote s ops sid st (st\<lparr>pu_conn := shut (pu_conn st), pu_stage := Joining\<rparr>)"
| join: "pu_stage st = Joining \<Longrightarrow> pu_monitor st = Gone \<Longrightarrow>
     conn_step quote s ops sid st (st\<lparr>pu_stage := Unsubscribing\<rparr>)"
| unsubscribe: "pu_stage st = Unsubscribing \<Longrightarrow> Subscription_Close sid (w_part (pu_world st)) = (r, p) \<Longrightarrow>
     conn_step quote s ops sid st (st\<lparr>pu_world := (pu_world st)\<lparr>w_part := p\<rparr>, pu_stage := Releasing\<rparr>)"
| release: "pu_stage st = Releasing \<Longrightarrow>
     conn_step quote s ops sid st (st\<lparr>pu_cancelled := True, pu_stage := Returned\<rparr>)"
| watch: "pu_monitor st = Watching \<Longrightarrow> pu_peer st \<or> \<not> h_open (pu_conn st) \<Longrightarrow>
     conn_step quote s ops sid st (st\<lparr>pu_monitor := Signalling\<rparr>)"
| signal: "pu_monitor st = Signalling \<Longrightarrow>
     conn_step quote s ops sid st (st\<lparr>pu_cancelled := True, pu_monitor := Leaving\<rparr>)"
| leave: "pu_monitor st = Leaving \<Longrightarrow> conn_step quote s ops sid st (st\<lparr>pu_monitor := Gone\<rparr>)"

text \<open>
  The steps of everyone else: the peer speaks up, the network fails, the server's \<open>Close\<close> cancels the
  context and closes the connection, and the others at the partition, the other readers included.
\<close>

inductive env_step :: "'s store_ops \<Rightarrow> nat \<Rightarrow> 's push \<Rightarrow> 's push \<Rightarrow> bool"
  for ops :: "'s store_ops" and sid :: nat where
  peer: "env_step ops sid st (st\<lparr>pu_peer := True\<rparr>)"
| fault: "c = (pu_conn st)\<lparr>h_bw := (h_bw (pu_conn st))\<lparr>bw_conn := (bw_conn (h_bw (pu_conn st)))\<lparr>co_fault := Some (k, IOError n)\<rparr>\<rparr>\<rparr> \<Longrightarrow>
     env_step ops sid st (st\<lparr>pu_conn := c\<rparr>)"
| cancel: "env_step ops sid st (st\<lparr>pu_cancelled := True\<rparr>)"
| shut_down: "env_step ops sid st (st\<lparr>pu_conn := shut (pu_conn st)\<rparr>)"
| others: "other_step ops (pu_world st) w \<Longrightarrow> env_step ops sid st (st\<lparr>pu_world := w\<rparr>)"
| other_reader: "i \<noteq> sid \<Longrightarrow> read_step ops i (pu_world st) w \<Longrightarrow> env_step ops sid st (st\<lparr>pu_world := w\<rparr>)"

inductive_cases conn_stepE: "conn_step quote s ops sid st st'"
inductive_cases env_stepE: "env_step ops sid st st'"

text \<open>
  The phase begins with a new subscription and the monitor started; when the response could not be
  written, the handler is at its deferred calls already.
\<close>

definition push_start :: "'s store_ops \<Rightarrow> 's \<Rightarrow> nat \<Rightarrow> 's push \<Rightarrow> bool" where
  "push_start ops st0 sid st \<longleftrightarrow>
     reachable ops st0 (pu_world st) \<and> sid < length (p_heap (w_part (pu_world st))) \<and>
     w_pc (pu_world st) sid = Idle \<and> w_got (pu_world st) sid = [] \<and>
     pu_stage st \<in> {Reading, ClosingConn} \<and> pu_monitor st = Watching \<and>
     pool_ok (pu_pool st) \<and> net_faults (bw_conn (h_bw (pu_conn st)))"

inductive push_reachable ::
    "(gostring \<Rightarrow> gostring) \<Rightarrow> server \<Rightarrow> 's store_ops \<Rightarrow> nat \<Rightarrow> 's push \<Rightarrow> 's push \<Rightarrow> bool"
  for quote :: "gostring \<Rightarrow> gostring" and s :: server and ops :: "'s store_ops" and sid :: nat and st0 :: "'s push" where
  start: "push_reachable quote s ops sid st0 st0"
| conn: "push_reachable quote s ops sid st0 st \<Longrightarrow> conn_step quote s ops sid st st' \<Longrightarrow>
     push_reachable quote s ops sid st0 st'"
| env: "push_reachable quote s ops sid st0 st \<Longrightarrow> env_step ops sid st st' \<Longrightarrow>
     push_reachable quote s ops sid st0 st'"

lemma shut_simps [simp]: "\<not> h_open (shut c)" "on_wire (shut c) = on_wire c" "net_faults (bw_conn (h_bw (shut c)))"
  by (simp_all add: shut_def on_wire_def net_faults_def)

lemma push_batch_open: "push_batch quote s ms (c, pool) = (v, (c', pool')) \<Longrightarrow> h_open c' = h_open c"
  by (auto simp: push_batch_def respond_def Let_def gbind_def gzoom_def split: if_splits prod.splits outcome.splits)

text \<open>A sound connection takes the whole batch.\<close>

lemma write_buffers_sound:
  "co_fault w = None \<Longrightarrow> write_buffers conn_write bs w = (Ok (), w\<lparr>co_sent := co_sent w @ concat bs\<rparr>)"
  by (induction bs arbitrary: w) (simp_all add: gbind_def conn_write_sound)

lemma push_batch_sound:
  assumes "armWrite s c" and "pool_ok pool" and fault: "co_fault (bw_conn (h_bw c)) = None"
    and "\<forall>m\<in>set ms. len (Payload m) \<le> MaxMessage"
  shows "\<exists>pool'. pool_ok pool' \<and> push_batch quote s ms (c, pool) =
    (Ok Continue, (c\<lparr>h_bw := (h_bw c)\<lparr>bw_conn := (bw_conn (h_bw c))\<lparr>co_sent := on_wire c @ messages_bytes ms\<rparr>\<rparr>\<rparr>, pool'))"
proof -
  note w = write_buffers_sound [OF fault, of "message_bufs (map Offset ms) (map Payload ms)", unfolded concat_bufs_messages]
  have "\<not> (\<exists>p\<in>set (map Payload ms). len p > MaxMessage)" using assms(4) by auto
  then obtain pool' where "pool_ok pool'" "WriteMessageBatch conn_write (map Offset ms) (map Payload ms) (bw_conn (h_bw c), pool) =
      (Ok (), ((bw_conn (h_bw c))\<lparr>co_sent := on_wire c @ messages_bytes ms\<rparr>, pool'))"
    using WriteMessageBatch_eq [of "map Offset ms" "map Payload ms" pool conn_write "bw_conn (h_bw c)"] assms(2) w
    by (auto simp: on_wire_def)
  then show ?thesis using assms(1) by (simp add: push_batch_def Let_def)
qed

section \<open>The phase seen from the partition\<close>

text \<open>Every step is a step of the readers or of the others at the partition, or none.\<close>

lemma conn_step_world:
  assumes "conn_step quote s ops sid st st'"
  shows "pu_world st' = pu_world st \<or> read_step ops sid (pu_world st) (pu_world st') \<or>
    other_step ops (pu_world st) (pu_world st')"
  using assms
  by cases (auto intro: read_step.intros other_step.close_sub)

lemma env_step_world:
  assumes "env_step ops sid st st'"
  shows "pu_world st' = pu_world st \<or> (\<exists>i. read_step ops i (pu_world st) (pu_world st')) \<or>
    other_step ops (pu_world st) (pu_world st')"
  using assms by cases auto

lemma push_reachable_world:
  assumes "push_reachable quote s ops sid p0 p" and "reachable ops st (pu_world p0)"
  shows "reachable ops st (pu_world p)"
  using assms
proof induction
  case (conn p p')
  then show ?case using conn_step_world by (metis reachable.reader reachable.other)
next
  case (env p p')
  then show ?case using env_step_world by (metis reachable.reader reachable.other)
qed

text \<open>What the others leave alone.\<close>

lemma read_step_frame:
  assumes "read_step ops i w w'" and "i \<noteq> sid" and "sid < length (p_heap (w_part w))"
  shows "w_pc w' sid = w_pc w sid \<and> w_got w' sid = w_got w sid \<and> sid < length (p_heap (w_part w')) \<and>
    s_done (p_heap (w_part w') ! sid) = s_done (p_heap (w_part w) ! sid)"
  using assms
  by cases (auto simp: take_ready_def p_heap_update_sub dest: Read_locked_keeps)

lemma other_step_frame: "other_step ops w w' \<Longrightarrow> w_pc w' = w_pc w \<and> w_got w' = w_got w"
  by (erule other_stepE) auto

context log_store
begin

lemma env_step_frame:
  assumes "env_step ops sid p p'" and ok: "world_ok inv log (pu_world p)"
    and sid: "sid < length (p_heap (w_part (pu_world p)))"
  shows "pu_stage p' = pu_stage p \<and> pu_monitor p' = pu_monitor p \<and> pu_pool p' = pu_pool p \<and>
    on_wire (pu_conn p') = on_wire (pu_conn p) \<and>
    w_pc (pu_world p') sid = w_pc (pu_world p) sid \<and> w_got (pu_world p') sid = w_got (pu_world p) sid \<and>
    sid < length (p_heap (w_part (pu_world p')))"
    and "pu_cancelled p \<Longrightarrow> pu_cancelled p'" and "pu_peer p \<Longrightarrow> pu_peer p'" and "\<not> h_open (pu_conn p) \<Longrightarrow> \<not> h_open (pu_conn p')"
    and "net_faults (bw_conn (h_bw (pu_conn p))) \<Longrightarrow> net_faults (bw_conn (h_bw (pu_conn p')))"
    and "s_done (p_heap (w_part (pu_world p)) ! sid) \<Longrightarrow> s_done (p_heap (w_part (pu_world p')) ! sid)"
proof -
  have "(sid < length (p_heap (w_part w)) \<and> w_pc w sid = w_pc (pu_world p) sid \<and> w_got w sid = w_got (pu_world p) sid) \<and>
      (s_done (p_heap (w_part (pu_world p)) ! sid) \<longrightarrow> s_done (p_heap (w_part w) ! sid))"
    if "other_step ops (pu_world p) w" for w
    using other_step_ok [OF that ok] growsD(3,7) [of log "w_part (pu_world p)" "w_part w"] sid other_step_frame [OF that]
    by auto
  then show "pu_stage p' = pu_stage p \<and> pu_monitor p' = pu_monitor p \<and> pu_pool p' = pu_pool p \<and>
      on_wire (pu_conn p') = on_wire (pu_conn p) \<and>
      w_pc (pu_world p') sid = w_pc (pu_world p) sid \<and> w_got (pu_world p') sid = w_got (pu_world p) sid \<and>
      sid < length (p_heap (w_part (pu_world p')))"
    and "s_done (p_heap (w_part (pu_world p)) ! sid) \<Longrightarrow> s_done (p_heap (w_part (pu_world p')) ! sid)"
    using assms(1) sid read_step_frame [OF _ _ sid] by (auto elim!: env_stepE simp: on_wire_def shut_def)
qed (use assms(1) in \<open>auto elim!: env_stepE simp: net_faults_def shut_def\<close>)

end

section \<open>How far the phase has come\<close>

text \<open>
  What each stage has behind it: the connection is closed before the monitor is joined, the monitor has
  left before the subscription is closed, and whoever waits for the context finds it cancelled.
\<close>

definition phase_ok :: "nat \<Rightarrow> 's push \<Rightarrow> bool" where
  "phase_ok sid p \<longleftrightarrow>
     sid < length (p_heap (w_part (pu_world p))) \<and>
     (pu_stage p \<noteq> Reading \<longrightarrow> w_pc (pu_world p) sid = Idle) \<and>
     (Leaving \<le> pu_monitor p \<longrightarrow> pu_cancelled p) \<and>
     (pu_stage p \<in> {Joining, Unsubscribing, Releasing, Returned} \<longrightarrow> \<not> h_open (pu_conn p)) \<and>
     (pu_stage p \<in> {Unsubscribing, Releasing, Returned} \<longrightarrow> pu_monitor p = Gone) \<and>
     (pu_stage p \<in> {Releasing, Returned} \<longrightarrow> s_done (p_heap (w_part (pu_world p)) ! sid)) \<and>
     (pu_stage p = Returned \<longrightarrow> pu_cancelled p)"

text \<open>What is on the wire: the messages the reads returned, the last batch perhaps in part.\<close>

definition wire_ok :: "bytes \<Rightarrow> nat \<Rightarrow> 's push \<Rightarrow> bool" where
  "wire_ok before sid p \<longleftrightarrow>
     pool_ok (pu_pool p) \<and> net_faults (bw_conn (h_bw (pu_conn p))) \<and>
     (case pu_stage p of
        Reading \<Rightarrow> on_wire (pu_conn p) = before @ messages_bytes (w_got (pu_world p) sid)
      | Writing ms \<Rightarrow> (\<exists>ns. w_got (pu_world p) sid = ns @ ms \<and> on_wire (pu_conn p) = before @ messages_bytes ns)
      | _ \<Rightarrow> (\<exists>k. on_wire (pu_conn p) = before @ take k (messages_bytes (w_got (pu_world p) sid))))"

lemma Subscription_Close_done:
  assumes "partition_ok sinv slog p" and "Subscription_Close sid p = (r, p')" and "sid < length (p_heap p)"
  shows "s_done (p_heap p' ! sid) \<and> length (p_heap p') = length (p_heap p)"
  using assms(2,3) partition_okD(4) [OF assms(1,3)] unfolding Subscription_Close_eq [OF assms(1)]
  by (auto simp: p_heap_update_sub split: if_splits)

lemma take_messages_bytes: "\<exists>j. messages_bytes (take n ms) = take j (messages_bytes ms)"
proof -
  have "messages_bytes (take n ms @ drop n ms) = messages_bytes (take n ms) @ messages_bytes (drop n ms)"
    by (rule messages_bytes_simps(3))
  then have "messages_bytes (take n ms) = take (length (messages_bytes (take n ms))) (messages_bytes ms)" by simp
  then show ?thesis by (rule exI)
qed

lemma wire_ok_take:
  assumes "wire_ok before sid p"
  obtains k where "on_wire (pu_conn p) = before @ take k (messages_bytes (w_got (pu_world p) sid))"
proof (cases "pu_stage p")
  case Reading
  with assms that [of "length (messages_bytes (w_got (pu_world p) sid))"] show thesis by (simp add: wire_ok_def)
next
  case (Writing ms)
  with assms obtain ns where "w_got (pu_world p) sid = ns @ ms" "on_wire (pu_conn p) = before @ messages_bytes ns"
    by (auto simp: wire_ok_def)
  with that [of "length (messages_bytes ns)"] show thesis by simp
qed (use assms that in \<open>auto simp: wire_ok_def\<close>)

context log_store
begin

lemma conn_step_phase:
  assumes "conn_step quote s ops sid p p'" and ok: "world_ok inv log (pu_world p)" and ph: "phase_ok sid p"
  shows "phase_ok sid p'"
proof -
  have sid: "sid < length (p_heap (w_part (pu_world p)))" using ph by (simp add: phase_ok_def)
  note part = world_okD(1) [OF ok]
  show ?thesis
    using assms(1)
  proof cases
    case (deliver mx ms q)
    with ph Read_locked_keeps(2) [OF deliver(4)] show ?thesis by (simp add: phase_ok_def)
  next
    case (refuse mx e q)
    with ph Read_locked_keeps(2) [OF refuse(4)] show ?thesis by (simp add: phase_ok_def)
  next
    case (park mx q)
    with ph Read_locked_keeps(2) [OF park(4)] show ?thesis by (simp add: phase_ok_def)
  next
    case (push ms v c pool)
    with ph push_batch_open [OF push(3)] show ?thesis by (simp add: phase_ok_def)
  next
    case (unsubscribe r q)
    with ph Subscription_Close_done [OF part unsubscribe(3) sid] show ?thesis by (simp add: phase_ok_def)
  qed (use ph in \<open>auto simp: phase_ok_def take_ready_def\<close>)
qed

lemma env_step_phase:
  assumes "env_step ops sid p p'" and ok: "world_ok inv log (pu_world p)" and ph: "phase_ok sid p"
  shows "phase_ok sid p'"
proof -
  have sid: "sid < length (p_heap (w_part (pu_world p)))" using ph by (simp add: phase_ok_def)
  from env_step_frame [OF assms(1) ok sid] ph show ?thesis by (auto simp: phase_ok_def)
qed

lemma conn_step_wire:
  assumes "conn_step quote s ops sid p p'" and w: "wire_ok before sid p"
    and small: "\<forall>m\<in>set (w_got (pu_world p') sid). len (Payload m) \<le> MaxMessage"
  shows "wire_ok before sid p'"
  using assms(1)
proof cases
  case (push ms v c pool)
  obtain ns where ns: "w_got (pu_world p) sid = ns @ ms" "on_wire (pu_conn p) = before @ messages_bytes ns"
    using w push(2) by (auto simp: wire_ok_def)
  have "\<forall>m\<in>set ms. len (Payload m) \<le> MaxMessage" using small ns(1) push(1) by auto
  then have "pushes (pu_conn p) (messages_bytes ms) (v, (c, pool))"
    using w pushes_push_batch [of "pu_pool p" "pu_conn p" ms quote s] push(3) by (simp add: wire_ok_def)
  then have "pool_ok pool" "net_faults (bw_conn (h_bw c))"
    "if v = Ok Continue then on_wire c = on_wire (pu_conn p) @ messages_bytes ms
     else \<exists>k. on_wire c = on_wire (pu_conn p) @ take k (messages_bytes ms)"
    by (auto simp: pushes_def split: if_splits)
  moreover have "\<exists>j. before @ messages_bytes ns @ take k (messages_bytes ms) = before @ take j (messages_bytes (ns @ ms))" for k
    by (rule exI [of _ "length (messages_bytes ns) + k"]) simp
  ultimately show ?thesis
    using push(1) ns by (cases "v = Ok Continue") (auto simp: wire_ok_def simp del: take_append)
next
  case (refuse mx e q)
  with w show ?thesis by (auto simp: wire_ok_def intro: exI [of _ "length (messages_bytes (w_got (pu_world p) sid))"])
next
  case (wake_done mx)
  with w show ?thesis by (auto simp: wire_ok_def intro: exI [of _ "length (messages_bytes (w_got (pu_world p) sid))"])
next
  case (wake_ctx mx)
  with w show ?thesis by (auto simp: wire_ok_def intro: exI [of _ "length (messages_bytes (w_got (pu_world p) sid))"])
qed (use w in \<open>auto simp: wire_ok_def split: stage.splits\<close>)

end

lemma conn_step_keeps:
  assumes "conn_step quote s ops sid p p'"
  shows "set (w_got (pu_world p) sid) \<subseteq> set (w_got (pu_world p') sid)"
    and "pu_peer p \<Longrightarrow> pu_peer p'" and "pu_cancelled p \<Longrightarrow> pu_cancelled p'"
    and "\<not> h_open (pu_conn p) \<Longrightarrow> \<not> h_open (pu_conn p')" and "pu_monitor p \<le> pu_monitor p'"
  using assms by (auto elim!: conn_stepE dest: push_batch_open)

context log_store
begin

lemma conn_step_done:
  assumes "conn_step quote s ops sid p p'" and ok: "world_ok inv log (pu_world p)"
    and sid: "sid < length (p_heap (w_part (pu_world p)))" and "s_done (p_heap (w_part (pu_world p)) ! sid)"
  shows "s_done (p_heap (w_part (pu_world p')) ! sid)"
  using assms(1)
proof cases
  case (unsubscribe r q)
  with Subscription_Close_done [OF world_okD(1) [OF ok] unsubscribe(3) sid] show ?thesis by simp
qed (use assms(4) sid in \<open>auto simp: take_ready_def p_heap_update_sub dest: Read_locked_keeps\<close>)

lemma push_reachable_ok:
  assumes "push_reachable quote s ops sid p0 p" and start: "push_start ops st sid p0" and st: "inv st"
  shows "phase_ok sid p" and "world_ok inv log (pu_world p)"
    and "\<forall>m\<in>set (w_got (pu_world p) sid). len (Payload m) \<le> MaxMessage \<Longrightarrow> wire_ok (on_wire (pu_conn p0)) sid p"
proof -
  have w: "world_ok inv log (pu_world q)" if "push_reachable quote s ops sid p0 q" for q
    using reachable_world_ok [OF push_reachable_world [OF that]] start st by (auto simp: push_start_def)
  show "world_ok inv log (pu_world p)" by (rule w [OF assms(1)])
  have phase: "phase_ok sid q" if "push_reachable quote s ops sid p0 q" for q
    using that
  proof induction
    case start
    show ?case using assms(2) by (auto simp: push_start_def phase_ok_def)
  qed (use w conn_step_phase env_step_phase in blast)+
  show "phase_ok sid p" by (rule phase [OF assms(1)])
  show "wire_ok (on_wire (pu_conn p0)) sid p" if "\<forall>m\<in>set (w_got (pu_world p) sid). len (Payload m) \<le> MaxMessage"
    using assms(1) that
  proof induction
    case start
    show ?case using assms(2) by (auto simp: push_start_def wire_ok_def)
  next
    case (conn q q')
    then show ?case using conn_step_wire [OF conn(2) conn.IH] conn_step_keeps(1) [OF conn(2)] by blast
  next
    case (env q q')
    have "sid < length (p_heap (w_part (pu_world q)))" using phase [OF env(1)] by (simp add: phase_ok_def)
    note f = env_step_frame [OF env(2) w [OF env(1)] this]
    then have "wire_ok (on_wire (pu_conn p0)) sid q" using env.IH env.prems by simp
    with f(1,5) show ?case by (simp add: wire_ok_def split: stage.splits)
  qed
qed

end

section \<open>The phase ends\<close>

text \<open>
  What makes the phase end: the peer has closed the connection or sent something, the context is
  cancelled, the connection or the subscription is closed.
\<close>

definition stopping :: "nat \<Rightarrow> 's push \<Rightarrow> bool" where
  "stopping sid p \<longleftrightarrow> pu_peer p \<or> pu_cancelled p \<or> \<not> h_open (pu_conn p) \<or> s_done (p_heap (w_part (pu_world p)) ! sid)"

text \<open>A bound on the steps the connection can still make by itself.\<close>

primrec reader_rank :: "reader \<Rightarrow> nat" where
  "reader_rank Idle = 5"
| "reader_rank (Checking mx) = 4"
| "reader_rank (Waiting mx) = 1"

definition backlog :: "('s \<Rightarrow> bytes list) \<Rightarrow> nat \<Rightarrow> 's world \<Rightarrow> nat" where
  "backlog slog sid w =
     8 * (length (slog (p_store (w_part w))) - length (w_got w sid)) +
     (if s_ready (p_heap (w_part w) ! sid) then 4 else 0)"

definition push_measure :: "('s \<Rightarrow> bytes list) \<Rightarrow> nat \<Rightarrow> 's push \<Rightarrow> nat" where
  "push_measure slog sid p = monitor_rank (pu_monitor p) +
     (case pu_stage p of
        Reading \<Rightarrow> 5 + backlog slog sid (pu_world p) + reader_rank (w_pc (pu_world p) sid)
      | Writing ms \<Rightarrow> 5 + backlog slog sid (pu_world p) + 6
      | ClosingConn \<Rightarrow> 4 | Joining \<Rightarrow> 3 | Unsubscribing \<Rightarrow> 2 | Releasing \<Rightarrow> 1 | Returned \<Rightarrow> 0)"

lemma stuck_monitor:
  assumes "\<nexists>p'. conn_step quote s ops sid p p'"
  shows "pu_monitor p = Gone \<or> pu_monitor p = Watching \<and> \<not> pu_peer p \<and> h_open (pu_conn p)"
  using assms by (cases "pu_monitor p") (auto intro: conn_step.intros)

lemma Read_locked_Some:
  assumes "Read_locked ops sid mx p = (Ok (Some ms), p')"
  shows "ms \<noteq> [] \<and> p_store p' = p_store p \<and> (s_ready (p_heap p' ! i) \<longleftrightarrow> s_ready (p_heap p ! i))"
  using assms
  by (cases "sid < length (p_heap p)")
    (auto simp: Read_locked_def sub_at_def update_sub_def nth_list_update split: outcome.splits if_splits)

context log_store
begin

lemma conn_step_decreases:
  assumes "conn_step quote s ops sid p p'" and ok: "world_ok inv log (pu_world p)" and ph: "phase_ok sid p"
  shows "push_measure log sid p' < push_measure log sid p"
proof -
  have sid: "sid < length (p_heap (w_part (pu_world p)))" using ph by (simp add: phase_ok_def)
  note part = world_okD(1) [OF ok]
  show ?thesis
    using assms(1)
  proof cases
    case (deliver mx ms q)
    have ok': "world_ok inv log (add_got sid ms ((pu_world p)\<lparr>w_part := q\<rparr>))"
      by (rule read_deliver_ok [OF ok deliver(3,4)])
    have "sid < length (p_heap q)" using sid Read_locked_keeps(2) [OF deliver(4)] by simp
    with world_okD(2) [OF ok', of sid]
    have "length (w_got (pu_world p) sid @ ms) \<le> length (log (p_store q))" by simp
    then have le: "length (w_got (pu_world p) sid) + length ms \<le> length (log (p_store q))"
      by (simp only: length_append)
    have new: "0 < length ms" "p_store q = p_store (w_part (pu_world p))"
      "s_ready (p_heap q ! sid) = s_ready (p_heap (w_part (pu_world p)) ! sid)"
      using Read_locked_Some [OF deliver(4)] by auto
    have "8 * (length (log (p_store q)) - (length (w_got (pu_world p) sid) + length ms)) + 8 \<le>
        8 * (length (log (p_store q)) - length (w_got (pu_world p) sid))" using le new(1) by arith
    then show ?thesis using deliver(1-3) new(2,3) by (simp add: push_measure_def backlog_def)
  next
    case (park mx q)
    have "0 < sint mx" using world_okD(5) [OF ok park(3)] .
    then have "q = w_part (pu_world p)" using Read_locked_same [OF part sid _ park(4)] by simp
    with park show ?thesis by (simp add: push_measure_def backlog_def)
  next
    case (push ms v c pool)
    have "reader_rank (w_pc (pu_world p) sid) \<le> 5" by (cases "w_pc (pu_world p) sid") simp_all
    with push show ?thesis by (simp add: push_measure_def backlog_def)
  next
    case watch
    then show ?thesis by (cases "pu_stage p") (simp_all add: push_measure_def)
  next
    case signal
    then show ?thesis by (cases "pu_stage p") (simp_all add: push_measure_def)
  next
    case leave
    then show ?thesis by (cases "pu_stage p") (simp_all add: push_measure_def)
  qed (use sid in \<open>auto simp: push_measure_def backlog_def take_ready_def p_heap_update_sub\<close>)
qed

lemma stuck_stage:
  assumes ok: "world_ok inv log (pu_world p)" and ph: "phase_ok sid p"
    and stuck: "\<nexists>p'. conn_step quote s ops sid p p'" and run: "pu_stage p \<noteq> Returned"
  shows "pu_stage p = Reading \<and> (\<exists>mx. w_pc (pu_world p) sid = Waiting mx)"
proof -
  have sid: "sid < length (p_heap (w_part (pu_world p)))" using ph by (simp add: phase_ok_def)
  note part = world_okD(1) [OF ok]
  note mon = stuck_monitor [OF stuck]
  show ?thesis
  proof (cases "pu_stage p")
    case Reading
    show ?thesis
    proof (cases "w_pc (pu_world p) sid")
      case Idle
      with Reading sid stuck show ?thesis by (auto intro: conn_step.call)
    next
      case (Checking mx)
      have "0 < sint mx" using world_okD(5) [OF ok Checking] .
      with part sid have "\<exists>p'. conn_step quote s ops sid p p'"
        by (cases rule: Read_locked_cases)
          (use Reading Checking in \<open>auto intro: conn_step.deliver conn_step.refuse conn_step.park\<close>)
      with stuck show ?thesis by simp
    qed (use Reading in simp)
  next
    case (Writing ms)
    obtain v c pool where "push_batch quote s ms (pu_conn p, pu_pool p) = (v, (c, pool))" by (metis prod.collapse)
    with Writing stuck show ?thesis by (blast intro: conn_step.push)
  next
    case Joining
    with stuck ph mon show ?thesis by (auto simp: phase_ok_def intro: conn_step.join)
  next
    case Unsubscribing
    with stuck show ?thesis by (metis conn_step.unsubscribe prod.exhaust)
  qed (use stuck run in \<open>auto intro: conn_step.close_conn conn_step.release\<close>)
qed

lemma conn_step_progress:
  assumes ok: "world_ok inv log (pu_world p)" and ph: "phase_ok sid p" and stop: "stopping sid p"
    and run: "pu_stage p \<noteq> Returned"
  shows "\<exists>p'. conn_step quote s ops sid p p'"
proof (rule ccontr)
  assume stuck: "\<nexists>p'. conn_step quote s ops sid p p'"
  obtain mx where mx: "pu_stage p = Reading" "w_pc (pu_world p) sid = Waiting mx"
    using stuck_stage [OF ok ph stuck run] by blast
  then have "\<not> pu_cancelled p" "\<not> s_done (p_heap (w_part (pu_world p)) ! sid)"
    using stuck by (auto intro: conn_step.wake_ctx conn_step.wake_done)
  then show False
    using stop ph stuck_monitor [OF stuck] by (auto simp: stopping_def phase_ok_def)
qed

lemma conn_step_stopping:
  assumes "conn_step quote s ops sid p p'" and "world_ok inv log (pu_world p)" and "phase_ok sid p" and "stopping sid p"
  shows "stopping sid p'"
proof -
  have "sid < length (p_heap (w_part (pu_world p)))" using assms(3) by (simp add: phase_ok_def)
  note keep = conn_step_keeps(2-4) [OF assms(1)] conn_step_done [OF assms(1,2) this]
  show ?thesis using assms(4) keep unfolding stopping_def by blast
qed

text \<open>Own steps keep the phase reachable and the cause to stop, and there are boundedly many of them.\<close>

lemma conn_steps_bounded:
  assumes "push_reachable quote s ops sid p0 p" and "push_start ops st sid p0" and "inv st"
    and "(conn_step quote s ops sid ^^ n) p p'"
  shows "push_reachable quote s ops sid p0 p' \<and> n + push_measure log sid p' \<le> push_measure log sid p \<and>
    (stopping sid p \<longrightarrow> stopping sid p')"
  using assms(4)
proof (induction n arbitrary: p')
  case 0
  then show ?case using assms(1) by simp
next
  case (Suc n)
  then obtain q where q: "(conn_step quote s ops sid ^^ n) p q" "conn_step quote s ops sid q p'" by auto
  note IH = Suc.IH [OF q(1)]
  then have "phase_ok sid q" "world_ok inv log (pu_world q)"
    using push_reachable_ok [OF _ assms(2,3)] by blast+
  with IH q(2) conn_step_decreases [OF q(2)] conn_step_stopping [OF q(2)] show ?case
    by (auto intro: push_reachable.conn)
qed

lemma push_small:
  assumes "world_ok inv log (pu_world p)" and "phase_ok sid p"
    and "list_all (\<lambda>b. len b \<le> MaxMessage) (log (p_store (w_part (pu_world p))))"
  shows "\<forall>m\<in>set (w_got (pu_world p) sid). len (Payload m) \<le> MaxMessage"
proof -
  have "sid < length (p_heap (w_part (pu_world p)))" using assms(2) by (simp add: phase_ok_def)
  note got = world_okD(2) [OF assms(1) this]
  show ?thesis using assms(3) unfolding got by (auto simp: messages_def list_all_iff dest!: in_set_takeD)
qed

end

context reliable_store
begin

text \<open>
  A connection that cannot go on by itself has returned, or it waits in \<open>sub.Read\<close> for what only the
  others can bring, with the whole log on the wire.
\<close>

lemma stuck_has_sent_all:
  assumes r: "push_reachable quote s ops sid p0 p" and start: "push_start ops st sid p0" and st: "inv st"
    and small: "list_all (\<lambda>b. len b \<le> MaxMessage) (log (p_store (w_part (pu_world p))))"
    and stuck: "\<nexists>p'. conn_step quote s ops sid p p'" and run: "pu_stage p \<noteq> Returned"
  shows "\<not> stopping sid p \<and> pu_stage p = Reading \<and>
    on_wire (pu_conn p) = on_wire (pu_conn p0) @ messages_bytes (messages (log (p_store (w_part (pu_world p)))))"
proof -
  let ?w = "pu_world p"
  note ok = push_reachable_ok(2) [OF r start st] and ph = push_reachable_ok(1) [OF r start st]
  have sid: "sid < length (p_heap (w_part ?w))" using ph by (simp add: phase_ok_def)
  have go: "\<not> stopping sid p" using conn_step_progress [OF ok ph _ run] stuck by blast
  have "pu_stage p = Reading \<and> (\<exists>mx. w_pc ?w sid = Waiting mx)"
    using stuck_stage [OF ok ph stuck run] .
  then obtain mx where mx: "pu_stage p = Reading" "w_pc ?w sid = Waiting mx" by blast
  have "reachable ops st ?w"
    using push_reachable_world [OF r] start by (simp add: push_start_def)
  note wake = reachable_wake_ok [OF this st]
  have "\<not> s_ready (p_heap (w_part ?w) ! sid)" using stuck mx conn_step.wake_ready by blast
  moreover have "\<not> s_done (p_heap (w_part ?w) ! sid)" using go by (simp add: stopping_def)
  ultimately have "unat (s_offset (p_heap (w_part ?w) ! sid)) = length (log (p_store (w_part ?w)))"
    using wake mx by (auto simp: wake_ok_def Let_def)
  then have "w_got ?w sid = messages (log (p_store (w_part ?w)))"
    using world_okD(2) [OF ok sid] by simp
  moreover have "wire_ok (on_wire (pu_conn p0)) sid p"
    by (rule push_reachable_ok(3) [OF r start st push_small [OF ok ph small]])
  ultimately show ?thesis using go mx by (simp add: wire_ok_def)
qed

end

end
