(* ===== verification/Props_Push.thy ===== *)
theory Props_Push
  imports Net_Push Props_Broker Props_Network
begin

text \<open>
  The properties of the push phase with everything that runs beside it: what may be on the wire at any
  moment, what the end of the handler leaves behind, and that the phase comes to rest only when it has
  sent everything or has returned.
\<close>

section \<open>A run, for the witnesses\<close>

text \<open>
  A subscriber of an in-memory partition: a message is published, read and pushed, and the stream waits;
  then the peer closes the connection, and the monitor makes the handler return.
\<close>

definition pushed :: message where "pushed = \<lparr>Offset = 0, Payload = [7, 8]\<rparr>"

definition run_part :: "bool \<Rightarrow> bool \<Rightarrow> memoryLog partition" where
  "run_part got token = \<lparr>p_store = \<lparr>msgs = [pushed]\<rparr>, p_subs = [0], p_closed = False,
     p_heap = [\<lparr>s_offset = (if got then 1 else 0), s_ready = token, s_done = False\<rparr>]\<rparr>"

definition run_world :: "bool \<Rightarrow> bool \<Rightarrow> reader \<Rightarrow> memoryLog world" where
  "run_world got token pc = \<lparr>w_part = run_part got token, w_pc = (\<lambda>_. Idle)(0 := pc),
     w_got = (\<lambda>_. [])(0 := (if got then [pushed] else []))\<rparr>"

definition run_conn :: "bool \<Rightarrow> hconn" where
  "run_conn sent = (if sent then test_conn\<lparr>h_bw := (h_bw test_conn)\<lparr>bw_conn :=
     (bw_conn (h_bw test_conn))\<lparr>co_sent := messages_bytes [pushed]\<rparr>\<rparr>\<rparr> else test_conn)"

text \<open>The handler with the subscription open; \<open>run_phase\<close> before the message is read.\<close>

definition run_phase :: "memoryLog push" where
  "run_phase = \<lparr>pu_world = run_world False True Idle, pu_stage = Reading, pu_monitor = Watching,
     pu_cancelled = False, pu_peer = False, pu_conn = run_conn False, pu_pool = []\<rparr>"

definition run_pool :: header_pool where
  "run_pool = snd (snd (push_batch (\<lambda>name. name) (NewServer []) [pushed] (test_conn, [])))"

definition run_settled :: "memoryLog push" where
  "run_settled = run_phase\<lparr>pu_world := run_world True False (Waiting 64), pu_conn := run_conn True,
     pu_pool := run_pool\<rparr>"

definition run_returned :: "memoryLog push" where
  "run_returned = run_settled\<lparr>pu_world := (run_world True False Idle)\<lparr>w_part :=
       (run_part True False)\<lparr>p_subs := [], p_heap := [\<lparr>s_offset = 1, s_ready = False, s_done = True\<rparr>]\<rparr>\<rparr>,
     pu_stage := Returned, pu_monitor := Gone, pu_cancelled := True, pu_peer := True, pu_conn := shut (run_conn True)\<rparr>"

lemma stream_batch_max [simp]: "read_max stream_batch = 64"
  by (simp add: read_max_def stream_batch_def word_sle_eq)

lemma run_push: "push_batch (\<lambda>name. name) (NewServer []) [pushed] (test_conn, []) = (Ok Continue, (run_conn True, run_pool))"
proof -
  have "armWrite (NewServer []) test_conn" by (simp add: armWrite_def test_conn_def)
  from push_batch_sound [OF this, of "[]" "[pushed]" "\<lambda>name. name"]
  show ?thesis
    by (auto simp: run_pool_def run_conn_def test_conn_def new_bufw_def new_conn_out_def on_wire_def pushed_def
        MaxMessage_def MaxPayload_def)
qed

lemma run_reads_64:
  "Read_locked memoryLog_ops 0 64 (run_part False t) = (Ok (Some [pushed]), run_part True t)"
  "Read_locked memoryLog_ops 0 64 (run_part True t) = (Ok None, run_part True t)"
  by (simp_all add: Read_locked_def sub_at_def run_part_def memoryLog_ops_def memoryLog_Read_eq memoryLog_inv_def
      memoryLog_log_def window_def messages_def int64_def fits_int64_def pushed_def update_sub_def)

lemma run_world_simps [simp]:
  "w_part (run_world g t pc) = run_part g t" "w_pc (run_world g t pc) 0 = pc"
  "set_pc 0 pc' (run_world g t pc) = run_world g t pc'"
  "w_got (run_world g t pc) 0 = (if g then [pushed] else [])"
  "length (p_heap (run_part g t)) = 1" "s_ready (p_heap (run_part g t) ! 0) = t" "\<not> s_done (p_heap (run_part g t) ! 0)"
  "take_ready 0 (run_part g t) = run_part g False"
  "(run_world g t pc)\<lparr>w_part := run_part g t'\<rparr> = run_world g t' pc"
  "add_got 0 [pushed] ((run_world False t pc)\<lparr>w_part := run_part True t\<rparr>) = run_world True t pc"
  by (simp_all add: run_world_def run_part_def set_pc_def take_ready_def update_sub_def add_got_def)

text \<open>The steps of the connection up to its rest, and from there, once the peer has gone, to its end.\<close>

abbreviation run_step :: "memoryLog push \<Rightarrow> memoryLog push \<Rightarrow> bool" where
  "run_step \<equiv> conn_step (\<lambda>name. name) (NewServer []) memoryLog_ops 0"

lemma run_settles: "(run_step ^^ 7) run_phase run_settled"
proof -
  let ?at = "\<lambda>g t pc. run_phase\<lparr>pu_world := run_world g t pc\<rparr>"
  let ?after = "\<lambda>t pc. run_settled\<lparr>pu_world := run_world True t pc\<rparr>"
  have s1: "run_step run_phase (?at False True (Checking 64))"
    using conn_step.call [of run_phase 0] by (simp add: run_phase_def)
  have s2: "run_step (?at False True (Checking 64)) ((?at True True Idle)\<lparr>pu_stage := Writing [pushed]\<rparr>)"
    using conn_step.deliver [of "?at False True (Checking 64)" 0 64 memoryLog_ops "[pushed]" "run_part True True"]
    by (simp add: run_phase_def run_reads_64)
  have s3: "run_step ((?at True True Idle)\<lparr>pu_stage := Writing [pushed]\<rparr>) (?after True Idle)"
    using conn_step.push [of "(?at True True Idle)\<lparr>pu_stage := Writing [pushed]\<rparr>" "[pushed]" "\<lambda>name. name" "NewServer []"
      "Ok Continue" "run_conn True" "run_pool"] run_push
    by (simp add: run_phase_def run_settled_def run_conn_def)
  have s4: "run_step (?after True Idle) (?after True (Checking 64))"
    using conn_step.call [of "?after True Idle" 0] by (simp add: run_settled_def run_phase_def)
  have s5: "run_step (?after t (Checking 64)) (?after t (Waiting 64))" for t
    using conn_step.park [of "?after t (Checking 64)" 0 64 memoryLog_ops "run_part True t"]
    by (simp add: run_settled_def run_phase_def run_reads_64)
  have s6: "run_step (?after True (Waiting 64)) (?after False (Checking 64))"
    using conn_step.wake_ready [of "?after True (Waiting 64)" 0 64] by (simp add: run_settled_def run_phase_def)
  have e: "?after False (Waiting 64) = run_settled" by (simp add: run_settled_def)
  have "(run_step ^^ Suc (Suc (Suc (Suc (Suc (Suc (Suc 0))))))) run_phase (?after False (Waiting 64))"
    by (rule relpowp_Suc_I, rule relpowp_Suc_I, rule relpowp_Suc_I, rule relpowp_Suc_I, rule relpowp_Suc_I,
        rule relpowp_Suc_I, rule relpowp_Suc_I, rule relpowp_0_I, rule s1, rule s2, rule s3, rule s4, rule s5,
        rule s6, rule s5)
  then show ?thesis unfolding e by (simp only: numeral_eq_Suc pred_numeral_simps BitM.simps)
qed

lemma run_phase_start: "push_start memoryLog_ops newMemoryLog 0 run_phase"
proof -
  let ?w0 = "start_world newMemoryLog"
  let ?w1 = "?w0\<lparr>w_part := snd (Partition_Subscribe (w_part ?w0))\<rparr>"
  let ?w2 = "?w1\<lparr>w_part := snd (Partition_Publish memoryLog_ops [7, 8] (w_part ?w1))\<rparr>"
  have r1: "reachable memoryLog_ops newMemoryLog ?w1"
    by (rule reachable.other [OF reachable.start]) (rule other_step.subscribe, rule prod.collapse [symmetric])
  have "reachable memoryLog_ops newMemoryLog ?w2"
    by (rule reachable.other [OF r1], rule other_step.publish [where payload = "[7, 8]"])
      (simp_all add: has_room_def run_defs memoryLog_Len_def fits_int64_def int64_def)
  moreover have "?w2 = run_world False True Idle"
    by (simp add: run_defs run_world_def run_part_def pushed_def int64_def fun_eq_iff)
  ultimately show ?thesis
    by (simp add: push_start_def run_phase_def run_conn_def pool_ok_def net_faults_def test_conn_def
        new_bufw_def new_conn_out_def)
qed

abbreviation run_reaches :: "memoryLog push \<Rightarrow> bool" where
  "run_reaches \<equiv> push_reachable (\<lambda>name. name) (NewServer []) memoryLog_ops 0 run_phase"

lemma run_returns: "run_reaches run_returned"
proof -
  let ?w = "run_world True False Idle"
  have "run_reaches run_settled"
    using mem.conn_steps_bounded [OF push_reachable.start run_phase_start memoryLog_inv_new(1) run_settles] by simp
  note r1 = push_reachable.env [OF this env_step.peer]
  have r2: "run_reaches (run_settled\<lparr>pu_peer := True, pu_monitor := Signalling\<rparr>)" (is "run_reaches ?p2")
    by (rule push_reachable.conn [OF r1]) (use conn_step.watch [of "run_settled\<lparr>pu_peer := True\<rparr>"] in \<open>simp add: run_settled_def run_phase_def\<close>)
  have r3: "run_reaches (?p2\<lparr>pu_cancelled := True, pu_monitor := Leaving\<rparr>)" (is "run_reaches ?p3")
    by (rule push_reachable.conn [OF r2 conn_step.signal]) simp
  have r4: "run_reaches (?p3\<lparr>pu_world := ?w, pu_stage := ClosingConn\<rparr>)" (is "run_reaches ?p4")
    by (rule push_reachable.conn [OF r3])
      (use conn_step.wake_ctx [of ?p3 0 64] in \<open>simp add: run_settled_def run_phase_def\<close>)
  have r5: "run_reaches (?p4\<lparr>pu_conn := shut (pu_conn ?p4), pu_stage := Joining\<rparr>)" (is "run_reaches ?p5")
    by (rule push_reachable.conn [OF r4 conn_step.close_conn]) simp
  have r6: "run_reaches (?p5\<lparr>pu_monitor := Gone\<rparr>)" (is "run_reaches ?p6")
    by (rule push_reachable.conn [OF r5 conn_step.leave]) simp
  have r7: "run_reaches (?p6\<lparr>pu_stage := Unsubscribing\<rparr>)" (is "run_reaches ?p7")
    by (rule push_reachable.conn [OF r6 conn_step.join]) simp_all
  have sub: "Subscription_Close 0 (run_part True False) = (Ok (), (run_part True False)\<lparr>p_subs := [],
      p_heap := [\<lparr>s_offset = 1, s_ready = False, s_done = True\<rparr>]\<rparr>)"
    by (simp add: run_part_def Subscription_Close_def unsubscribe_def delete_sub_def close_done_def sub_at_def
        update_sub_def gbind_def)
  have r8: "run_reaches (?p7\<lparr>pu_world := ?w\<lparr>w_part := snd (Subscription_Close 0 (run_part True False))\<rparr>, pu_stage := Releasing\<rparr>)"
    (is "run_reaches ?p8")
    by (rule push_reachable.conn [OF r7]) (use conn_step.unsubscribe [of ?p7 0 "Ok ()"] sub in simp)
  from push_reachable.conn [OF r8 conn_step.release] show ?thesis
    by (simp add: run_returned_def sub) (simp add: run_settled_def run_phase_def)
qed

section \<open>The push phase\<close>

text \<open>
  C6: As long as every message of the log is at most MaxMessage (a longer one ends the stream with an OpError frame,
  and the handler lets none in): the push phase under every interleaving of the handler, the monitor of the peer, the network, the
  server's \<open>Close\<close>, publishers, closers and other readers: what is on the wire is a prefix of the frames
  of the partition's log, each message once, in order, with its offset; and when the handler has
  returned, the connection is closed, the monitor's goroutine has ended, the context is cancelled and
  the subscription is closed and registered no more.
\<close>

theorem push_phase_is_safe:
  assumes "log_store ops slog sinv" and "sinv st" and "push_start ops st sid p0"
    and "push_reachable quote s ops sid p0 p"
    and "list_all (\<lambda>b. len b \<le> MaxMessage) (slog (p_store (w_part (pu_world p))))"
  shows "(\<exists>k. on_wire (pu_conn p) =
      on_wire (pu_conn p0) @ take k (messages_bytes (messages (slog (p_store (w_part (pu_world p))))))) \<and>
    (pu_stage p = Returned \<longrightarrow> \<not> h_open (pu_conn p) \<and> pu_monitor p = Gone \<and> pu_cancelled p \<and>
       s_done (p_heap (w_part (pu_world p)) ! sid) \<and> sid \<notin> set (p_subs (w_part (pu_world p))))"
proof -
  note ok = log_store.push_reachable_ok(2) [OF assms(1,4,3,2)]
    and ph = log_store.push_reachable_ok(1) [OF assms(1,4,3,2)]
  have sid: "sid < length (p_heap (w_part (pu_world p)))" using ph by (simp add: phase_ok_def)
  have "wire_ok (on_wire (pu_conn p0)) sid p"
    by (rule log_store.push_reachable_ok(3) [OF assms(1,4,3,2) log_store.push_small [OF assms(1) ok ph assms(5)]])
  then obtain k where "on_wire (pu_conn p) = on_wire (pu_conn p0) @ take k (messages_bytes (w_got (pu_world p) sid))"
    by (rule wire_ok_take)
  with world_okD(2) [OF ok sid] have "\<exists>k. on_wire (pu_conn p) =
      on_wire (pu_conn p0) @ take k (messages_bytes (messages (slog (p_store (w_part (pu_world p))))))"
    by (metis take_messages_bytes take_take)
  then show ?thesis using ph partition_okD(4) [OF world_okD(1) [OF ok] sid] by (simp add: phase_ok_def)
qed

theorem push_phase_is_safe_witness:
  "(\<exists>k. on_wire (pu_conn run_returned) =
      on_wire (pu_conn run_phase) @ take k (messages_bytes (messages (memoryLog_log (p_store (w_part (pu_world run_returned))))))) \<and>
    \<not> h_open (pu_conn run_returned) \<and> p_subs (w_part (pu_world run_returned)) = []"
  using push_phase_is_safe [OF mem.log_store_axioms memoryLog_inv_new(1) run_phase_start run_returns]
  by (simp add: run_returned_def run_part_def memoryLog_log_def pushed_def MaxMessage_def MaxPayload_def)

text \<open>
  C7: Over a store that does not fail, and as long as every message of the log is at most MaxMessage, the push
  phase comes to rest: from any state of it the connection makes at most \<open>push_measure\<close> steps
  by itself, and when it can make none, the handler has returned, or nothing asked it to stop, it waits
  in \<open>sub.Read\<close>, and every message of the log is on the wire. So a peer that leaves, a \<open>Close\<close> of the
  server and a closed subscription each end the handler, and no message is left behind.
\<close>

theorem push_phase_comes_to_rest:
  assumes "reliable_store ops slog sinv" and "sinv st" and "push_start ops st sid p0"
    and "push_reachable quote s ops sid p0 p" and "(conn_step quote s ops sid ^^ n) p p'"
    and "list_all (\<lambda>b. len b \<le> MaxMessage) (slog (p_store (w_part (pu_world p'))))"
  shows "n \<le> push_measure slog sid p \<and>
    ((\<exists>p''. conn_step quote s ops sid p' p'') \<or> pu_stage p' = Returned \<or>
     \<not> stopping sid p \<and> pu_stage p' = Reading \<and>
     on_wire (pu_conn p') = on_wire (pu_conn p0) @ messages_bytes (messages (slog (p_store (w_part (pu_world p'))))))"
proof -
  have "log_store ops slog sinv" using assms(1) by (simp add: reliable_store_def)
  note n = log_store.conn_steps_bounded [OF this assms(4,3,2,5)]
  then show ?thesis
    using reliable_store.stuck_has_sent_all [OF assms(1) conjunct1 [OF n] assms(3,2,6)] by auto
qed

lemma run_settled_stuck: "\<not> run_step run_settled p"
  by (auto simp: run_settled_def run_phase_def run_conn_def test_conn_def elim: conn_stepE)

theorem push_phase_comes_to_rest_witness:
  "7 \<le> push_measure memoryLog_log 0 run_phase \<and>
    on_wire (pu_conn run_settled) = on_wire (pu_conn run_phase) @ messages_bytes [\<lparr>Offset = 0, Payload = [7, 8]\<rparr>]"
proof -
  let ?log = "memoryLog_log (p_store (w_part (pu_world run_settled)))"
  have log: "?log = [[7, 8]]"
    by (simp add: run_settled_def run_part_def memoryLog_log_def pushed_def)
  have small: "list_all (\<lambda>b. len b \<le> MaxMessage) ?log" by (simp add: log MaxMessage_def MaxPayload_def)
  have "pu_stage run_settled \<noteq> Returned" by (simp add: run_settled_def run_phase_def)
  with push_phase_comes_to_rest [OF mem.reliable_store_axioms memoryLog_inv_new(1) run_phase_start
      push_reachable.start run_settles small] run_settled_stuck
  show ?thesis by (simp add: log messages_def int64_def)
qed

end
