(* ===== verification/Spec2Isabelle.thy ===== *)
theory Spec2Isabelle
  imports Props_Protocol Props_Broker Props_Network Props_Server Props_Client Props_Push
begin

text \<open>
  snailmq is a message broker in Go: publishers append messages to topics, subscribers read every message
  of a topic from its start, in the process or over TCP. This development models the packages under
  \<open>src/\<close> and proves that they do this: what a subscriber gets, at the broker or at the other end of a
  connection, is the log of its topic, in order and once, whatever runs at the same time and whatever fails.

  \<^bold>\<open>Parts and theories.\<close> Every definition that translates code keeps its name; the type
  \<open>outcome\<close> has the three ways a Go function ends, \<open>Ok\<close>, \<open>Fail\<close> with an error and \<open>Panic\<close>, and state is passed
  along (\<open>go\<close>, \<open>gbind\<close>).

  \<^item> \<open>Go_Prelude\<close>, \<open>Go_Binary\<close>, \<open>Go_IO\<close>, \<open>Go_Conn\<close>: the language and the standard library, as far as the program
    uses them: slices with their bounds checks, little-endian integers, \<open>io.ReadFull\<close>, \<open>bufio.Writer\<close>, and
    the sending side of a connection, which takes bytes until its fault. The contract of an
    \<open>io.Writer\<close> is the locale \<open>io_writer\<close>. \<open>Snail_Errors\<close>: every sentinel, wrapping, \<open>errors.Is\<close>.
  \<^item> \<open>Protocol_Frame\<close> (\<open>protocol/frame.go\<close>), \<open>Protocol_Codec\<close> (\<open>protocol/codec.go\<close>), \<open>Protocol_Write\<close> (the write
    functions against the encoders): round trips, no panic on any input, and what is on the writer
    after a success or a failure.
  \<^item> \<open>Broker_Store\<close> (\<open>broker/store.go\<close>, \<open>broker/message.go\<close>): the \<open>Store\<close> interface as a table of methods, its
    contract as the locale \<open>log_store\<close> (\<open>reliable_store\<close> for one that does not fail), and
    \<open>memoryLog\<close>, which keeps it. \<open>Broker_Partition\<close> (\<open>broker/partition.go\<close>) and \<open>Broker_Subscription\<close>
    (\<open>broker/subscription.go\<close>): the methods, and readers interleaved with publishers, subscribers and
    closers (\<open>read_step\<close>, \<open>other_step\<close>), with the invariant \<open>world_ok\<close> and \<open>wake_ok\<close>, by which no
    wake-up is lost. \<open>Broker_Core\<close> (\<open>broker/broker.go\<close>), \<open>Broker_Facts\<close> (invariant and branches),
    \<open>Broker_Steps\<close> (operations that overlap), \<open>Broker_Spec\<close> (the specification, a map from topic names
    to payloads, and the refinement), \<open>Broker_Api\<close> (the same for the whole API, with the subscriptions as
    handles that are read and closed) and \<open>Broker_Linear\<close> (goroutines that call the broker at the same
    time, linearizable with respect to the specification). The stores of a user come in through the locale \<open>user_store\<close>.
  \<^item> \<open>Net_Server\<close> (\<open>network/server.go\<close>: handler, responses, stream, admission, shutdown), \<open>Net_Server_Facts\<close>,
    \<open>Net_Handler\<close> (any bytes that arrive, against the specification), \<open>Net_Connection\<close> (the end of a
    connection), \<open>Net_Lifecycle\<close> (admission and \<open>Close\<close> under interleaving), \<open>Net_Stream\<close> (what is pushed
    and what a client reads of it) and \<open>Net_Push\<close> (the push phase with the monitor of the peer and
    everyone else as steps: \<open>conn_step\<close>, \<open>env_step\<close>).
  \<^item> \<open>Net_Client\<close>, \<open>Net_Client_Facts\<close>, \<open>Net_Requests\<close> (\<open>network/client.go\<close>: requests, phases, errors, options,
    reading), \<open>Net_Batcher\<close> (the \<open>Batcher\<close>, over the locale \<open>publisher\<close>) and \<open>Net_Batcher_Steps\<close> (shared by
    goroutines). \<open>Net_Rpc\<close> puts one client and the server's handler at the two ends of a connection,
    \<open>Net_Session\<close> any number of clients. \<open>Net_Layout\<close>: what the handler makes of the payload layout of the
    protocol's document.
  \<^item> \<open>Demo\<close>, \<open>Demo_Publisher\<close> and \<open>Demo_Run\<close> (\<open>cmd/demo/main.go\<close>): the subscribers; the publisher with the timer of its
    batcher, as steps (\<open>pub_step\<close>) over the connection and the broker; and \<open>run\<close> with its goroutines,
    channels and wait group, where the publisher is one step.
  \<^item> \<open>Props_Protocol\<close>, \<open>Props_Broker\<close>, \<open>Props_Network\<close>, \<open>Props_Server\<close>, \<open>Props_Client\<close>, \<open>Props_Push\<close> and this theory: the
    properties, and their witnesses on concrete runs.

  \<^bold>\<open>How they interact.\<close> A client's request is a function of \<open>net\<close>, which answers the bytes the request puts
  on the connection; \<open>loopback\<close> instantiates it with the server's handler on those bytes, whose operations are
  those of the broker, whose partitions run with the methods of a store. A subscription turns the handler
  into a stream over the calls of \<open>Subscription.Read\<close>, and what the stream writes is what the client's
  \<open>Subscription.Read\<close> gets. Concurrency is interleaving of critical sections: a method under its lock is one
  step; an operation that releases its lock in between, a reader that waits in a \<open>select\<close>, a deferred call
  and a receive of a channel are steps of their own.

  \<^bold>\<open>Integers and bounds.\<close> Offsets and counts on the wire are words of their width, converted where the code
  converts them, so truncation and wrap-around are part of the model; the memory of the process bounds
  lengths by 63 bits (\<open>fits_int64\<close>, \<open>has_room\<close>). No definition uses fuel: loops recurse on the data, on
  the bytes left to read (\<open>handleConn\<close>), on the messages still wanted (\<open>read_more\<close>, \<open>consume_loop\<close>) or on the
  room in a buffer (\<open>bufio_write\<close>), each with its termination proof. Phases that run for an unbounded time are step
  relations, and that they end is a theorem with a measure (\<open>push_measure\<close>, \<open>demo_measure\<close>, \<open>pub_measure\<close>) and a proof that they are not stuck.

  \<^bold>\<open>Parameters.\<close> What is not the program's own is an argument: the methods and the factory of a user's
  store (under \<open>log_store\<close>), \<open>dial\<close>, the network between a request and its response, \<open>strconv.Quote\<close>
  (\<open>quote\<close>; where a response must fit in a frame, a quoted name has at most four times its bytes and the quotes), the bytes
  already buffered by a reader, and whether a slice of a given capacity can be allocated.

  \<^bold>\<open>Not modelled.\<close> The logging of recovered panics (no handler panics), the clock (a deadline that
  expires is a fault of the connection at any point, the batcher's timer a step at any point), the
  mutexes and channels themselves, the kernel's buffers, socket options beyond their arguments, bytes a
  client pipelines behind a subscription (the monitor sees that they come and the phase ends), and the
  elapsed times and printed text of the demo. Tests and benchmarks are not part of the program.
\<close>

section \<open>From a publisher to a remote subscriber\<close>

text \<open>
  C1: End to end: whatever publishers, subscribers, readers and closers have done to a partition, over any
  store that keeps the contract of a log, and however the network cuts the connection: the messages
  a remote subscriber reads from the stream of its subscription are a prefix of the partition's
  log, each once, in order, with its offset; all of what the stream took is read when no write failed, and the stream stops
  when one did.
\<close>

theorem remote_subscriber_gets_the_log:
  assumes "log_store ops slog sinv" and "sinv st" and "reachable ops st w"
    and "sid < length (p_heap (w_part w))" and "concat mss = w_got w sid"
    and "list_all (\<lambda>p. len p \<le> MaxMessage) (slog (p_store (w_part w)))"
    and "pool_ok pool" and "net_faults (bw_conn (h_bw h))"
    and "stream quote s (map Ok mss) (h, pool) = (v, (h', pool'))"
    and "\<not> cl_closed c" and "cl_in c = stream_of (drop (length (on_wire h)) (on_wire h'))"
  shows "prefix (fst (read_all n c)) (messages (slog (p_store (w_part w)))) \<and>
    (if v = Ok Continue then fst (read_all (length (w_got w sid)) c) = w_got w sid else v = Ok Stop)"
proof -
  let ?ms = "w_got w sid" and ?log = "slog (p_store (w_part w))"
  have got: "?ms = messages (take (unat (s_offset (p_heap (w_part w) ! sid))) ?log)"
    using world_okD(2) [OF log_store.reachable_world_ok [OF assms(1,3,2)] assms(4)] by simp
  then have pre: "prefix ?ms (messages ?log)"
    by (metis take_messages take_is_prefix)
  have small: "\<forall>m\<in>set ?ms. len (Payload m) \<le> MaxMessage"
    using assms(6) unfolding got by (auto simp: messages_def list_all_iff dest!: in_set_takeD)
  then have "pushes h (messages_bytes ?ms) (stream quote s (map Ok mss) (h, pool))"
    unfolding assms(5) [symmetric] by (intro pushes_stream [OF assms(7,8)]) auto
  then have p: "pushes h (messages_bytes ?ms) (v, (h', pool'))" by (simp add: assms(9))
  then obtain k where "on_wire h' = on_wire h @ take k (messages_bytes ?ms)"
    unfolding pushes_def by (metis fst_conv snd_conv take_all_iff order_refl)
  then have "cl_in c = stream_of (take k (messages_bytes ?ms))" by (simp add: assms(11))
  from read_all_cut [OF assms(10) this small] have "prefix (fst (read_all n c)) ?ms" .
  moreover have "fst (read_all (length ?ms) c) = ?ms" if "v = Ok Continue"
    using read_all_messages [OF assms(10) _ small, of "[]"] p that by (simp add: pushes_def assms(11))
  moreover have "v = Ok Stop" if "v \<noteq> Ok Continue" using p that by (simp add: pushes_def)
  ultimately show ?thesis using pre by (auto intro: prefix_order.trans)
qed

definition streamed :: "verdict result \<times> (hconn \<times> header_pool)" where
  "streamed = stream (\<lambda>name. name) (NewServer []) (map Ok [w_got run_delivered 0]) (test_conn, [])"

theorem remote_subscriber_gets_the_log_witness:
  "prefix (fst (read_all 5 (test_client\<lparr>cl_in := stream_of (drop (length (on_wire test_conn)) (on_wire (fst (snd streamed))))\<rparr>)))
     (messages (memoryLog_log (p_store (w_part run_delivered)))) \<and>
   (if fst streamed = Ok Continue then
     fst (read_all (length (w_got run_delivered 0))
       (test_client\<lparr>cl_in := stream_of (drop (length (on_wire test_conn)) (on_wire (fst (snd streamed))))\<rparr>)) = w_got run_delivered 0
    else fst streamed = Ok Stop)"
proof (rule remote_subscriber_gets_the_log [OF mem.log_store_axioms memoryLog_inv_new(1) run_reachable(2)])
  show "stream (\<lambda>name. name) (NewServer []) (map Ok [w_got run_delivered 0]) (test_conn, []) =
      (fst streamed, (fst (snd streamed), snd (snd streamed)))"
    by (simp add: streamed_def)
  show "list_all (\<lambda>p. len p \<le> MaxMessage) (memoryLog_log (p_store (w_part run_delivered)))"
    by (simp add: run_delivered_def run_reads)
      (simp add: run_awake_def run_published_part take_ready_def memoryLog_log_def MaxMessage_def MaxPayload_def)
qed (simp_all add: run_pcs pool_ok_def net_faults_def test_conn_def test_client_def new_bufw_def new_conn_out_def)

section \<open>Many clients and one server\<close>

text \<open>
  C2: Any number of clients, each over a connection of its own to a new server, make any calls in any order:
  create, publish, batches, publish without acknowledgement, list, subscribe; valid or not. Each gets the
  answer that the specification gives: what the client refuses by itself, in the order of its checks, and
  else what a map from topic names to published payloads answers.
\<close>

theorem session_refines_spec:
  assumes "quote_bound quote" and "fits_int64 (sum_list (map (call_count \<circ> snd) qs))"
    and "list_all (\<lambda>(c, h). idle c \<and> sound h) ls" and "list_all (\<lambda>(i, q). i < length ls) qs"
  shows "run (session_call quote memoryLog_ops s) qs (ls, New [WithMaxTopics mx]) =
    run (remote_call mx) qs (Some Map.empty, {})"
proof -
  let ?n = "sum_list (map (call_count \<circ> snd) qs)"
  have "serving memoryLog_inv memoryLog_log ?n (New [WithMaxTopics mx])"
    by (simp add: serving_def spec_fits_def)
  moreover have "links_ok {} ls"
    using assms(3) by (auto simp: links_ok_def link_ok_def list_all_length idle_def)
  moreover have "\<forall>(i, q) \<in> set qs. i < length ls" using assms(4) by (simp add: list_all_iff)
  ultimately show ?thesis
    using mem_rel.session_refines [OF _ assms(1,2), of "New [WithMaxTopics mx]" "{}" ls s] by simp
qed

definition some_calls :: "(nat \<times> call) list" where
  "some_calls = [(0, CallCreate [97]), (1, CallPublish [97] [7]), (0, CallBatch [97] [[1], []]), (1, CallSubscribe [97]),
     (1, CallPublish [97] [8]), (0, CallCreate []), (0, CallAsync [97] [9]), (0, CallPublish [97] [10]), (0, CallList)]"

theorem session_refines_spec_witness:
  "run (session_call (\<lambda>name. name) memoryLog_ops (NewServer [])) some_calls
     ([(test_client, test_conn), (test_client, test_conn)], New [WithMaxTopics 3]) =
   [RespUnit (Ok ()), RespOffset (Ok 0), RespOffset (Ok 1), RespUnit (Ok ()), RespOffset (Fail (Some ErrStreaming)),
    RespUnit (Fail (Some ErrTopicNameEmpty)), RespUnit (Ok ()), RespOffset (Ok 4), RespNames (Ok [[97]])]"
proof -
  have "run (session_call (\<lambda>name. name) memoryLog_ops (NewServer [])) some_calls
     ([(test_client, test_conn), (test_client, test_conn)], New [WithMaxTopics 3]) =
     run (remote_call 3) some_calls (Some Map.empty, {})"
    by (rule session_refines_spec [OF quote_bound_id])
      (simp_all add: some_calls_def test_client_idle test_conn_sound fits_int64_def)
  also have "\<dots> = [RespUnit (Ok ()), RespOffset (Ok 0), RespOffset (Ok 1), RespUnit (Ok ()), RespOffset (Fail (Some ErrStreaming)),
      RespUnit (Fail (Some ErrTopicNameEmpty)), RespUnit (Ok ()), RespOffset (Ok 4), RespNames (Ok [[97]])]"
    by (simp add: some_calls_def remote_call_def name_error_def control_def spec_CreateTopic_def spec_append_def
        spec_Subscribe_def remote_names_def spec_ListTopics_def Encode_eqs counted_def MaxMessage_def MaxPayload_def
        int64_def)
  finally show ?thesis .
qed

end
